(* ===== verification/Prelude.thy ===== *)
theory Prelude
  imports Main "HOL-Library.Word"
begin

unbundle bit_operations_syntax

text \<open>
  Shared vocabulary of the development: the machine words of the 32-bit target, the result type
  of kernel code (return, return to user mode, panic, spin for ever) with its sequencing
  operator, and the generic lemmas on words, sets and folds that the component theories use.
\<close>

section \<open>Machine words\<close>

text \<open>\<^verbatim>\<open>uint8_t\<close>, \<^verbatim>\<open>uint16_t\<close>, \<^verbatim>\<open>uint32_t\<close> and \<^verbatim>\<open>uint64_t\<close> of \<^verbatim>\<open>inc/types.h\<close>.\<close>

type_synonym u8 = "8 word"
type_synonym u16 = "16 word"
type_synonym u32 = "32 word"
type_synonym u64 = "64 word"

named_theorems kres_simps \<open>evaluation of sequenced kernel code\<close>
named_theorems const_defs \<open>the numeric constants of the headers\<close>

section \<open>Results of kernel code\<close>

text \<open>
  A kernel function called in a state either returns a value and a new state (\<open>Ok\<close>), leaves
  the kernel through \<^verbatim>\<open>iret\<close> and never returns to its caller (\<open>Iret\<close>: \<^verbatim>\<open>env_run\<close> and
  \<^verbatim>\<open>env_pop_tf\<close>), waits in the scheduler's idle loop until another processor makes an environment
  runnable (\<open>Idle\<close>), panics (a failed \<^verbatim>\<open>assert\<close>, a \<^verbatim>\<open>panic\<close> or a fault on an invalid address,
  with a message), or never terminates (\<open>Hang\<close>: spinning on a lock that nobody releases).
\<close>

datatype ('a, 's) kres = Ok 'a 's | Iret 's | Idle 's | Panic string | Hang

fun kbind :: "('a, 's) kres \<Rightarrow> ('a \<Rightarrow> 's \<Rightarrow> ('b, 's) kres) \<Rightarrow> ('b, 's) kres" where
  "kbind (Ok r s) f = f r s"
| "kbind (Iret s) f = Iret s"
| "kbind (Idle s) f = Idle s"
| "kbind (Panic m) f = Panic m"
| "kbind Hang f = Hang"

definition kassert :: "bool \<Rightarrow> string \<Rightarrow> 's \<Rightarrow> (unit, 's) kres" where
  "kassert b m s = (if b then Ok () s else Panic m)"

lemma kbind_Ok_iff [kres_simps]:
  "kbind m f = Ok r t \<longleftrightarrow> (\<exists>x s. m = Ok x s \<and> f x s = Ok r t)"
  by (cases m) auto

lemma kbind_Iret_iff [kres_simps]:
  "kbind m f = Iret t \<longleftrightarrow> m = Iret t \<or> (\<exists>x s. m = Ok x s \<and> f x s = Iret t)"
  by (cases m) auto

lemma kbind_assoc: "kbind (kbind m f) g = kbind m (\<lambda>r s. kbind (f r s) g)"
  by (cases m) auto

lemma kassert_True [simp]: "kassert True m s = Ok () s"
  by (simp add: kassert_def)

lemma kassert_False [simp]: "kassert False m s = Panic m"
  by (simp add: kassert_def)

lemma kassert_Ok_iff [kres_simps]: "kassert b m s = Ok r t \<longleftrightarrow> b \<and> t = s"
  by (auto simp: kassert_def)

text \<open>
  \<open>returns Q R m\<close>: the code neither panics nor spins on a lock; if it returns, \<open>Q\<close> holds of the
  value and the state, and if it leaves the kernel or idles in the scheduler, \<open>R\<close> holds of the
  state. It is the postcondition the invariant lemmas are stated with: it excludes failed
  assertions, it does not assume them away.
\<close>

fun returns :: "('a \<Rightarrow> 's \<Rightarrow> bool) \<Rightarrow> ('s \<Rightarrow> bool) \<Rightarrow> ('a, 's) kres \<Rightarrow> bool" where
  "returns Q R (Ok r s) = Q r s"
| "returns Q R (Iret s) = R s"
| "returns Q R (Idle s) = R s"
| "returns Q R (Panic m) = False"
| "returns Q R Hang = False"

lemma returns_kbind:
  "returns Q R (kbind m f) \<longleftrightarrow> returns (\<lambda>r s. returns Q R (f r s)) R m"
  by (cases m) auto

lemma returns_mono:
  assumes "returns Q R m" and "\<And>r s. m = Ok r s \<Longrightarrow> Q r s \<Longrightarrow> Q' r s"
    and "\<And>s. R s \<Longrightarrow> R' s"
  shows "returns Q' R' m"
  using assms by (cases m) auto

lemma returns_OkD: "returns Q R m \<Longrightarrow> m = Ok r s \<Longrightarrow> Q r s"
  by simp

lemma returns_kbindI:
  assumes "returns P R m" and "\<And>r s. P r s \<Longrightarrow> returns Q R (f r s)"
  shows "returns Q R (kbind m f)"
  using assms by (cases m) auto

text \<open>A loop over a list of indices whose body may fail, as a C \<^verbatim>\<open>for\<close> loop.\<close>

fun kfor :: "'i list \<Rightarrow> ('i \<Rightarrow> 's \<Rightarrow> (unit, 's) kres) \<Rightarrow> 's \<Rightarrow> (unit, 's) kres" where
  "kfor [] body s = Ok () s"
| "kfor (i # is) body s = kbind (body i s) (\<lambda>_ s. kfor is body s)"

lemma returns_kfor:
  assumes "I [] s"
    and "\<And>pre i rest s. is = pre @ i # rest \<Longrightarrow> I pre s \<Longrightarrow>
           returns (\<lambda>_ s'. I (pre @ [i]) s') R (body i s)"
  shows "returns (\<lambda>_ s'. I is s') R (kfor is body s)"
proof -
  have "returns (\<lambda>_ s'. I is s') R (kfor rest body s)"
    if "is = pre @ rest" "I pre s" for pre rest s
    using that
  proof (induction rest arbitrary: pre s)
    case Nil
    then show ?case by simp
  next
    case (Cons i rest)
    have "returns (\<lambda>_ s'. I (pre @ [i]) s') R (body i s)"
      using Cons.prems assms(2) by blast
    then show ?case
      using Cons.IH [of "pre @ [i]"] Cons.prems(1)
      by (auto intro!: returns_kbindI)
  qed
  from this [of "[]"] assms(1) show ?thesis by simp
qed

lemma returns_kfor_upt:
  assumes "I 0 s" and "\<And>k s. k < n \<Longrightarrow> I k s \<Longrightarrow> returns (\<lambda>_ s'. I (Suc k) s') R (body k s)"
  shows "returns (\<lambda>_ s'. I n s') R (kfor [0..<n] body s)"
proof -
  have "returns (\<lambda>_ s'. I (length [0..<n]) s') R (kfor [0..<n] body s)"
  proof (rule returns_kfor [where I = "\<lambda>pre. I (length pre)"])
    fix pre i rest s
    assume split: "[0..<n] = pre @ i # rest" and I: "I (length pre) s"
    from split have "length [0..<n] = length (pre @ i # rest)"
      by (rule arg_cong)
    then have less: "length pre < n"
      by simp
    then have "i = length pre"
      using nth_append_length [of pre i rest] nth_upt [of 0 "length pre" n] split by simp
    with less show "returns (\<lambda>_ s'. I (length (pre @ [i])) s') R (body i s)"
      using assms(2) I by simp
  qed (use assms in simp)
  then show ?thesis by simp
qed

lemma returns_OkE:
  assumes "returns Q (\<lambda>_. False) m"
  obtains r s where "m = Ok r s" and "Q r s"
  using assms by (cases m) auto

section \<open>Words\<close>

lemma unat_u32_less: "unat (w :: u32) < 4294967296"
  using unsigned_less [of w] by simp

lemma word_and_mask_eq_mod:
  "(w :: 'a::len word) AND mask n = w mod 2 ^ n"
  by (simp add: take_bit_eq_mask [symmetric] take_bit_eq_mod)

lemma unat_drop_bit: "unat (drop_bit n (w :: 'a::len word)) = unat w div 2 ^ n"
  by (subst unsigned_drop_bit_eq) (simp add: drop_bit_eq_div take_bit_nat_eq_self)

lemma unat_take_bit: "unat (take_bit n (w :: 'a::len word)) = unat w mod 2 ^ n"
  by (subst unsigned_take_bit_eq) (rule take_bit_eq_mod)

lemma unat_inc:
  assumes "unat (w :: u32) + 1 < 2 ^ 32"
  shows "unat (w + 1) = unat w + 1"
  using assms by (simp add: unat_word_ariths)

lemma unat_dec:
  assumes "w \<noteq> (0 :: u32)"
  shows "unat (w - 1) = unat w - 1"
  using assms unat_minus_one by blast

lemma ucast_8_32_8 [simp]: "(ucast (ucast (c :: u8) :: u32) :: u8) = c"
  by (rule bit_word_eqI) (auto simp: bit_simps)

lemma ucast_8_32_16 [simp]: "(ucast (ucast (c :: u8) :: u32) :: u16) = ucast c"
  by (rule bit_word_eqI) (auto simp: bit_simps dest: bit_imp_le_length)

lemma ucast_8_32_eq_iff: "(ucast (c :: u8) :: u32) = ucast d \<longleftrightarrow> c = d"
  using ucast_8_32_8 by metis

text \<open>Words read as signed integers.\<close>

lemma bit31_iff: "bit (uint (w :: u32)) 31 \<longleftrightarrow> 2 ^ 31 \<le> unat w"
proof -
  have "unat w div 2 ^ 31 = (if unat w < 2 ^ 31 then 0 else 1)"
    using unat_u32_less [of w] by (simp add: div_nat_eqI)
  moreover have "bit (uint w) 31 \<longleftrightarrow> odd (unat w div 2 ^ 31)"
    unfolding bit_iff_odd [symmetric] by (simp add: bit_unsigned_iff)
  ultimately show ?thesis
    by (simp split: if_splits)
qed

lemma sint_nonneg_iff: "0 \<le> sint (w :: u32) \<longleftrightarrow> unat w < 2 ^ 31"
  using bit31_iff [of w] by (simp add: sint_uint not_le)

lemma sint_eq_unat:
  assumes "unat (w :: u32) < 2 ^ 31"
  shows "sint w = int (unat w)"
proof -
  have "\<not> bit (uint w) 31"
    using assms bit31_iff [of w] by simp
  then have "sint w = take_bit 31 (uint w)"
    by (simp add: sint_uint signed_take_bit_eq_if_positive)
  moreover have "int (unat w) < 2 ^ 31"
    using assms of_nat_less_iff [of "unat w" "2 ^ 31", where 'a = int] by simp
  then have "take_bit 31 (uint w) = uint w"
    by (intro take_bit_int_eq_self) simp_all
  ultimately show ?thesis by simp
qed

lemma sint_pos_iff: "0 < sint (w :: u32) \<longleftrightarrow> 0 < unat w \<and> unat w < 2 ^ 31"
proof (cases "unat w < 2 ^ 31")
  case True
  then show ?thesis unfolding sint_eq_unat [OF True] by linarith
next
  case False
  then have "\<not> 0 \<le> sint w" using sint_nonneg_iff by simp
  with False show ?thesis by linarith
qed

section \<open>Finite sets and updates\<close>

lemma card_insert_new: "finite S \<Longrightarrow> x \<notin> S \<Longrightarrow> card (insert x S) = card S + 1"
  by simp

lemma card_remove: "finite S \<Longrightarrow> x \<in> S \<Longrightarrow> card (S - {x}) = card S - 1"
  by simp

lemma fun_upd_same_id [simp]: "f(x := f x) = f"
  by (rule fun_upd_triv)

lemma div_mod_eqI: "a div k = b div k \<Longrightarrow> a mod k = b mod k \<Longrightarrow> a = (b :: nat)"
  by (metis div_mult_mod_eq)

text \<open>Scanning past a token of a text.\<close>

lemma length_dropWhile_le: "length (dropWhile P xs) \<le> length xs"
  by (induction xs) auto

end
