(* ===== verification/Mmu.thy ===== *)
theory Mmu
  imports Prelude
begin

text \<open>
  The address arithmetic of the 32-bit x86 target: the macros of \<^verbatim>\<open>inc/types.h\<close>,
  \<^verbatim>\<open>inc/mmu.h\<close> and \<^verbatim>\<open>inc/memlayout.h\<close> as functions on 32-bit words (so additions and shifts
  wrap as the compiled code does), the memory layout constants, and the segment and gate
  descriptors with the fields the hardware reads back out of them.
\<close>

section \<open>Rounding (inc/types.h)\<close>

definition ROUNDDOWN :: "u32 \<Rightarrow> u32 \<Rightarrow> u32" where
  "ROUNDDOWN a n = a - a mod n"

definition ROUNDUP :: "u32 \<Rightarrow> u32 \<Rightarrow> u32" where
  "ROUNDUP a n = ROUNDDOWN (a + n - 1) n"

definition MIN_u32 :: "u32 \<Rightarrow> u32 \<Rightarrow> u32" where
  "MIN_u32 a b = (if a \<le> b then a else b)"

definition MAX_u32 :: "u32 \<Rightarrow> u32 \<Rightarrow> u32" where
  "MAX_u32 a b = (if a \<ge> b then a else b)"

section \<open>Paging constants and macros (inc/mmu.h)\<close>

definition PTXSHIFT :: nat where [const_defs]: "PTXSHIFT = 12"
definition PDXSHIFT :: nat where [const_defs]: "PDXSHIFT = 22"
definition PGSHIFT :: nat where [const_defs]: "PGSHIFT = 12"
definition PGSIZE :: u32 where [const_defs]: "PGSIZE = 4096"
definition NPDENTRIES :: nat where [const_defs]: "NPDENTRIES = 1024"
definition NPTENTRIES :: nat where [const_defs]: "NPTENTRIES = 1024"
definition PTSIZE :: u32 where [const_defs]: "PTSIZE = PGSIZE * of_nat NPTENTRIES"

definition PPN :: "u32 \<Rightarrow> u32" where
  "PPN la = drop_bit PTXSHIFT la"

definition VPN :: "u32 \<Rightarrow> u32" where
  "VPN la = PPN la"

definition PDX :: "u32 \<Rightarrow> u32" where
  "PDX la = drop_bit PDXSHIFT la AND 0x3FF"

definition VPD :: "u32 \<Rightarrow> u32" where
  "VPD la = PDX la"

definition PTX :: "u32 \<Rightarrow> u32" where
  "PTX la = drop_bit PTXSHIFT la AND 0x3FF"

definition PGOFF :: "u32 \<Rightarrow> u32" where
  "PGOFF la = la AND 0xFFF"

definition PGADDR :: "u32 \<Rightarrow> u32 \<Rightarrow> u32 \<Rightarrow> u32" where
  "PGADDR d t off = push_bit PDXSHIFT d OR push_bit PTXSHIFT t OR off"

definition PTE_P :: u32 where [const_defs]: "PTE_P = 0x001"
definition PTE_W :: u32 where [const_defs]: "PTE_W = 0x002"
definition PTE_U :: u32 where [const_defs]: "PTE_U = 0x004"
definition PTE_PWT :: u32 where [const_defs]: "PTE_PWT = 0x008"
definition PTE_PCD :: u32 where [const_defs]: "PTE_PCD = 0x010"
definition PTE_A :: u32 where [const_defs]: "PTE_A = 0x020"
definition PTE_D :: u32 where [const_defs]: "PTE_D = 0x040"
definition PTE_PS :: u32 where [const_defs]: "PTE_PS = 0x080"
definition PTE_MBZ :: u32 where [const_defs]: "PTE_MBZ = 0x180"
definition PTE_SHARE :: u32 where [const_defs]: "PTE_SHARE = 0x400"
definition PTE_AVAIL :: u32 where [const_defs]: "PTE_AVAIL = 0xE00"
definition PTE_USER :: u32 where [const_defs]: "PTE_USER = PTE_AVAIL OR PTE_P OR PTE_W OR PTE_U"

definition PTE_ADDR :: "u32 \<Rightarrow> u32" where
  "PTE_ADDR pte = pte AND NOT 0xFFF"

definition FL_IF :: u32 where [const_defs]: "FL_IF = 0x200"
definition FL_IOPL_MASK :: u32 where [const_defs]: "FL_IOPL_MASK = 0x3000"
definition FL_IOPL_3 :: u32 where [const_defs]: "FL_IOPL_3 = 0x3000"

definition FEC_PR :: u32 where [const_defs]: "FEC_PR = 0x1"
definition FEC_WR :: u32 where [const_defs]: "FEC_WR = 0x2"
definition FEC_U :: u32 where [const_defs]: "FEC_U = 0x4"

section \<open>Memory layout (inc/memlayout.h)\<close>

definition GD_KT :: u16 where [const_defs]: "GD_KT = 0x08"
definition GD_KD :: u16 where [const_defs]: "GD_KD = 0x10"
definition GD_UT :: u16 where [const_defs]: "GD_UT = 0x18"
definition GD_UD :: u16 where [const_defs]: "GD_UD = 0x20"
definition GD_TSS :: u16 where [const_defs]: "GD_TSS = 0x28"

definition KERNBASE :: u32 where [const_defs]: "KERNBASE = 0xF0000000"
definition IOPHYSMEM :: u32 where [const_defs]: "IOPHYSMEM = 0x0A0000"
definition EXTPHYSMEM :: u32 where [const_defs]: "EXTPHYSMEM = 0x100000"
definition VPT :: u32 where [const_defs]: "VPT = KERNBASE - PTSIZE"
definition KSTACKTOP :: u32 where [const_defs]: "KSTACKTOP = VPT"
definition KSTKSIZE :: u32 where [const_defs]: "KSTKSIZE = 8 * PGSIZE"
definition ULIM :: u32 where [const_defs]: "ULIM = KSTACKTOP - PTSIZE"
definition UVPT :: u32 where [const_defs]: "UVPT = ULIM - PTSIZE"
definition UPAGES :: u32 where [const_defs]: "UPAGES = UVPT - PTSIZE"
definition UENVS :: u32 where [const_defs]: "UENVS = UPAGES - PTSIZE"
definition UTOP :: u32 where [const_defs]: "UTOP = UENVS"
definition UXSTACKTOP :: u32 where [const_defs]: "UXSTACKTOP = UTOP"
definition USTACKTOP :: u32 where [const_defs]: "USTACKTOP = UTOP - 2 * PGSIZE"
definition UTEXT :: u32 where [const_defs]: "UTEXT = 2 * PTSIZE"
definition UTEMP :: u32 where [const_defs]: "UTEMP = PTSIZE"
definition PFTEMP :: u32 where [const_defs]: "PFTEMP = UTEMP + PTSIZE - PGSIZE"
definition USTABDATA :: u32 where [const_defs]: "USTABDATA = PTSIZE div 2"

section \<open>Segment and gate descriptors (inc/mmu.h)\<close>

text \<open>Each bit field keeps its declared width, so storing truncates as the compiler does.\<close>

record segdesc =
  sd_lim_15_0 :: u16
  sd_base_15_0 :: u16
  sd_base_23_16 :: u8
  sd_type :: "4 word"
  sd_s :: "1 word"
  sd_dpl :: "2 word"
  sd_p :: "1 word"
  sd_lim_19_16 :: "4 word"
  sd_avl :: "1 word"
  sd_rsv1 :: "1 word"
  sd_db :: "1 word"
  sd_g :: "1 word"
  sd_base_31_24 :: u8

definition SEG_NULL :: segdesc where
  "SEG_NULL = \<lparr>sd_lim_15_0 = 0, sd_base_15_0 = 0, sd_base_23_16 = 0, sd_type = 0, sd_s = 0,
     sd_dpl = 0, sd_p = 0, sd_lim_19_16 = 0, sd_avl = 0, sd_rsv1 = 0, sd_db = 0, sd_g = 0,
     sd_base_31_24 = 0\<rparr>"

definition SEG :: "u32 \<Rightarrow> u32 \<Rightarrow> u32 \<Rightarrow> u32 \<Rightarrow> segdesc" where
  "SEG type base lim dpl = \<lparr>sd_lim_15_0 = ucast (drop_bit 12 lim AND 0xffff),
     sd_base_15_0 = ucast (base AND 0xffff), sd_base_23_16 = ucast (drop_bit 16 base AND 0xff),
     sd_type = ucast type, sd_s = 1, sd_dpl = ucast dpl, sd_p = 1,
     sd_lim_19_16 = ucast (drop_bit 28 lim), sd_avl = 0, sd_rsv1 = 0, sd_db = 1, sd_g = 1,
     sd_base_31_24 = ucast (drop_bit 24 base)\<rparr>"

definition SEG16 :: "u32 \<Rightarrow> u32 \<Rightarrow> u32 \<Rightarrow> u32 \<Rightarrow> segdesc" where
  "SEG16 type base lim dpl = \<lparr>sd_lim_15_0 = ucast (lim AND 0xffff),
     sd_base_15_0 = ucast (base AND 0xffff), sd_base_23_16 = ucast (drop_bit 16 base AND 0xff),
     sd_type = ucast type, sd_s = 1, sd_dpl = ucast dpl, sd_p = 1,
     sd_lim_19_16 = ucast (drop_bit 16 lim), sd_avl = 0, sd_rsv1 = 0, sd_db = 1, sd_g = 0,
     sd_base_31_24 = ucast (drop_bit 24 base)\<rparr>"

record gatedesc =
  gd_off_15_0 :: u16
  gd_ss :: u16
  gd_args :: "5 word"
  gd_rsv1 :: "3 word"
  gd_type :: "4 word"
  gd_s :: "1 word"
  gd_dpl :: "2 word"
  gd_p :: "1 word"
  gd_off_31_16 :: u16

definition SETGATE :: "bool \<Rightarrow> u16 \<Rightarrow> u32 \<Rightarrow> u32 \<Rightarrow> gatedesc" where
  "SETGATE istrap sel off dpl = \<lparr>gd_off_15_0 = ucast (off AND 0xffff), gd_ss = sel,
     gd_args = 0, gd_rsv1 = 0, gd_type = (if istrap then 0xF else 0xE), gd_s = 0,
     gd_dpl = ucast dpl, gd_p = 1, gd_off_31_16 = ucast (drop_bit 16 off)\<rparr>"

text \<open>How the processor reassembles the split fields.\<close>

definition seg_base :: "segdesc \<Rightarrow> u32" where
  "seg_base d = push_bit 24 (ucast (sd_base_31_24 d)) OR push_bit 16 (ucast (sd_base_23_16 d))
     OR ucast (sd_base_15_0 d)"

definition seg_limit :: "segdesc \<Rightarrow> u32" where
  "seg_limit d =
     (let raw = push_bit 16 (ucast (sd_lim_19_16 d)) OR ucast (sd_lim_15_0 d)
      in if sd_g d = 1 then push_bit 12 raw OR 0xfff else raw)"

definition gate_offset :: "gatedesc \<Rightarrow> u32" where
  "gate_offset g = push_bit 16 (ucast (gd_off_31_16 g)) OR ucast (gd_off_15_0 g)"

section \<open>Decomposition of linear addresses\<close>

lemma mask_numerals:
  "(0x3FF :: u32) = mask 10" "(0xFFF :: u32) = mask 12" "(0xffff :: u32) = mask 16"
  "(0xff :: u32) = mask 8"
  by (simp_all add: mask_eq_exp_minus_1)

lemmas addr_macros = PPN_def VPN_def PDX_def VPD_def PTX_def PGOFF_def PGADDR_def PTE_ADDR_def
  PTXSHIFT_def PDXSHIFT_def PGSHIFT_def

lemma bit_small:
  assumes "unat (w :: u32) < 2 ^ k" and "bit w n"
  shows "n < k"
proof (rule ccontr)
  assume "\<not> n < k"
  have "2 ^ n \<le> unat w"
  proof -
    have "bit (unat w) n"
      using assms(2) by (simp add: bit_unsigned_iff bit_imp_possible_bit)
    then have "odd (unat w div 2 ^ n)"
      by (simp add: bit_iff_odd)
    then have "unat w div 2 ^ n \<noteq> 0"
      by (intro notI) simp
    then show ?thesis
      by (simp add: div_eq_0_iff)
  qed
  moreover have "(2 :: nat) ^ k \<le> 2 ^ n"
    using \<open>\<not> n < k\<close> by simp
  ultimately show False
    using assms(1) by simp
qed

lemma PGADDR_decompose: "PGADDR (PDX la) (PTX la) (PGOFF la) = la"
  unfolding addr_macros mask_numerals
proof (rule bit_word_eqI)
  fix n
  assume "n < LENGTH(32)"
  then show "bit (push_bit 22 (drop_bit 22 la AND mask 10) OR
      push_bit 12 (drop_bit 12 la AND mask 10) OR la AND mask 12) n = bit la n"
    by (cases "n < 22") (auto simp: bit_simps not_less)
qed

lemma PDX_PGADDR [simp]:
  assumes "unat d < 1024" "unat t < 1024" "unat off < 4096"
  shows "PDX (PGADDR d t off) = d"
  using bit_small [of d 10] bit_small [of t 10] bit_small [of off 12] assms
  unfolding addr_macros mask_numerals
  by (intro bit_word_eqI) (fastforce simp: bit_simps)

lemma PTX_PGADDR [simp]:
  assumes "unat d < 1024" "unat t < 1024" "unat off < 4096"
  shows "PTX (PGADDR d t off) = t"
  using bit_small [of d 10] bit_small [of t 10] bit_small [of off 12] assms
  unfolding addr_macros mask_numerals
  by (intro bit_word_eqI) (fastforce simp: bit_simps)

lemma PGOFF_PGADDR [simp]:
  assumes "unat d < 1024" "unat t < 1024" "unat off < 4096"
  shows "PGOFF (PGADDR d t off) = off"
  using bit_small [of d 10] bit_small [of t 10] bit_small [of off 12] assms
  unfolding addr_macros mask_numerals
  by (intro bit_word_eqI) (fastforce simp: bit_simps)

lemma unat_PDX: "unat (PDX la) = unat la div 2 ^ 22 mod 1024"
  unfolding addr_macros mask_numerals take_bit_eq_mask [symmetric]
  by (simp add: unat_take_bit unat_drop_bit)

lemma unat_PTX: "unat (PTX la) = unat la div 2 ^ 12 mod 1024"
  unfolding addr_macros mask_numerals take_bit_eq_mask [symmetric]
  by (simp add: unat_take_bit unat_drop_bit)

lemma unat_PPN: "unat (PPN la) = unat la div 2 ^ 12"
  unfolding addr_macros by (simp add: unat_drop_bit)

lemma unat_PGOFF: "unat (PGOFF la) = unat la mod 4096"
  unfolding addr_macros mask_numerals take_bit_eq_mask [symmetric]
  by (simp add: unat_take_bit)

lemma unat_PDX_less [simp]: "unat (PDX la) < 1024"
  by (simp add: unat_PDX)

lemma unat_PTX_less [simp]: "unat (PTX la) < 1024"
  by (simp add: unat_PTX)

section \<open>Rounding\<close>

lemma unat_ROUNDDOWN: "unat (ROUNDDOWN a n) = unat a - unat a mod unat n"
proof -
  have "unat (a mod n) \<le> unat a"
    by (simp add: unat_mod)
  then show ?thesis
    by (simp add: ROUNDDOWN_def unat_sub word_le_nat_alt unat_mod)
qed

lemma unat_ROUNDUP:
  assumes "0 < unat n" and "unat a + unat n - 1 < 2 ^ 32"
  shows "unat (ROUNDUP a n) = (unat a + unat n - 1) - (unat a + unat n - 1) mod unat n"
proof -
  have n: "unat (n - 1) = unat n - 1"
    using assms(1) by (intro unat_dec) auto
  moreover have "unat (a + (n - 1)) = unat a + unat (n - 1)"
    using assms n by (simp add: unat_word_ariths)
  ultimately show ?thesis
    using assms(1) by (simp add: ROUNDUP_def unat_ROUNDDOWN add_diff_eq)
qed

section \<open>Reassembling descriptor fields\<close>

lemma halves_join:
  "push_bit 16 (ucast (ucast (drop_bit 16 (w :: u32)) :: u16)) OR ucast (ucast (w AND 0xffff) :: u16) = w"
  unfolding mask_numerals
  by (rule bit_word_eqI) (auto simp: bit_simps not_less)

lemma base_join:
  "push_bit 24 (ucast (ucast (drop_bit 24 (w :: u32)) :: u8))
    OR push_bit 16 (ucast (ucast (drop_bit 16 w AND 0xff) :: u8)) OR ucast (ucast (w AND 0xffff) :: u16) = w"
  unfolding mask_numerals
proof (rule bit_word_eqI)
  fix n
  assume "n < LENGTH(32)"
  then show "bit (push_bit 24 (ucast (ucast (drop_bit 24 w) :: u8))
    OR push_bit 16 (ucast (ucast (drop_bit 16 w AND mask 8) :: u8)) OR ucast (ucast (w AND mask 16) :: u16) :: u32) n
    = bit w n"
    by (cases "n < 24") (auto simp: bit_simps not_less)
qed

lemma limit_pages_join:
  "(push_bit 28 (ucast (ucast (drop_bit 28 (w :: u32)) :: 4 word))
    OR push_bit 12 (ucast (ucast (drop_bit 12 w AND 0xffff) :: u16))) OR 0xfff = w OR 0xfff"
  unfolding mask_numerals
proof (rule bit_word_eqI)
  fix n
  assume "n < LENGTH(32)"
  then show "bit ((push_bit 28 (ucast (ucast (drop_bit 28 w) :: 4 word))
    OR push_bit 12 (ucast (ucast (drop_bit 12 w AND mask 16) :: u16))) OR mask 12 :: u32) n
    = bit (w OR mask 12) n"
    by (cases "n < 28") (auto simp: bit_simps not_less)
qed

lemma limit_bytes_join:
  "push_bit 16 (ucast (ucast (drop_bit 16 (w :: u32)) :: 4 word))
    OR ucast (ucast (w AND 0xffff) :: u16) = w AND 0xfffff"
proof -
  have m: "(0xfffff :: u32) = mask 20"
    by (simp add: mask_eq_exp_minus_1)
  show ?thesis
    unfolding mask_numerals m by (rule bit_word_eqI) (auto simp: bit_simps not_less)
qed

section \<open>Properties\<close>

text \<open>
  Splitting a linear address with \<^verbatim>\<open>PDX\<close>, \<^verbatim>\<open>PTX\<close> and \<^verbatim>\<open>PGOFF\<close> and reassembling it with
  \<^verbatim>\<open>PGADDR\<close> is the identity on all 32-bit addresses, the parts are in range, and every triple of
  in-range parts is the decomposition of exactly one address.
\<close>

theorem linear_address_roundtrip:
  "PGADDR (PDX la) (PTX la) (PGOFF la) = la
   \<and> PDX la < 1024 \<and> PTX la < 1024 \<and> PGOFF la < 4096
   \<and> (d < 1024 \<longrightarrow> t < 1024 \<longrightarrow> off < 4096 \<longrightarrow>
        PDX (PGADDR d t off) = d \<and> PTX (PGADDR d t off) = t \<and> PGOFF (PGADDR d t off) = off)"
  by (auto simp: PGADDR_decompose word_less_nat_alt unat_PGOFF)

theorem linear_address_roundtrip_witness:
  "PDX (PGADDR 0x3BB 5 0x123) = 0x3BB \<and> PTX (PGADDR 0x3BB 5 0x123) = 5
   \<and> PGOFF (PGADDR 0x3BB 5 0x123) = 0x123"
  using linear_address_roundtrip [of 0 "0x3BB" 5 "0x123"] by simp

text \<open>
  For a non-zero \<open>n\<close> and no wrap-around, \<^verbatim>\<open>ROUNDDOWN(a, n)\<close> is the largest multiple of \<open>n\<close>
  not above \<open>a\<close>, and \<^verbatim>\<open>ROUNDUP(a, n)\<close> the smallest multiple of \<open>n\<close> not below \<open>a\<close>.
\<close>

theorem rounding_brackets:
  assumes "n \<noteq> 0" and "unat a + unat n - 1 < 2 ^ 32"
  shows "unat n dvd unat (ROUNDDOWN a n) \<and> ROUNDDOWN a n \<le> a
    \<and> unat a < unat (ROUNDDOWN a n) + unat n
    \<and> unat n dvd unat (ROUNDUP a n) \<and> a \<le> ROUNDUP a n
    \<and> unat (ROUNDUP a n) < unat a + unat n"
proof -
  have n: "0 < unat n"
    using assms(1) by (simp add: unat_gt_0)
  note up = unat_ROUNDUP [OF n assms(2)]
  have "unat n dvd unat (ROUNDDOWN a n)" "ROUNDDOWN a n \<le> a"
    by (simp_all add: unat_ROUNDDOWN word_le_nat_alt)
  moreover have "unat a < unat (ROUNDDOWN a n) + unat n"
    using mod_less_divisor [OF n, of "unat a"] mod_less_eq_dividend [of "unat a" "unat n"]
    unfolding unat_ROUNDDOWN by linarith
  moreover have "unat n dvd unat (ROUNDUP a n)"
    unfolding up by (rule dvd_minus_mod)
  moreover have "a \<le> ROUNDUP a n"
    using mod_less_divisor [OF n, of "unat a + unat n - 1"] n
    unfolding word_le_nat_alt up by linarith
  moreover have "unat (ROUNDUP a n) < unat a + unat n"
    using n unfolding up by linarith
  ultimately show ?thesis
    by blast
qed

theorem rounding_brackets_witness:
  "(4096 :: u32) \<noteq> 0 \<and> ROUNDDOWN 0x12345 4096 \<le> 0x12345 \<and> 0x12345 \<le> ROUNDUP 0x12345 4096"
  using rounding_brackets [of 4096 "0x12345"] by simp

text \<open>
  Descriptor encodings are read back by the processor as they were meant: a gate built by
  \<^verbatim>\<open>SETGATE\<close> has the handler's offset, a segment built by \<^verbatim>\<open>SEG\<close> the given base and its limit
  rounded up to a whole page, and one built by \<^verbatim>\<open>SEG16\<close> the base and the low 20 bits of the limit.
\<close>

theorem descriptor_roundtrip:
  "gate_offset (SETGATE istrap sel off dpl) = off
   \<and> seg_base (SEG ty base lim dpl) = base
   \<and> seg_limit (SEG ty base lim dpl) = lim OR 0xfff
   \<and> seg_base (SEG16 ty base lim dpl) = base
   \<and> seg_limit (SEG16 ty base lim dpl) = lim AND 0xfffff"
  by (simp add: gate_offset_def SETGATE_def seg_base_def seg_limit_def SEG_def SEG16_def
      halves_join base_join limit_pages_join limit_bytes_join)

end
