(* ===== verification/Queue.thy ===== *)
theory Queue
  imports Prelude
begin

text \<open>
  The intrusive doubly linked lists of \<^verbatim>\<open>inc/queue.h\<close>. A list is its head pointer together with
  the \<^verbatim>\<open>LIST_ENTRY\<close> fields of every element; \<^verbatim>\<open>le_prev\<close> is a pointer to the pointer that refers
  to the element, so it is the address of the head, the address of some \<^verbatim>\<open>le_next\<close> field, or the
  null pointer of a cleared entry. Writing through a null \<^verbatim>\<open>le_prev\<close> is a page fault, the
  \<open>None\<close> result. The representation relation \<open>LIST_rep\<close> ties the pointers to the sequence of
  elements, and the locale \<open>intrusive_list\<close> is the contract the free lists of pages and of
  environments rely on.
\<close>

section \<open>Pointers and macros\<close>

datatype 'a prevptr = Head | NextOf 'a | NullPrev

record 'a qlist =
  lh_first :: "'a option"
  le_next :: "'a \<Rightarrow> 'a option"
  le_prev :: "'a \<Rightarrow> 'a prevptr"

definition set_next :: "'a \<Rightarrow> 'a option \<Rightarrow> 'a qlist \<Rightarrow> 'a qlist" where
  "set_next x p q = q\<lparr>le_next := (le_next q)(x := p)\<rparr>"

definition set_prev :: "'a \<Rightarrow> 'a prevptr \<Rightarrow> 'a qlist \<Rightarrow> 'a qlist" where
  "set_prev x p q = q\<lparr>le_prev := (le_prev q)(x := p)\<rparr>"

text \<open>\<^verbatim>\<open>*prev = p\<close>\<close>

fun store_prev :: "'a prevptr \<Rightarrow> 'a option \<Rightarrow> 'a qlist \<Rightarrow> 'a qlist option" where
  "store_prev Head p q = Some (q\<lparr>lh_first := p\<rparr>)"
| "store_prev (NextOf y) p q = Some (set_next y p q)"
| "store_prev NullPrev p q = None"

definition LIST_EMPTY :: "'a qlist \<Rightarrow> bool" where
  "LIST_EMPTY q = (lh_first q = None)"

definition LIST_FIRST :: "'a qlist \<Rightarrow> 'a option" where
  "LIST_FIRST q = lh_first q"

definition LIST_NEXT :: "'a \<Rightarrow> 'a qlist \<Rightarrow> 'a option" where
  "LIST_NEXT x q = le_next q x"

definition LIST_INIT :: "'a qlist \<Rightarrow> 'a qlist" where
  "LIST_INIT q = q\<lparr>lh_first := None\<rparr>"

definition LIST_INSERT_AFTER :: "'a \<Rightarrow> 'a \<Rightarrow> 'a qlist \<Rightarrow> 'a qlist" where
  "LIST_INSERT_AFTER l x q =
     (let q = set_next x (le_next q l) q;
          q = (case le_next q x of None \<Rightarrow> q
               | Some _ \<Rightarrow> (case le_next q l of None \<Rightarrow> q | Some y \<Rightarrow> set_prev y (NextOf x) q));
          q = set_next l (Some x) q
      in set_prev x (NextOf l) q)"

definition LIST_INSERT_BEFORE :: "'a \<Rightarrow> 'a \<Rightarrow> 'a qlist \<Rightarrow> 'a qlist option" where
  "LIST_INSERT_BEFORE l x q =
     (let q = set_prev x (le_prev q l) q;
          q = set_next x (Some l) q
      in case store_prev (le_prev q l) (Some x) q of None \<Rightarrow> None
         | Some q \<Rightarrow> Some (set_prev l (NextOf x) q))"

definition LIST_INSERT_HEAD :: "'a \<Rightarrow> 'a qlist \<Rightarrow> 'a qlist" where
  "LIST_INSERT_HEAD x q =
     (let q = set_next x (lh_first q) q;
          q = (case lh_first q of None \<Rightarrow> q | Some y \<Rightarrow> set_prev y (NextOf x) q);
          q = q\<lparr>lh_first := Some x\<rparr>
      in set_prev x Head q)"

definition LIST_REMOVE :: "'a \<Rightarrow> 'a qlist \<Rightarrow> 'a qlist option" where
  "LIST_REMOVE x q =
     (let q = (case le_next q x of None \<Rightarrow> q | Some y \<Rightarrow> set_prev y (le_prev q x) q)
      in store_prev (le_prev q x) (le_next q x) q)"

text \<open>\<^verbatim>\<open>memset\<close> of a structure that contains a \<^verbatim>\<open>LIST_ENTRY\<close>.\<close>

definition clear_link :: "'a \<Rightarrow> 'a qlist \<Rightarrow> 'a qlist" where
  "clear_link x q = set_prev x NullPrev (set_next x None q)"

text \<open>The elements a \<^verbatim>\<open>LIST_FOREACH\<close> loop visits; the loop need not end on a corrupt list.\<close>

partial_function (option) LIST_FOREACH :: "'a qlist \<Rightarrow> 'a option \<Rightarrow> 'a list option" where
  "LIST_FOREACH q var =
     (case var of None \<Rightarrow> Some []
      | Some x \<Rightarrow> Option.bind (LIST_FOREACH q (LIST_NEXT x q)) (\<lambda>xs. Some (x # xs)))"

section \<open>Representation\<close>

text \<open>
  \<open>lseg q pv p xs pv' p'\<close>: following \<open>le_next\<close> from \<open>p\<close> visits \<open>xs\<close> and arrives at \<open>p'\<close>; \<open>pv\<close> is the
  address of the pointer \<open>p\<close>, \<open>pv'\<close> the address of the pointer \<open>p'\<close>.
\<close>

fun lseg :: "'a qlist \<Rightarrow> 'a prevptr \<Rightarrow> 'a option \<Rightarrow> 'a list \<Rightarrow> 'a prevptr \<Rightarrow> 'a option \<Rightarrow> bool" where
  "lseg q pv p [] pv' p' = (pv' = pv \<and> p' = p)"
| "lseg q pv p (x # xs) pv' p' =
     (p = Some x \<and> le_prev q x = pv \<and> lseg q (NextOf x) (le_next q x) xs pv' p')"

definition LIST_rep :: "'a qlist \<Rightarrow> 'a list \<Rightarrow> bool" where
  "LIST_rep q xs = (distinct xs \<and> (\<exists>pv'. lseg q Head (lh_first q) xs pv' None))"

lemma link_updates [simp]:
  "le_next (set_next x p q) = (le_next q)(x := p)" "le_prev (set_next x p q) = le_prev q"
  "lh_first (set_next x p q) = lh_first q"
  "le_prev (set_prev x pv q) = (le_prev q)(x := pv)" "le_next (set_prev x pv q) = le_next q"
  "lh_first (set_prev x pv q) = lh_first q"
  by (simp_all add: set_next_def set_prev_def)

lemma lseg_append:
  "lseg q pv p (xs @ ys) pv' p' \<longleftrightarrow> (\<exists>pm m. lseg q pv p xs pm m \<and> lseg q pm m ys pv' p')"
  by (induction xs arbitrary: pv p) auto

lemma lseg_frame:
  assumes "\<And>y. y \<in> set xs \<Longrightarrow> le_next q' y = le_next q y"
    and "\<And>y. y \<in> set xs \<Longrightarrow> le_prev q' y = le_prev q y"
  shows "lseg q' pv p xs pv' p' \<longleftrightarrow> lseg q pv p xs pv' p'"
  using assms by (induction xs arbitrary: pv p) auto

text \<open>Writing through the address at the end of a segment that starts at the head.\<close>

lemma lseg_store_end:
  assumes "lseg q Head (lh_first q) xs pm m" and "distinct xs"
  obtains q' where "store_prev pm v q = Some q'" and "lseg q' Head (lh_first q') xs pm v"
    and "le_prev q' = le_prev q" and "\<And>y. y \<notin> set xs \<Longrightarrow> le_next q' y = le_next q y"
proof (cases xs rule: rev_cases)
  case Nil
  then show ?thesis
    using assms that [of "q\<lparr>lh_first := v\<rparr>"] by simp
next
  case (snoc ys y)
  have "lseg (set_next y v q) Head (lh_first q) ys pv' p' = lseg q Head (lh_first q) ys pv' p'" for pv' p'
    using assms(2) snoc by (intro lseg_frame) auto
  with assms snoc show ?thesis
    by (intro that [of "set_next y v q"]) (auto simp: lseg_append)
qed

text \<open>Redirecting the back pointer of the first element of a segment.\<close>

lemma lseg_set_first_prev:
  assumes "lseg q pv p xs pv' None" and "distinct xs"
  shows "\<exists>pv''. lseg (case p of None \<Rightarrow> q | Some y \<Rightarrow> set_prev y npv q) npv p xs pv'' None"
proof (cases xs)
  case (Cons x ys)
  have "lseg (set_prev x npv q) (NextOf x) r ys pv' None = lseg q (NextOf x) r ys pv' None" for r
    using assms(2) Cons by (intro lseg_frame) auto
  with assms Cons show ?thesis by auto
qed (use assms in auto)

section \<open>The operations on a well-formed list\<close>

lemma LIST_rep_distinct: "LIST_rep q xs \<Longrightarrow> distinct xs"
  by (simp add: LIST_rep_def)

lemma LIST_INIT_rep: "LIST_rep (LIST_INIT q) []"
  by (simp add: LIST_rep_def LIST_INIT_def)

lemma LIST_FIRST_rep: "LIST_rep q xs \<Longrightarrow> LIST_FIRST q = (case xs of [] \<Rightarrow> None | x # _ \<Rightarrow> Some x)"
  by (cases xs) (auto simp: LIST_rep_def LIST_FIRST_def)

lemma clear_link_rep: "LIST_rep q xs \<Longrightarrow> x \<notin> set xs \<Longrightarrow> LIST_rep (clear_link x q) xs"
  by (subst LIST_rep_def, subst lseg_frame [where q = q]) (auto simp: LIST_rep_def clear_link_def)

lemma LIST_INSERT_HEAD_rep:
  assumes "LIST_rep q xs" and "x \<notin> set xs"
  shows "LIST_rep (LIST_INSERT_HEAD x q) (x # xs)"
proof -
  let ?q = "case lh_first q of None \<Rightarrow> q | Some y \<Rightarrow> set_prev y (NextOf x) q"
  let ?r = "LIST_INSERT_HEAD x q"
  obtain pv'' where "lseg ?q (NextOf x) (lh_first q) xs pv'' None"
    using lseg_set_first_prev [of q Head "lh_first q" xs _ "NextOf x"] assms(1)
    by (auto simp: LIST_rep_def)
  moreover have "le_next ?r y = le_next ?q y" "le_prev ?r y = le_prev ?q y" if "y \<in> set xs" for y
    using that assms(2) by (auto simp: LIST_INSERT_HEAD_def Let_def split: option.splits)
  ultimately have "lseg ?r (NextOf x) (lh_first q) xs pv'' None"
    using lseg_frame [of xs ?r ?q] by simp
  moreover have "lh_first ?r = Some x" "le_prev ?r x = Head" "le_next ?r x = lh_first q"
    by (auto simp: LIST_INSERT_HEAD_def Let_def split: option.splits)
  ultimately show ?thesis
    using assms by (auto simp: LIST_rep_def)
qed

lemma LIST_REMOVE_rep:
  assumes "LIST_rep q xs" and "x \<in> set xs"
  obtains q' where "LIST_REMOVE x q = Some q'" and "LIST_rep q' (remove1 x xs)"
proof -
  obtain as bs where xs: "xs = as @ x # bs" and x: "x \<notin> set as"
    using split_list_first [OF assms(2)] by blast
  have d: "distinct as" "distinct bs" "x \<notin> set bs" "set as \<inter> set bs = {}"
    using assms(1) xs by (auto simp: LIST_rep_def)
  obtain pm pv' where as: "lseg q Head (lh_first q) as pm (Some x)" and px: "le_prev q x = pm"
    and bs: "lseg q (NextOf x) (le_next q x) bs pv' None"
    using assms(1) by (auto simp: LIST_rep_def xs lseg_append)
  let ?q = "case le_next q x of None \<Rightarrow> q | Some y \<Rightarrow> set_prev y pm q"
  have first: "\<And>y. le_next q x = Some y \<Longrightarrow> y \<in> set bs"
    using bs by (cases bs) auto
  have as1: "lseg ?q Head (lh_first ?q) as pm (Some x)"
    using lseg_frame [of as ?q q] as first d(4) by (fastforce split: option.splits)
  obtain pv'' where bs1: "lseg ?q pm (le_next q x) bs pv'' None"
    using lseg_set_first_prev [OF bs d(2), of pm] by blast
  obtain q' where q': "store_prev pm (le_next q x) ?q = Some q'"
    "lseg q' Head (lh_first q') as pm (le_next q x)" "le_prev q' = le_prev ?q"
    "\<And>y. y \<notin> set as \<Longrightarrow> le_next q' y = le_next ?q y"
    using lseg_store_end [OF as1 d(1)] by blast
  have "lseg q' pm (le_next q x) bs pv'' None"
    using lseg_frame [of bs q' ?q] q'(3,4) bs1 d(4) by fastforce
  with q'(2) have "LIST_rep q' (remove1 x xs)"
    using assms(1) x by (auto simp: LIST_rep_def xs lseg_append remove1_append)
  moreover have "LIST_REMOVE x q = Some q'"
    using q'(1) px first d(3) by (auto simp: LIST_REMOVE_def Let_def split: option.splits)
  ultimately show ?thesis
    using that by blast
qed

lemma LIST_INSERT_AFTER_rep:
  assumes "LIST_rep q (as @ l # bs)" and "x \<notin> set (as @ l # bs)"
  shows "LIST_rep (LIST_INSERT_AFTER l x q) (as @ l # x # bs)"
proof -
  let ?q = "case le_next q l of None \<Rightarrow> q | Some y \<Rightarrow> set_prev y (NextOf x) q"
  let ?r = "LIST_INSERT_AFTER l x q"
  obtain pm pv' where as: "lseg q Head (lh_first q) as pm (Some l)" and pl: "le_prev q l = pm"
    and bs: "lseg q (NextOf l) (le_next q l) bs pv' None"
    using assms(1) by (auto simp: LIST_rep_def lseg_append)
  have d: "distinct (as @ l # bs)"
    using assms(1) by (simp add: LIST_rep_def)
  have first: "\<And>y. le_next q l = Some y \<Longrightarrow> y \<in> set bs"
    using bs by (cases bs) auto
  obtain pv'' where "lseg ?q (NextOf x) (le_next q l) bs pv'' None"
    using lseg_set_first_prev [OF bs, of "NextOf x"] d by auto
  moreover have "le_next ?r y = le_next ?q y" "le_prev ?r y = le_prev ?q y" if "y \<in> set bs" for y
    using that assms(2) d by (auto simp: LIST_INSERT_AFTER_def Let_def split: option.splits)
  ultimately have "lseg ?r (NextOf x) (le_next q l) bs pv'' None"
    using lseg_frame [of bs ?r ?q] by simp
  moreover have "le_next ?r y = le_next q y" "le_prev ?r y = le_prev q y" if "y \<in> set as" for y
    using that assms(2) d first by (auto simp: LIST_INSERT_AFTER_def Let_def split: option.splits)
  then have "lseg ?r Head (lh_first q) as pm (Some l)"
    using lseg_frame [of as ?r q] as by simp
  moreover have "lh_first ?r = lh_first q" "le_next ?r l = Some x" "le_next ?r x = le_next q l"
    "le_prev ?r x = NextOf l" "le_prev ?r l = pm"
    using first assms(2) d pl by (auto simp: LIST_INSERT_AFTER_def Let_def split: option.splits)
  ultimately show ?thesis
    using assms d by (auto simp: LIST_rep_def lseg_append)
qed

lemma LIST_INSERT_BEFORE_rep:
  assumes "LIST_rep q (as @ l # bs)" and "x \<notin> set (as @ l # bs)"
  obtains q' where "LIST_INSERT_BEFORE l x q = Some q'" and "LIST_rep q' (as @ x # l # bs)"
proof -
  obtain pm pv' where as: "lseg q Head (lh_first q) as pm (Some l)" and pl: "le_prev q l = pm"
    and bs: "lseg q (NextOf l) (le_next q l) bs pv' None"
    using assms(1) by (auto simp: LIST_rep_def lseg_append)
  have d: "distinct (as @ l # bs)"
    using assms(1) by (simp add: LIST_rep_def)
  let ?q = "set_next x (Some l) (set_prev x pm q)"
  have as1: "lseg ?q Head (lh_first ?q) as pm (Some l)"
    using lseg_frame [of as ?q q] as assms(2) by fastforce
  obtain q1 where q1: "store_prev pm (Some x) ?q = Some q1" "lseg q1 Head (lh_first q1) as pm (Some x)"
    "le_prev q1 = le_prev ?q" "\<And>y. y \<notin> set as \<Longrightarrow> le_next q1 y = le_next ?q y"
    using lseg_store_end [OF as1, of "Some x"] d by (metis distinct_append)
  let ?r = "set_prev l (NextOf x) q1"
  have "lseg ?r Head (lh_first q1) as pm (Some x)"
    using lseg_frame [of as ?r q1] q1(2) d by fastforce
  moreover have "le_next ?r y = le_next q y" "le_prev ?r y = le_prev q y" if "y \<in> set bs" for y
    using that assms(2) d q1(3) q1(4) [of y] by fastforce+
  then have "lseg ?r (NextOf l) (le_next q l) bs pv' None"
    using lseg_frame [of bs ?r q] bs by simp
  moreover have "le_next ?r l = le_next q l" "le_next ?r x = Some l" "le_prev ?r x = pm"
    using q1(3,4) assms(2) d by auto
  ultimately have "LIST_rep ?r (as @ x # l # bs)"
    using assms(2) d by (auto simp: LIST_rep_def lseg_append)
  moreover have "LIST_INSERT_BEFORE l x q = Some ?r"
    using q1(1) pl assms(2) by (auto simp: LIST_INSERT_BEFORE_def Let_def)
  ultimately show ?thesis
    using that by blast
qed

lemma LIST_FOREACH_lseg: "lseg q pv p xs pv' None \<Longrightarrow> LIST_FOREACH q p = Some xs"
  by (induction xs arbitrary: pv p) (auto simp: LIST_FOREACH.simps LIST_NEXT_def)

section \<open>The list contract\<close>

text \<open>
  What the clients of a list use: the representation as a sequence, initialisation, the first
  element, insertion at the head and removal of a member from anywhere.
\<close>

locale intrusive_list =
  fixes rep :: "'q \<Rightarrow> 'a list \<Rightarrow> bool"
    and init :: "'q \<Rightarrow> 'q"
    and first :: "'q \<Rightarrow> 'a option"
    and insert_head :: "'a \<Rightarrow> 'q \<Rightarrow> 'q"
    and remove :: "'a \<Rightarrow> 'q \<Rightarrow> 'q option"
  assumes rep_distinct: "rep q xs \<Longrightarrow> distinct xs"
    and rep_init: "rep (init q) []"
    and rep_first: "rep q xs \<Longrightarrow> first q = (case xs of [] \<Rightarrow> None | x # _ \<Rightarrow> Some x)"
    and rep_insert: "rep q xs \<Longrightarrow> x \<notin> set xs \<Longrightarrow> rep (insert_head x q) (x # xs)"
    and rep_remove: "rep q xs \<Longrightarrow> x \<in> set xs \<Longrightarrow> \<exists>q'. remove x q = Some q' \<and> rep q' (remove1 x xs)"
begin

text \<open>Freeing a sequence of elements one after the other builds the reversed list.\<close>

lemma fold_insert_rep:
  assumes "rep q xs" and "distinct ys" and "set ys \<inter> set xs = {}"
  shows "rep (fold insert_head ys q) (rev ys @ xs)"
  using assms
proof (induction ys arbitrary: q xs)
  case (Cons y ys)
  then show ?case
    using Cons.IH [of "insert_head y q" "y # xs"] rep_insert by auto
qed simp

lemma fold_insert_init:
  "distinct ys \<Longrightarrow> rep (fold insert_head ys (init q)) (rev ys)"
  using fold_insert_rep [OF rep_init] by simp

text \<open>Taking the first element of a non-empty list.\<close>

lemma take_first:
  assumes "rep q (x # xs)"
  shows "first q = Some x \<and> (\<exists>q'. remove x q = Some q' \<and> rep q' xs)"
  using rep_first [OF assms] rep_remove [OF assms, of x] by simp

lemma rep_functional: "rep q xs \<Longrightarrow> rep q ys \<Longrightarrow> xs = ys"
proof (induction xs arbitrary: q ys)
  case Nil
  then show ?case
    using rep_first [of q "[]"] rep_first [of q ys] by (cases ys) auto
next
  case (Cons x xs)
  then obtain ys' where ys: "ys = x # ys'"
    using rep_first [of q "x # xs"] rep_first [of q ys] by (cases ys) auto
  then show ?case
    using Cons.IH take_first [OF Cons.prems(1)] take_first [of q x ys'] Cons.prems(2) by fastforce
qed

end

interpretation ll: intrusive_list LIST_rep LIST_INIT LIST_FIRST LIST_INSERT_HEAD LIST_REMOVE
  by unfold_locales
    (auto intro: LIST_rep_distinct LIST_INIT_rep LIST_INSERT_HEAD_rep LIST_FIRST_rep
      elim: LIST_REMOVE_rep)

section \<open>Properties\<close>

text \<open>
  C11. On a well-formed list the macros act on the represented sequence as documented:
  \<^verbatim>\<open>LIST_INSERT_HEAD\<close> prepends, \<^verbatim>\<open>LIST_INSERT_AFTER\<close> and \<^verbatim>\<open>LIST_INSERT_BEFORE\<close> insert next to a
  member, \<^verbatim>\<open>LIST_REMOVE\<close> removes exactly the given member without traversing the list and without
  writing through a null pointer, and a \<^verbatim>\<open>LIST_FOREACH\<close> loop ends after visiting every element in
  order.
\<close>

theorem list_macros_correct:
  assumes "LIST_rep q (as @ l # bs)" and "x \<notin> set (as @ l # bs)"
  shows "LIST_rep (LIST_INSERT_HEAD x q) (x # as @ l # bs)
    \<and> LIST_rep (LIST_INSERT_AFTER l x q) (as @ l # x # bs)
    \<and> (\<exists>q'. LIST_INSERT_BEFORE l x q = Some q' \<and> LIST_rep q' (as @ x # l # bs))
    \<and> (\<exists>q'. LIST_REMOVE l q = Some q' \<and> LIST_rep q' (as @ bs))
    \<and> LIST_FOREACH q (LIST_FIRST q) = Some (as @ l # bs)"
proof (intro conjI)
  show "\<exists>q'. LIST_REMOVE l q = Some q' \<and> LIST_rep q' (as @ bs)"
    using ll.rep_remove [OF assms(1), of l] ll.rep_distinct [OF assms(1)]
    by (auto simp: remove1_append)
  show "LIST_FOREACH q (LIST_FIRST q) = Some (as @ l # bs)"
    using assms(1) LIST_FOREACH_lseg by (fastforce simp: LIST_rep_def LIST_FIRST_def)
qed (use assms in \<open>auto intro: LIST_INSERT_HEAD_rep LIST_INSERT_AFTER_rep elim: LIST_INSERT_BEFORE_rep\<close>)

theorem list_macros_correct_witness:
  "let q = fold LIST_INSERT_HEAD [3, 2, 1] \<lparr>lh_first = None, le_next = \<lambda>_. None, le_prev = \<lambda>_. NullPrev\<rparr>
   in LIST_rep q [1, 2, 3 :: nat] \<and> (\<exists>q'. LIST_REMOVE 2 q = Some q' \<and> LIST_rep q' [1, 3])"
proof -
  let ?q = "fold LIST_INSERT_HEAD [3, 2, 1 :: nat] \<lparr>lh_first = None, le_next = \<lambda>_. None, le_prev = \<lambda>_. NullPrev\<rparr>"
  have "LIST_rep ?q ([1] @ 2 # [3])"
    using ll.fold_insert_rep [of _ "[]" "[3, 2, 1 :: nat]"] by (simp add: LIST_rep_def)
  then show ?thesis
    using list_macros_correct [of ?q "[1]" 2 "[3]" 9] by (simp del: fold.simps)
qed

end
