(* ===== verification/Fifo.thy ===== *)
theory Fifo
  imports Main
begin

text \<open>
  The interface of a bounded first-in first-out buffer, as the console's input ring provides
  it: the elements waiting in the buffer are a list, \<open>put\<close> appends to it while there is room and \<open>get\<close> takes its head.
\<close>

locale fifo =
  fixes inv :: "'s \<Rightarrow> bool"
    and content :: "'s \<Rightarrow> 'a list"
    and room :: nat
    and ok :: "'a \<Rightarrow> bool"
    and put :: "'a \<Rightarrow> 's \<Rightarrow> 's"
    and get :: "'s \<Rightarrow> ('a \<times> 's) option"
  assumes put_inv: "\<And>s x. inv s \<Longrightarrow> inv (put x s)"
    and put_content: "\<And>s x. inv s \<Longrightarrow> ok x \<Longrightarrow> length (content s) < room \<Longrightarrow> content (put x s) = content s @ [x]"
    and get_None: "\<And>s. inv s \<Longrightarrow> get s = None \<longleftrightarrow> content s = []"
    and get_inv: "\<And>s x s'. inv s \<Longrightarrow> get s = Some (x, s') \<Longrightarrow> inv s'"
    and get_content: "\<And>s x s'. inv s \<Longrightarrow> get s = Some (x, s') \<Longrightarrow> content s = x # content s'"
begin

lemma put_all_inv: "inv s \<Longrightarrow> inv (fold put xs s)"
  by (induction xs arbitrary: s) (simp_all add: put_inv)

lemma put_all:
  assumes "inv s" and "\<forall>x \<in> set xs. ok x" and "length (content s) + length xs \<le> room"
  shows "content (fold put xs s) = content s @ xs"
  using assms by (induction xs arbitrary: s) (simp_all add: put_inv put_content)

fun get_all :: "nat \<Rightarrow> 's \<Rightarrow> 'a list \<times> 's" where
  "get_all 0 s = ([], s)"
| "get_all (Suc n) s =
     (case get s of None \<Rightarrow> ([], s) | Some (x, s) \<Rightarrow> let (xs, s) = get_all n s in (x # xs, s))"

lemma get_all:
  assumes "inv s"
  shows "fst (get_all n s) = take n (content s)" and "content (snd (get_all n s)) = drop n (content s)"
    and "inv (snd (get_all n s))"
proof -
  have "fst (get_all n s) = take n (content s) \<and> content (snd (get_all n s)) = drop n (content s)
      \<and> inv (snd (get_all n s))"
    using assms
  proof (induction n arbitrary: s)
    case (Suc n)
    show ?case
    proof (cases "get s")
      case None
      then have "content s = []"
        by (simp add: get_None [OF Suc.prems, symmetric])
      with None Suc.prems show ?thesis
        by simp
    next
      case (Some r)
      then obtain x s' where r: "get s = Some (x, s')"
        by (cases r) auto
      show ?thesis
        using Suc.IH [OF get_inv [OF Suc.prems r]] get_content [OF Suc.prems r] r
        by (simp add: case_prod_unfold Let_def)
    qed
  qed simp
  then show "fst (get_all n s) = take n (content s)" "content (snd (get_all n s)) = drop n (content s)"
    "inv (snd (get_all n s))"
    by simp_all
qed

text \<open>What is written and fits is read back in the order of the writes.\<close>

lemma put_get_all:
  assumes "inv s" and "content s = []" and "\<forall>x \<in> set xs. ok x" and "length xs \<le> room"
  shows "fst (get_all (length xs) (fold put xs s)) = xs"
  using assms by (simp add: get_all(1) put_all_inv put_all)

end

end
