(* ===== verification/Console.thy ===== *)
theory Console
  imports Prelude Fifo
begin

text \<open>
  The console driver, \<^verbatim>\<open>kern/console.c\<close>: the text display, the keyboard decoder and the ring buffer of
  input characters. A device that delivers input is the list of bytes its data port will yield; an empty list is
  the status "no data". The display is the memory of the text-mode adapter with the cursor.
\<close>

section \<open>The display\<close>

definition CRT_ROWS :: u32 where [const_defs]: "CRT_ROWS = 25"
definition CRT_COLS :: u32 where [const_defs]: "CRT_COLS = 80"
definition CRT_SIZE :: u32 where [const_defs]: "CRT_SIZE = CRT_ROWS * CRT_COLS"

record crt =
  crt_buf :: "u16 list"
  crt_pos :: u16

text \<open>The scroll at the end of \<^verbatim>\<open>cga_putc\<close>: the text moves up by one line and the last line is blanked.\<close>

definition crt_scroll :: "crt \<Rightarrow> crt" where
  "crt_scroll d =
     (if unat (crt_pos d) \<ge> unat CRT_SIZE then
        let n = unat CRT_SIZE - unat CRT_COLS;
            moved = take n (drop (unat CRT_COLS) (crt_buf d)) @ drop n (crt_buf d);
            blanked = take n moved @ replicate (unat CRT_COLS) (0x0700 OR 0x20) @ drop (unat CRT_SIZE) moved
        in d\<lparr>crt_buf := blanked, crt_pos := crt_pos d - ucast CRT_COLS\<rparr>
      else d)"

text \<open>The attribute that \<^verbatim>\<open>cga_putc\<close> adds to a plain character.\<close>

definition crt_attr :: "u32 \<Rightarrow> u32" where
  "crt_attr c = (if c AND NOT 0xFF = 0 then c OR 0x0700 else c)"

text \<open>Every case of \<^verbatim>\<open>cga_putc\<close> except the tab, before the scroll.\<close>

definition cga_put1 :: "u32 \<Rightarrow> crt \<Rightarrow> crt" where
  "cga_put1 c d =
     (if c AND 0xFF = 0x08 then
        if crt_pos d > 0 then
          let pos = crt_pos d - 1
          in d\<lparr>crt_pos := pos, crt_buf := (crt_buf d)[unat pos := ucast (c AND NOT 0xFF OR 0x20)]\<rparr>
        else d
      else if c AND 0xFF = 0x0A then
        let pos = crt_pos d + ucast CRT_COLS in d\<lparr>crt_pos := pos - pos mod ucast CRT_COLS\<rparr>
      else if c AND 0xFF = 0x0D then d\<lparr>crt_pos := crt_pos d - crt_pos d mod ucast CRT_COLS\<rparr>
      else d\<lparr>crt_buf := (crt_buf d)[unat (crt_pos d) := ucast c], crt_pos := crt_pos d + 1\<rparr>)"

definition cga_putc :: "u32 \<Rightarrow> crt \<Rightarrow> crt" where
  "cga_putc c d =
     (let c = crt_attr c
      in if c AND 0xFF = 0x09
         then let space = (\<lambda>d. crt_scroll (cga_put1 (crt_attr 0x20) d))
              in crt_scroll (space (space (space (space (space d)))))
         else crt_scroll (cga_put1 c d))"

section \<open>The keyboard\<close>

definition SHIFT :: u32 where [const_defs]: "SHIFT = 1"
definition CTL :: u32 where [const_defs]: "CTL = 2"
definition ALT :: u32 where [const_defs]: "ALT = 4"
definition CAPSLOCK :: u32 where [const_defs]: "CAPSLOCK = 8"
definition NUMLOCK :: u32 where [const_defs]: "NUMLOCK = 16"
definition SCROLLLOCK :: u32 where [const_defs]: "SCROLLLOCK = 32"
definition E0ESC :: u32 where [const_defs]: "E0ESC = 64"

definition KEY_HOME :: u8 where [const_defs]: "KEY_HOME = 0xE0"
definition KEY_END :: u8 where [const_defs]: "KEY_END = 0xE1"
definition KEY_UP :: u8 where [const_defs]: "KEY_UP = 0xE2"
definition KEY_DN :: u8 where [const_defs]: "KEY_DN = 0xE3"
definition KEY_LF :: u8 where [const_defs]: "KEY_LF = 0xE4"
definition KEY_RT :: u8 where [const_defs]: "KEY_RT = 0xE5"
definition KEY_PGUP :: u8 where [const_defs]: "KEY_PGUP = 0xE6"
definition KEY_PGDN :: u8 where [const_defs]: "KEY_PGDN = 0xE7"
definition KEY_INS :: u8 where [const_defs]: "KEY_INS = 0xE8"
definition KEY_DEL :: u8 where [const_defs]: "KEY_DEL = 0xE9"

text \<open>An array with designated initialisers; all other elements are 0.\<close>

definition designated :: "(nat \<times> 'a) list \<Rightarrow> nat \<Rightarrow> 'a :: zero" where
  "designated xs i = (case map_of (rev xs) i of None \<Rightarrow> 0 | Some v \<Rightarrow> v)"

definition byte_of :: "char \<Rightarrow> u8" where
  "byte_of c = of_nat (of_char c)"

definition shiftcode :: "u8 \<Rightarrow> u32" where
  "shiftcode d = designated [(0x1D, CTL), (0x2A, SHIFT), (0x36, SHIFT), (0x38, ALT), (0x9D, CTL), (0xB8, ALT)] (unat d)"

definition togglecode :: "u8 \<Rightarrow> u32" where
  "togglecode d = designated [(0x3A, CAPSLOCK), (0x45, NUMLOCK), (0x46, SCROLLLOCK)] (unat d)"

text \<open>The positional part of a key map: \<open>0\<close> stands for \<^verbatim>\<open>NO\<close>.\<close>

definition special_keys :: "(nat \<times> u8) list" where
  "special_keys = [(0xC7, KEY_HOME), (0x9C, 0x0A), (0xB5, 0x2F), (0xC8, KEY_UP), (0xC9, KEY_PGUP), (0xCB, KEY_LF),
     (0xCD, KEY_RT), (0xCF, KEY_END), (0xD0, KEY_DN), (0xD1, KEY_PGDN), (0xD2, KEY_INS), (0xD3, KEY_DEL)]"

definition normalmap :: "u8 \<Rightarrow> u8" where
  "normalmap d = designated (enumerate 0
     ([0, 0x1B] @ map byte_of ''1234567890-='' @ [0x08, 0x09] @ map byte_of ''qwertyuiop[]'' @ [0x0A, 0]
      @ map byte_of ''asdfghjkl;'' @ [0x27, 0x60, 0, 0x5C] @ map byte_of ''zxcvbnm,./'' @ [0, 0x2A, 0, 0x20]
      @ replicate 13 0 @ map byte_of ''789-456+1230.'' @ replicate 4 0) @ special_keys) (unat d)"

definition shiftmap :: "u8 \<Rightarrow> u8" where
  "shiftmap d = designated (enumerate 0
     ([0, 0x1B] @ map byte_of ''!@#$%^&*()_+'' @ [0x08, 0x09] @ map byte_of ''QWERTYUIOP{}'' @ [0x0A, 0]
      @ map byte_of ''ASDFGHJKL:'' @ [0x22, 0x7E, 0, 0x7C] @ map byte_of ''ZXCVBNM<>?'' @ [0, 0x2A, 0, 0x20]
      @ replicate 13 0 @ map byte_of ''789-456+1230.'' @ replicate 4 0) @ special_keys) (unat d)"

text \<open>\<^verbatim>\<open>C(x)\<close>, the control character of a letter.\<close>

definition ctl_of :: "char \<Rightarrow> u8" where
  "ctl_of c = byte_of c - 0x40"

definition ctlmap :: "u8 \<Rightarrow> u8" where
  "ctlmap d = designated (enumerate 0
     (replicate 16 0 @ map ctl_of ''QWERTYUIOP'' @ [0, 0, 0x0D, 0] @ map ctl_of ''ASDFGHJKL'' @ [0, 0, 0, 0, 0x5C - 0x40]
      @ map ctl_of ''ZXCVBNM'' @ [0, 0, 0x2F - 0x40, 0, 0])
     @ [(0x97, KEY_HOME), (0xB5, 0x2F - 0x40), (0xC8, KEY_UP), (0xC9, KEY_PGUP), (0xCB, KEY_LF), (0xCD, KEY_RT),
        (0xCF, KEY_END), (0xD0, KEY_DN), (0xD1, KEY_PGDN), (0xD2, KEY_INS), (0xD3, KEY_DEL)]) (unat d)"

definition charcode :: "u32 \<Rightarrow> u8 \<Rightarrow> u8" where
  "charcode k d = (if k = 0 then normalmap d else if k = 1 then shiftmap d else ctlmap d)"

text \<open>The letter case flip under caps lock.\<close>

definition flip_case :: "u8 \<Rightarrow> u8" where
  "flip_case c = (if 0x61 \<le> c \<and> c \<le> 0x7A then c - 0x20 else if 0x41 \<le> c \<and> c \<le> 0x5A then c + 0x20 else c)"

text \<open>
  \<^verbatim>\<open>kbd_proc_data\<close> for one byte of data: the new modifier state, the returned character and whether the key
  combination resets the machine. Without data the function returns -1, which is the end of the list below.
\<close>

definition kbd_proc_data :: "u8 \<Rightarrow> u32 \<Rightarrow> u32 \<times> u8 \<times> bool" where
  "kbd_proc_data data shift =
     (if data = 0xE0 then (shift OR E0ESC, 0, False)
      else if data AND 0x80 \<noteq> 0 then
        let data = (if shift AND E0ESC \<noteq> 0 then data else data AND 0x7F)
        in (shift AND NOT (shiftcode data OR E0ESC), 0, False)
      else
        let (data, shift) = (if shift AND E0ESC \<noteq> 0 then (data OR 0x80, shift AND NOT E0ESC) else (data, shift));
            shift = shift OR shiftcode data;
            shift = shift XOR togglecode data;
            c = charcode (shift AND (CTL OR SHIFT)) data;
            c = (if shift AND CAPSLOCK \<noteq> 0 then flip_case c else c)
        in (shift, c, NOT shift AND (CTL OR ALT) = 0 \<and> c = KEY_DEL))"

section \<open>The input buffer\<close>

definition CONSBUFSIZE :: nat where [const_defs]: "CONSBUFSIZE = 512"

record console =
  cons_buf :: "u8 list"
  rpos :: nat
  wpos :: nat
  kbd_shift :: u32
  serial_exists :: bool

text \<open>The body of the loop of \<^verbatim>\<open>cons_intr\<close> for one value returned by the device routine.\<close>

definition cons_put :: "u8 \<Rightarrow> console \<Rightarrow> console" where
  "cons_put c k =
     (if c = 0 then k
      else let k = k\<lparr>cons_buf := (cons_buf k)[wpos k := c], wpos := wpos k + 1\<rparr>
           in if wpos k = CONSBUFSIZE then k\<lparr>wpos := 0\<rparr> else k)"

text \<open>\<^verbatim>\<open>serial_intr\<close> and \<^verbatim>\<open>kbd_intr\<close>: the device routines passed to \<^verbatim>\<open>cons_intr\<close>, run until they report no data.\<close>

definition serial_intr :: "u8 list \<Rightarrow> console \<Rightarrow> console" where
  "serial_intr input k = (if serial_exists k then fold cons_put input k else k)"

fun kbd_intr :: "u8 list \<Rightarrow> console \<Rightarrow> bool \<times> console" where
  "kbd_intr [] k = (False, k)"
| "kbd_intr (d # ds) k =
     (let (shift, c, reset) = kbd_proc_data d (kbd_shift k);
          (reset', k) = kbd_intr ds (cons_put c (k\<lparr>kbd_shift := shift\<rparr>))
      in (reset \<or> reset', k))"

text \<open>
  \<^verbatim>\<open>cons_getc\<close>: the returned character, with 0 for none, and whether a reset was requested; first the part that
  takes a character out of the buffer.
\<close>

definition cons_take :: "console \<Rightarrow> (u8 \<times> console) option" where
  "cons_take k =
     (if rpos k \<noteq> wpos k then
        let c = cons_buf k ! rpos k;
            k = k\<lparr>rpos := rpos k + 1\<rparr>
        in Some (c, if rpos k = CONSBUFSIZE then k\<lparr>rpos := 0\<rparr> else k)
      else None)"

definition cons_getc :: "u8 list \<Rightarrow> u8 list \<Rightarrow> console \<Rightarrow> u8 \<times> bool \<times> console" where
  "cons_getc serial kbd k =
     (let k = serial_intr serial k;
          (reset, k) = kbd_intr kbd k
      in case cons_take k of Some (c, k) \<Rightarrow> (c, reset, k) | None \<Rightarrow> (0, reset, k))"

section \<open>The display stays on the screen\<close>

definition crt_ok :: "crt \<Rightarrow> bool" where
  "crt_ok d \<longleftrightarrow> length (crt_buf d) = unat CRT_SIZE \<and> unat (crt_pos d) < unat CRT_SIZE"

lemma crt_consts [simp]: "unat CRT_SIZE = 2000" "unat CRT_COLS = 80" "(ucast CRT_COLS :: u16) = 80"
  by (simp_all add: const_defs)

lemma unat_u16_plus: "unat (w :: u16) + n < 65536 \<Longrightarrow> unat (w + of_nat n) = unat w + n"
  by (simp add: unat_word_ariths unat_of_nat)

lemma crt_scroll_ok:
  assumes "length (crt_buf d) = 2000" and "unat (crt_pos d) < 2080"
  shows "crt_ok (crt_scroll d)"
proof (cases "2000 \<le> unat (crt_pos d)")
  case True
  then have "80 \<le> crt_pos d"
    by (simp add: word_le_nat_alt)
  then have "unat (crt_pos d - 80) = unat (crt_pos d) - 80"
    by (simp add: unat_sub)
  then show ?thesis
    using assms True by (simp add: crt_scroll_def crt_ok_def Let_def)
next
  case False
  then show ?thesis
    using assms by (simp add: crt_scroll_def crt_ok_def)
qed

lemma cga_put1_bounds:
  assumes "crt_ok d"
  shows "length (crt_buf (cga_put1 c d)) = 2000" and "unat (crt_pos (cga_put1 c d)) < 2080"
proof -
  have d: "length (crt_buf d) = 2000" "unat (crt_pos d) < 2000"
    using assms by (simp_all add: crt_ok_def)
  then show "length (crt_buf (cga_put1 c d)) = 2000"
    by (simp add: cga_put1_def Let_def)
  have dec: "unat (crt_pos d - 1) < 2080" if "0 < crt_pos d"
    using that d(2) unat_minus_one [of "crt_pos d"] by (simp add: word_gt_0)
  have nl: "unat (crt_pos d + 80) = unat (crt_pos d) + 80"
    using unat_u16_plus [of "crt_pos d" 80] d(2) by simp
  have inc: "unat (crt_pos d + 1) = unat (crt_pos d) + 1"
    using unat_u16_plus [of "crt_pos d" 1] d(2) by simp
  have col: "unat (w - w mod 80) \<le> unat w" for w :: u16
    by (simp add: unat_sub unat_mod word_le_nat_alt)
  show "unat (crt_pos (cga_put1 c d)) < 2080"
    using dec d(2) inc le_less_trans [OF col [of "crt_pos d"], of 2080]
      le_less_trans [OF col [of "crt_pos d + 80"], of 2080]
    by (simp add: cga_put1_def Let_def nl)
qed

lemma cga_put1_scroll_ok: "crt_ok d \<Longrightarrow> crt_ok (crt_scroll (cga_put1 c d))"
  by (intro crt_scroll_ok cga_put1_bounds)

lemma crt_scroll_idle: "crt_ok d \<Longrightarrow> crt_scroll d = d"
  by (simp add: crt_ok_def crt_scroll_def)

section \<open>The input ring is a queue\<close>

definition cons_inv :: "console \<Rightarrow> bool" where
  "cons_inv k \<longleftrightarrow> length (cons_buf k) = CONSBUFSIZE \<and> rpos k < CONSBUFSIZE \<and> wpos k < CONSBUFSIZE"

text \<open>The characters waiting to be read, oldest first.\<close>

definition pending :: "console \<Rightarrow> u8 list" where
  "pending k =
     (if rpos k \<le> wpos k then take (wpos k - rpos k) (drop (rpos k) (cons_buf k))
      else drop (rpos k) (cons_buf k) @ take (wpos k) (cons_buf k))"

lemma length_pending:
  "cons_inv k \<Longrightarrow> length (pending k) = (if rpos k \<le> wpos k then wpos k - rpos k else CONSBUFSIZE - rpos k + wpos k)"
  by (auto simp: pending_def cons_inv_def)

lemma take_list_update_snoc: "n < length xs \<Longrightarrow> take (Suc n) (xs[n := x]) = take n xs @ [x]"
  by (simp add: take_Suc_conv_app_nth)

lemma cons_put_inv: "cons_inv k \<Longrightarrow> cons_inv (cons_put c k)"
  by (auto simp: cons_inv_def cons_put_def Let_def)

lemma cons_put_zero [simp]: "cons_put 0 k = k"
  by (simp add: cons_put_def)

lemma cons_put_pending:
  assumes inv: "cons_inv k" and c: "c \<noteq> 0" and room: "length (pending k) < CONSBUFSIZE - 1"
  shows "pending (cons_put c k) = pending k @ [c]"
proof (cases "rpos k \<le> wpos k")
  case True
  have w: "wpos k - rpos k < length (drop (rpos k) (cons_buf k))" "wpos k < CONSBUFSIZE" "rpos k \<le> wpos k"
    using inv True by (auto simp: cons_inv_def)
  have buf: "drop (rpos k) ((cons_buf k)[wpos k := c]) = (drop (rpos k) (cons_buf k))[wpos k - rpos k := c]"
    using True by (simp add: drop_update_swap)
  note new = take_list_update_snoc [OF w(1), of c]
  show ?thesis
  proof (cases "wpos k + 1 = CONSBUFSIZE")
    case wrap: True
    then have "0 < rpos k"
      using room inv True by (simp add: length_pending split: if_splits)
    moreover have "Suc (wpos k - rpos k) = length (drop (rpos k) (cons_buf k))"
      using wrap inv True by (auto simp: cons_inv_def)
    then have "drop (rpos k) ((cons_buf k)[wpos k := c]) = take (Suc (wpos k - rpos k)) ((drop (rpos k) (cons_buf k))[wpos k - rpos k := c])"
      unfolding buf by simp
    ultimately show ?thesis
      using c wrap True new by (simp add: cons_put_def pending_def Let_def)
  next
    case False
    then show ?thesis
      using c w new buf by (simp add: cons_put_def pending_def Let_def Suc_diff_le)
  qed
next
  case False
  then have "wpos k + 1 < rpos k"
    using inv room by (auto simp: length_pending cons_inv_def)
  then show ?thesis
    using c inv False take_list_update_snoc [of "wpos k" "cons_buf k" c]
    by (auto simp: cons_put_def pending_def cons_inv_def Let_def)
qed

lemma cons_take_None: "cons_inv k \<Longrightarrow> cons_take k = None \<longleftrightarrow> pending k = []"
  by (auto simp: cons_take_def cons_inv_def pending_def Let_def)

lemma cons_take_inv: "cons_inv k \<Longrightarrow> cons_take k = Some (c, k') \<Longrightarrow> cons_inv k'"
  by (auto simp: cons_take_def cons_inv_def Let_def split: if_splits)

lemma cons_take_pending:
  assumes inv: "cons_inv k" and take: "cons_take k = Some (c, k')"
  shows "pending k = c # pending k'"
proof -
  have r: "rpos k < length (cons_buf k)" "wpos k < length (cons_buf k)"
    using inv by (simp_all add: cons_inv_def)
  have c: "rpos k \<noteq> wpos k" "c = cons_buf k ! rpos k"
    "k' = (if rpos k + 1 = CONSBUFSIZE then k\<lparr>rpos := 0\<rparr> else k\<lparr>rpos := rpos k + 1\<rparr>)"
    using take by (auto simp: cons_take_def Let_def split: if_splits)
  have split: "drop (rpos k) (cons_buf k) = c # drop (Suc (rpos k)) (cons_buf k)"
    using r c(2) by (simp add: Cons_nth_drop_Suc)
  show ?thesis
  proof (cases "rpos k \<le> wpos k")
    case True
    then have "wpos k - rpos k = Suc (wpos k - Suc (rpos k))" "Suc (rpos k) \<le> wpos k" "Suc (rpos k) \<noteq> CONSBUFSIZE"
      using c(1) inv by (auto simp: cons_inv_def)
    then show ?thesis
      using True split c(3) by (simp add: pending_def)
  next
    case False
    then show ?thesis
      using split c(3) r inv by (auto simp: pending_def cons_inv_def)
  qed
qed

interpretation cons_ring: fifo cons_inv pending "CONSBUFSIZE - 1" "\<lambda>c. c \<noteq> 0" cons_put cons_take
  by unfold_locales (auto simp: cons_put_inv cons_put_pending cons_take_None cons_take_inv cons_take_pending)

lemma cons_put_all: "fold cons_put cs k = fold cons_put (filter (\<lambda>c. c \<noteq> 0) cs) k"
  by (induction cs arbitrary: k) simp_all

text \<open>The characters that a sequence of keyboard bytes stands for, and the modifier state it leaves.\<close>

fun kbd_decode :: "u8 list \<Rightarrow> u32 \<Rightarrow> u8 list" where
  "kbd_decode [] shift = []"
| "kbd_decode (d # ds) shift = (case kbd_proc_data d shift of (shift, c, _) \<Rightarrow> c # kbd_decode ds shift)"

lemma cons_put_shift: "(cons_put c k)\<lparr>kbd_shift := h\<rparr> = cons_put c (k\<lparr>kbd_shift := h\<rparr>)"
  "kbd_shift (cons_put c k) = kbd_shift k"
  by (simp_all add: cons_put_def Let_def)

lemma kbd_shift_frame [simp]: "cons_inv (k\<lparr>kbd_shift := h\<rparr>) = cons_inv k" "pending (k\<lparr>kbd_shift := h\<rparr>) = pending k"
  by (simp_all add: cons_inv_def pending_def)

lemma kbd_intr_fold:
  "\<exists>h. snd (kbd_intr ds k) = (fold cons_put (kbd_decode ds (kbd_shift k)) k)\<lparr>kbd_shift := h\<rparr>"
proof (induction ds arbitrary: k)
  case Nil
  have "k = k\<lparr>kbd_shift := kbd_shift k\<rparr>"
    by simp
  then show ?case
    by (metis fold_simps(1) kbd_decode.simps(1) kbd_intr.simps(1) snd_conv)
next
  case (Cons d ds)
  obtain h c r where p: "kbd_proc_data d (kbd_shift k) = (h, c, r)"
    by (cases "kbd_proc_data d (kbd_shift k)") auto
  have "fold cons_put cs (k\<lparr>kbd_shift := h\<rparr>) = (fold cons_put cs k)\<lparr>kbd_shift := h\<rparr>" for cs k
    by (induction cs arbitrary: k) (simp_all add: cons_put_shift(1) [symmetric])
  then show ?case
    using Cons.IH [of "cons_put c (k\<lparr>kbd_shift := h\<rparr>)"] p
    by (auto simp: case_prod_unfold Let_def cons_put_shift(2) cons_put_shift(1) [symmetric])
qed

lemma kbd_shift_put_all: "kbd_shift (fold cons_put cs k) = kbd_shift k"
  by (induction cs arbitrary: k) (simp_all add: cons_put_shift(2))

lemma serial_exists_shift: "kbd_shift (serial_intr input k) = kbd_shift k"
  by (simp add: serial_intr_def kbd_shift_put_all)

lemma serial_intr_inv: "cons_inv k \<Longrightarrow> cons_inv (serial_intr input k)"
  by (simp add: serial_intr_def cons_ring.put_all_inv)

lemma kbd_intr_inv: "cons_inv k \<Longrightarrow> cons_inv (snd (kbd_intr ds k))"
  using kbd_intr_fold [of ds k] by (auto simp: cons_ring.put_all_inv)

lemma cons_getc_inv: "cons_inv k \<Longrightarrow> cons_inv (snd (snd (cons_getc serial kbd k)))"
  using kbd_intr_inv [OF serial_intr_inv, of k kbd serial] cons_take_inv
  by (auto simp: cons_getc_def case_prod_unfold Let_def split: option.splits)

section \<open>Properties\<close>

definition printable :: "u8 \<Rightarrow> bool" where
  "printable c \<longleftrightarrow> c \<notin> {0x08, 0x09, 0x0A, 0x0D}"

lemma crt_attr_low: "crt_attr (ucast (c :: u8)) AND 0xFF = ucast c"
  "(ucast (crt_attr (ucast c)) :: u16) = ucast c OR 0x0700"
proof -
  have m: "(0xFF :: u32) = mask 8"
    by (simp add: mask_eq_exp_minus_1)
  have "(ucast c :: u32) AND NOT 0xFF = 0"
    unfolding m by (rule bit_word_eqI) (auto simp: bit_simps dest: bit_imp_le_length)
  then have a: "crt_attr (ucast c) = ucast c OR 0x0700"
    by (simp add: crt_attr_def)
  have "(ucast c :: u32) AND 0xFF = ucast c"
    unfolding m by (rule bit_word_eqI) (auto simp: bit_simps dest: bit_imp_le_length)
  then show "crt_attr (ucast c) AND 0xFF = ucast c"
    by (simp add: a bit.conj_disj_distrib2)
  show "(ucast (crt_attr (ucast c)) :: u16) = ucast c OR 0x0700"
    by (simp add: a unsigned_or_eq)
qed

text \<open>The text on the screen up to the cursor.\<close>

definition crt_text :: "crt \<Rightarrow> u16 list" where
  "crt_text d = take (unat (crt_pos d)) (crt_buf d)"

lemma crt_text_put:
  assumes d: "crt_ok d" and c: "printable c"
  shows "crt_text (cga_put1 (crt_attr (ucast c)) d) = crt_text d @ [ucast c OR 0x0700]"
    and "unat (crt_pos (cga_put1 (crt_attr (ucast c)) d)) = unat (crt_pos d) + 1"
proof -
  have ne: "(ucast c :: u32) \<noteq> 8" "(ucast c :: u32) \<noteq> 9" "(ucast c :: u32) \<noteq> 10" "(ucast c :: u32) \<noteq> 13"
    using c by (auto simp: printable_def ucast_8_32_eq_iff [of c 8, simplified] ucast_8_32_eq_iff [of c 9, simplified] ucast_8_32_eq_iff [of c 10, simplified] ucast_8_32_eq_iff [of c 13, simplified])
  have inc: "unat (crt_pos d + 1) = unat (crt_pos d) + 1"
    using unat_u16_plus [of "crt_pos d" 1] d by (simp add: crt_ok_def)
  have put: "cga_put1 (crt_attr (ucast c)) d =
      d\<lparr>crt_buf := (crt_buf d)[unat (crt_pos d) := ucast c OR 0x0700], crt_pos := crt_pos d + 1\<rparr>"
    using ne by (simp add: cga_put1_def crt_attr_low)
  show "crt_text (cga_put1 (crt_attr (ucast c)) d) = crt_text d @ [ucast c OR 0x0700]"
    using d take_list_update_snoc [of "unat (crt_pos d)" "crt_buf d"] by (simp add: put crt_text_def inc crt_ok_def)
  show "unat (crt_pos (cga_put1 (crt_attr (ucast c)) d)) = unat (crt_pos d) + 1"
    by (simp add: put inc)
qed

lemma crt_text_scroll:
  assumes "length (crt_buf d) = 2000" and "unat (crt_pos d) \<le> 2000"
  shows "crt_text (crt_scroll d) = (if unat (crt_pos d) = 2000 then drop 80 (crt_text d) else crt_text d)"
proof (cases "unat (crt_pos d) = 2000")
  case True
  then have "80 \<le> crt_pos d"
    by (simp add: word_le_nat_alt)
  then have "unat (crt_pos d - 80) = 1920"
    using True by (simp add: unat_sub)
  then show ?thesis
    using assms True by (simp add: crt_text_def crt_scroll_def Let_def)
qed (use assms in \<open>simp add: crt_text_def crt_scroll_def\<close>)


definition crt_example :: crt where
  "crt_example = \<lparr>crt_buf = replicate (unat CRT_SIZE) 0, crt_pos = 1999\<rparr>"

lemma crt_example_text: "crt_ok crt_example" "crt_text crt_example = replicate (unat CRT_SIZE - 1) 0"
  by (simp_all add: crt_example_def crt_ok_def crt_text_def)


text \<open>
  C24. The input buffer is a queue: \<^verbatim>\<open>cons_getc\<close> appends what the serial port and the keyboard deliver to the waiting
  characters, as long as fewer than 512 wait, and returns and removes the oldest one, or 0 when there is none.
\<close>

theorem cons_getc_queue:
  assumes inv: "cons_inv k"
    and q: "q = pending k @ filter (\<lambda>c. c \<noteq> 0) ((if serial_exists k then serial else []) @ kbd_decode kbd (kbd_shift k))"
    and room: "length q < CONSBUFSIZE" and run: "cons_getc serial kbd k = (c, reset, k')"
  shows "cons_inv k' \<and> (case q of [] \<Rightarrow> c = 0 \<and> pending k' = [] | x # xs \<Rightarrow> c = x \<and> pending k' = xs)"
proof -
  let ?s = "if serial_exists k then serial else []"
  let ?nz = "filter (\<lambda>c. c \<noteq> 0)"
  define k1 where "k1 = serial_intr serial k"
  obtain r k2 where k2: "kbd_intr kbd k1 = (r, k2)"
    by (cases "kbd_intr kbd k1")
  have k1: "k1 = fold cons_put (?nz ?s) k"
    unfolding k1_def serial_intr_def by (simp add: cons_put_all [of serial])
  obtain h where h: "k2 = (fold cons_put (kbd_decode kbd (kbd_shift k)) k1)\<lparr>kbd_shift := h\<rparr>"
    using kbd_intr_fold [of kbd k1] k2 serial_exists_shift [of serial k] by (auto simp: k1_def)
  have "k2 = (fold cons_put (?nz ?s @ ?nz (kbd_decode kbd (kbd_shift k))) k)\<lparr>kbd_shift := h\<rparr>"
    unfolding h by (subst cons_put_all) (simp add: k1)
  moreover have "pending (fold cons_put (?nz ?s @ ?nz (kbd_decode kbd (kbd_shift k))) k) = q"
    unfolding q filter_append by (rule cons_ring.put_all [OF inv]) (use room in \<open>auto simp: q\<close>)
  ultimately have inv2: "cons_inv k2" and q2: "pending k2 = q"
    using cons_ring.put_all_inv [OF inv, of "?nz ?s @ ?nz (kbd_decode kbd (kbd_shift k))"] by (simp_all only: kbd_shift_frame)
  have run2: "(c, reset, k') = (case cons_take k2 of Some (c, k) \<Rightarrow> (c, r, k) | None \<Rightarrow> (0, r, k2))"
    using run by (simp add: cons_getc_def k1_def [symmetric] k2)
  show ?thesis
  proof (cases "cons_take k2")
    case None
    then show ?thesis
      using run2 inv2 q2 cons_take_None [OF inv2] by simp
  next
    case (Some x)
    then have "cons_take k2 = Some (c, k')"
      using run2 by (cases x) simp
    then show ?thesis
      using cons_take_inv [OF inv2] cons_take_pending [OF inv2] q2 by auto
  qed
qed

definition cons_start :: console where
  "cons_start = \<lparr>cons_buf = replicate CONSBUFSIZE 0, rpos = 511, wpos = 511, kbd_shift = 0, serial_exists = True\<rparr>"

lemma cons_start_pending: "cons_inv cons_start" "pending cons_start = []" "kbd_shift cons_start = 0" "serial_exists cons_start"
  by (simp_all add: cons_start_def cons_inv_def pending_def const_defs)

theorem cons_getc_queue_witness:
  "\<exists>k'. cons_getc [0x61, 0, 0x62] [] cons_start = (0x61, False, k') \<and> pending k' = [0x62]"
proof -
  obtain c r k' where run: "cons_getc [0x61, 0, 0x62] [] cons_start = (c, r, k')"
    by (cases "cons_getc [0x61, 0, 0x62] [] cons_start") auto
  then have "r = False"
    by (auto simp: cons_getc_def Let_def split: option.splits)
  then show ?thesis
    using cons_getc_queue [OF cons_start_pending(1) refl _ run] run by (simp add: cons_start_pending const_defs)
qed

text \<open>
  The ring holds at most 511 characters: the 512th one makes the buffer look empty, so that all the waiting
  characters are lost, and no character that arrives is refused.
\<close>

lemma cons_overflow:
  assumes inv: "cons_inv k" and c: "c \<noteq> 0" and full: "length (pending k) = CONSBUFSIZE - 1"
  shows "pending (cons_put c k) = [] \<and> cons_take (cons_put c k) = None"
proof -
  have "wpos (cons_put c k) = rpos (cons_put c k)"
    using full length_pending [OF inv] inv c
    by (auto simp: cons_put_def cons_inv_def const_defs Let_def split: if_splits)
  then show ?thesis
    by (simp add: pending_def cons_take_def)
qed

lemma kbd_press:
  assumes "d AND 0x80 = 0" and "h AND E0ESC = 0"
  shows "\<exists>r. kbd_proc_data d h =
    (let h' = (h OR shiftcode d) XOR togglecode d; c = charcode (h' AND (CTL OR SHIFT)) d
     in (h', if h' AND CAPSLOCK \<noteq> 0 then flip_case c else c, r))"
proof -
  have "d \<noteq> 0xE0"
    using assms(1) by auto
  then show ?thesis
    using assms by (simp add: kbd_proc_data_def Let_def)
qed

lemma and_not_disjoint: "h AND k = 0 \<Longrightarrow> h AND NOT k = (h :: 'a::len word)"
  by (metis and.right_neutral bit.compl_zero bit.conj_cancel_right bit.conj_disj_distrib bit.disj_cancel_right or.left_neutral)

lemma key_release_code:
  fixes d :: u8
  assumes "d AND 0x80 = 0"
  shows "(d OR 0x80) AND 0x7F = d" and "(d OR 0x80) AND 0x80 \<noteq> 0"
proof -
  have "d AND NOT 0x80 = d"
    by (rule and_not_disjoint [OF assms])
  moreover have n: "(0x7F :: u8) = NOT 0x80"
    by code_simp
  ultimately show "(d OR 0x80) AND 0x7F = d"
    unfolding n bit.conj_disj_distrib2 by simp
  show "(d OR 0x80) AND 0x80 \<noteq> 0"
    using assms by (simp add: bit.conj_disj_distrib2)
qed

lemma kbd_release:
  assumes "d AND 0x80 = 0" and "d \<noteq> 0x60" and "h AND E0ESC = 0"
  shows "kbd_proc_data (d OR 0x80) h = (h AND NOT (shiftcode d), 0, False)"
proof -
  have "d OR 0x80 \<noteq> 0xE0"
    using key_release_code(1) [OF assms(1)] assms(2) by auto
  moreover have "h AND NOT (shiftcode d OR E0ESC) = (h AND NOT E0ESC) AND NOT (shiftcode d)"
    unfolding bit.de_Morgan_disj by (simp only: ac_simps)
  ultimately show ?thesis
    using assms(3) key_release_code [OF assms(1)] and_not_disjoint [OF assms(3)] by (simp add: kbd_proc_data_def Let_def)
qed

lemma designated_positional:
  assumes "i < length xs" and "\<forall>k \<in> set ys. fst k \<noteq> i"
  shows "designated (enumerate 0 xs @ ys) i = xs ! i"
proof -
  have "map_of (rev ys) i = None"
    using assms(2) by (auto simp: map_of_eq_None_iff)
  moreover have "map fst (rev (enumerate 0 xs)) = rev [0..<length xs]"
    unfolding rev_map [symmetric] by simp
  then have "distinct (map fst (rev (enumerate 0 xs)))"
    by simp
  then have "map_of (rev (enumerate 0 xs)) i = Some (xs ! i)"
    by (rule map_of_is_SomeI) (use assms(1) in \<open>simp add: in_set_enumerate_eq\<close>)
  ultimately show ?thesis
    by (simp add: designated_def map_add_def)
qed

lemma left_shift_maps: "normalmap 0x2A = 0" "shiftmap 0x2A = 0" "ctlmap 0x2A = 0"
  unfolding normalmap_def shiftmap_def ctlmap_def
  by (subst designated_positional; simp add: special_keys_def nth_append nth_Cons')+

lemma left_shift_key: "shiftcode 0x2A = SHIFT" "togglecode 0x2A = 0" "charcode k 0x2A = 0"
  by (code_simp, code_simp, simp add: charcode_def left_shift_maps)

lemma and_2_cases: "(h :: u32) AND 2 = 0 \<or> h AND 2 = 2"
proof (cases "bit h 1")
  case True
  have "h AND 2 = 2"
    by (rule bit_word_eqI) (use True in \<open>auto simp only: bit_and_iff bit_2_iff\<close>)
  then show ?thesis ..
next
  case False
  have "h AND 2 = 0"
    by (rule bit_word_eqI) (use False in \<open>auto simp only: bit_and_iff bit_2_iff bit_0_eq\<close>)
  then show ?thesis ..
qed

text \<open>
  The modifier keys: for a key that is neither a modifier nor a toggle, pressing and releasing it while the left
  shift key is held yields its character in the shift map, or in the control map with the control key, flipped under caps
  lock, and releasing the shift key restores the modifier state of before, whatever the other modifiers are.
\<close>

theorem kbd_shifted_key:
  assumes d: "d AND 0x80 = 0" "d \<noteq> 0x60" "shiftcode d = 0" "togglecode d = 0"
    and h: "h AND E0ESC = 0" "h AND SHIFT = 0"
  shows "(let c = (if h AND CTL = 0 then shiftmap d else ctlmap d)
     in kbd_decode [0x2A, d, d OR 0x80, 0xAA] h = [0, if h AND CAPSLOCK = 0 then c else flip_case c, 0, 0])
    \<and> fst (kbd_proc_data 0xAA (fst (kbd_proc_data (d OR 0x80) (fst (kbd_proc_data d (fst (kbd_proc_data 0x2A h))))))) = h"
proof -
  let ?h = "h OR SHIFT"
  have e: "?h AND E0ESC = 0" and caps: "?h AND CAPSLOCK = h AND CAPSLOCK"
    using h(1) by (simp_all add: bit.conj_disj_distrib2 const_defs)
  have undo: "?h AND NOT SHIFT = h"
    using and_not_disjoint [OF h(2)] by (simp add: bit.conj_disj_distrib2)
  obtain r1 where p1: "kbd_proc_data 0x2A h = (?h, 0, r1)"
    using kbd_press [of "0x2A" h] h(1) by (auto simp: left_shift_key Let_def flip_case_def)
  obtain r2 where p2: "kbd_proc_data d ?h =
      (?h, if h AND CAPSLOCK \<noteq> 0 then flip_case (charcode (?h AND (CTL OR SHIFT)) d) else charcode (?h AND (CTL OR SHIFT)) d, r2)"
    using kbd_press [OF d(1) e] d(3,4) caps by (auto simp: Let_def)
  have p3: "kbd_proc_data (d OR 0x80) ?h = (?h, 0, False)"
    using kbd_release [OF d(1,2) e] d(3) by simp
  have p4: "kbd_proc_data 0xAA ?h = (h, 0, False)"
    using kbd_release [of "0x2A" ?h] e by (simp add: left_shift_key undo del: One_nat_def)
  have "?h AND (CTL OR SHIFT) = (h AND CTL) OR SHIFT"
    using h(2) by (simp add: bit.conj_disj_distrib bit.conj_disj_distrib2, simp add: const_defs)
  then have "?h AND (CTL OR SHIFT) = (if h AND CTL = 0 then 1 else 3)"
    using and_2_cases [of h] by (auto simp: const_defs)
  then show ?thesis
    by (simp add: p1 p2 p3 p4 charcode_def Let_def)
qed

theorem kbd_shifted_key_witness:
  "kbd_decode [0x2A, 0x1E, 0x9E, 0xAA] 0 = [0, 0x41, 0, 0]"
proof -
  have "shiftcode 0x1E = 0" "togglecode 0x1E = 0"
    by code_simp+
  moreover have "shiftmap 0x1E = 0x41"
    unfolding shiftmap_def by (subst designated_positional) (simp_all add: special_keys_def nth_append byte_of_def)
  ultimately show ?thesis
    using kbd_shifted_key [of "0x1E" 0] by simp
qed

end
