(* ===== verification/E100.thy ===== *)
theory E100
  imports Prelude
begin

text \<open>
  The network driver, \<^verbatim>\<open>kern/dev/e100.c\<close>: the ring of transmit command blocks and the ring of receive frame
  descriptors, each in a page of its own. What the driver writes to the device registers is recorded, most recent
  first; what the adapter does to the descriptors is a step of its own.
\<close>

section \<open>Data\<close>

definition CBL_SIZE :: nat where [const_defs]: "CBL_SIZE = 4"
definition RFA_SIZE :: nat where [const_defs]: "RFA_SIZE = 8"
definition E100_MAX_PKT_SIZE :: u32 where [const_defs]: "E100_MAX_PKT_SIZE = 1518"

definition scb_status_rus_suspended :: u32 where [const_defs]: "scb_status_rus_suspended = 4"
definition scb_status_rnr :: u32 where [const_defs]: "scb_status_rnr = 0x1000"
definition scb_status_cna :: u32 where [const_defs]: "scb_status_cna = 0x2000"
definition scb_status_fr :: u32 where [const_defs]: "scb_status_fr = 0x4000"
definition scb_status_cx :: u32 where [const_defs]: "scb_status_cx = 0x8000"

definition tcb_tx :: u16 where [const_defs]: "tcb_tx = 4"
definition tcb_s :: u16 where [const_defs]: "tcb_s = 0x4000"
definition rfd_s :: u16 where [const_defs]: "rfd_s = 0x4000"
definition rfd_status_c :: u16 where [const_defs]: "rfd_status_c = 0x8000"
definition rfd_status2_eof :: u16 where [const_defs]: "rfd_status2_eof = 0x8000"
definition rfd_status2_count_mask :: u16 where [const_defs]: "rfd_status2_count_mask = 0x3FFF"

text \<open>
  The two kinds of block. Both headers take 16 bytes of the page that holds the block, so that 4080 bytes follow,
  of which the structure declares 1518. The link fields are the ring itself and are not repeated here.
\<close>

record tcb =
  tcb_status :: u16
  tcb_command :: u16
  tcb_size :: u16
  tcb_data :: "u8 list"

record rfd =
  rfd_status :: u16
  rfd_command :: u16
  rfd_status2 :: u16
  rfd_size :: u16
  rfd_data :: "u8 list"

definition BLOCK_ROOM :: nat where [const_defs]: "BLOCK_ROOM = 4080"

text \<open>Commands given to the adapter: start sending at a block, resume receiving, acknowledge interrupts, end of interrupt.\<close>

datatype nic_cmd = Cu_start nat | Ru_start nat | Ru_resume | Ack u32 | Nic_eoi

record e100 =
  cbl :: "tcb list"
  cbl_head :: u8
  cbl_count :: u8
  rfa :: "rfd list"
  rfa_head :: u8
  rfa_tail :: u8
  rfa_noroom :: bool
  nic_log :: "nic_cmd list"

definition nic_out :: "nic_cmd \<Rightarrow> e100 \<Rightarrow> e100" where
  "nic_out c e = e\<lparr>nic_log := c # nic_log e\<rparr>"

section \<open>Sending\<close>

definition CBL_IS_EMPTY :: "e100 \<Rightarrow> bool" where "CBL_IS_EMPTY e \<longleftrightarrow> cbl_count e = 0"
definition CBL_IS_FULL :: "e100 \<Rightarrow> bool" where "CBL_IS_FULL e \<longleftrightarrow> unat (cbl_count e) = CBL_SIZE"
definition CBL_NEXT :: "e100 \<Rightarrow> nat" where "CBL_NEXT e = (unat (cbl_head e) + unat (cbl_count e)) mod CBL_SIZE"
definition CBL_HEAD :: "e100 \<Rightarrow> nat" where "CBL_HEAD e = unat (cbl_head e)"

definition e100_startcu :: "e100 \<Rightarrow> e100" where
  "e100_startcu e = (if CBL_IS_EMPTY e then e else nic_out (Cu_start (CBL_HEAD e)) e)"

text \<open>\<^verbatim>\<open>memmove\<close> of a packet to the data of a block; a packet that does not fit in the page destroys other memory.\<close>

definition put_packet :: "u8 list \<Rightarrow> u8 list \<Rightarrow> u8 list" where
  "put_packet p data = p @ drop (length p) data"

text \<open>
  \<^verbatim>\<open>e100_add_tcb\<close> on the bytes that \<^verbatim>\<open>memmove\<close> reads, with \<open>None\<close> for bytes that cannot be read; the result is \<open>None\<close>
  when the copy faults or overruns the page of the block.
\<close>

definition e100_add_tcb :: "u8 list option \<Rightarrow> e100 \<Rightarrow> (int \<times> e100) option" where
  "e100_add_tcb packet e =
     (if CBL_IS_FULL e then Some (- 1, e)
      else case packet of None \<Rightarrow> None
      | Some p \<Rightarrow>
        if length p > BLOCK_ROOM then None
        else let is = CBL_IS_EMPTY e;
            n = CBL_NEXT e;
            t = cbl e ! n;
            t = t\<lparr>tcb_status := 0, tcb_data := put_packet p (tcb_data t), tcb_size := of_nat (length p)\<rparr>;
            e = e\<lparr>cbl := (cbl e)[n := t], cbl_count := cbl_count e + 1\<rparr>
        in Some (0, if is then e100_startcu e else e))"

section \<open>Receiving\<close>

definition RFA_NEXT :: "e100 \<Rightarrow> nat" where "RFA_NEXT e = unat (rfa_head e)"
definition RFA_TAIL :: "e100 \<Rightarrow> nat" where "RFA_TAIL e = unat (rfa_tail e)"

definition RFA_INC :: "e100 \<Rightarrow> e100" where
  "RFA_INC e = e\<lparr>rfa_head := of_nat ((unat (rfa_head e) + 1) mod RFA_SIZE)\<rparr>"

definition RFA_INIT :: "nat \<Rightarrow> bool \<Rightarrow> e100 \<Rightarrow> e100" where
  "RFA_INIT i tail e =
     e\<lparr>rfa := (rfa e)[i := (rfa e ! i)\<lparr>rfd_status := 0, rfd_command := if tail then rfd_s else 0, rfd_status2 := 0,
        rfd_size := ucast E100_MAX_PKT_SIZE\<rparr>]\<rparr>"

definition rfa_makeroom :: "e100 \<Rightarrow> e100" where
  "rfa_makeroom e =
     (let n = RFA_NEXT e; old = RFA_TAIL e;
          e = e\<lparr>rfa_noroom := True\<rparr>
      in if (old + 1) mod RFA_SIZE = n then e
         else
           let e = e\<lparr>rfa_tail := of_nat ((n + RFA_SIZE - 1) mod RFA_SIZE)\<rparr>;
               e = RFA_INIT (RFA_TAIL e) True e;
               e = e\<lparr>rfa_noroom := False\<rparr>
           in nic_out Ru_resume e)"

text \<open>
  \<^verbatim>\<open>e100_rem_rfd\<close>: the bytes stored through the packet pointer, whose number is stored through the size pointer,
  or the error -1 with nothing stored. A count beyond the page of the descriptor reads other memory; it is \<open>None\<close>.
\<close>

definition e100_rem_rfd :: "e100 \<Rightarrow> (int \<times> u8 list \<times> e100) option" where
  "e100_rem_rfd e =
     (let n = RFA_NEXT e; r = rfa e ! n
      in if rfd_status r AND rfd_status_c \<noteq> 0 \<and> rfd_status2 r AND rfd_status2_eof \<noteq> 0 then
           let sz = unat (rfd_status2 r AND rfd_status2_count_mask)
           in if sz > BLOCK_ROOM then None
              else
                let e = RFA_INIT n False e;
                    e = RFA_INC e
                in Some (0, take sz (rfd_data r), if rfa_noroom e then rfa_makeroom e else e)
         else Some (- 1, [], e))"

section \<open>Interrupts and initialisation\<close>

definition e100_cli :: "u32 \<Rightarrow> e100 \<Rightarrow> e100" where
  "e100_cli type e = nic_out (Ack type) e"

text \<open>\<^verbatim>\<open>e100_intr\<close>, with the status word read from the adapter.\<close>

definition e100_intr :: "u32 \<Rightarrow> e100 \<Rightarrow> e100" where
  "e100_intr st e =
     (let e = (if st AND scb_status_cna \<noteq> 0 then
                 let e = e\<lparr>cbl_count := cbl_count e - 1\<rparr>;
                     e = (if \<not> CBL_IS_EMPTY e then e100_startcu e else e)
                 in e100_cli scb_status_cna e
               else e);
          e = (if st AND scb_status_rnr \<noteq> 0 \<or> st AND scb_status_rus_suspended \<noteq> 0
               then e100_cli scb_status_rnr (rfa_makeroom e) else e);
          e = e100_cli (scb_status_cx OR scb_status_fr) e
      in nic_out Nic_eoi e)"

text \<open>\<^verbatim>\<open>cbl_init\<close> and \<^verbatim>\<open>rfa_init\<close> on the contents of the pages allocated for the blocks.\<close>

definition cbl_init :: "u8 list list \<Rightarrow> e100 \<Rightarrow> e100" where
  "cbl_init pages e = e\<lparr>cbl_count := 0, cbl_head := 0,
     cbl := map (\<lambda>d. \<lparr>tcb_status = 0, tcb_command = tcb_tx OR tcb_s, tcb_size = 0, tcb_data = d\<rparr>) pages\<rparr>"

definition rfa_init :: "u8 list list \<Rightarrow> e100 \<Rightarrow> e100" where
  "rfa_init pages e =
     (let e = e\<lparr>rfa_head := 0, rfa_tail := of_nat (RFA_SIZE - 1), rfa_noroom := False,
            rfa := map (\<lambda>(i, d). \<lparr>rfd_status = 0, rfd_command = if i = RFA_SIZE - 1 then rfd_s else 0, rfd_status2 = 0,
              rfd_size = ucast E100_MAX_PKT_SIZE, rfd_data = d\<rparr>) (enumerate 0 pages)\<rparr>
      in nic_out (Ru_start 0) e)"

section \<open>The state of the rings\<close>

definition rfd_complete :: "rfd \<Rightarrow> bool" where
  "rfd_complete r \<longleftrightarrow> rfd_status r AND rfd_status_c \<noteq> 0 \<and> rfd_status2 r AND rfd_status2_eof \<noteq> 0"

definition frame_of :: "rfd \<Rightarrow> u8 list" where
  "frame_of r = take (unat (rfd_status2 r AND rfd_status2_count_mask)) (rfd_data r)"

text \<open>The receive descriptors from the next one to be read, and the frames that wait there.\<close>

definition rfa_slots :: "e100 \<Rightarrow> rfd list" where
  "rfa_slots e = rotate (RFA_NEXT e) (rfa e)"

definition arrived :: "e100 \<Rightarrow> u8 list list" where
  "arrived e = map frame_of (takeWhile rfd_complete (rfa_slots e))"

text \<open>The packets that wait for transmission, the one being sent first.\<close>

definition packet_of :: "tcb \<Rightarrow> u8 list" where
  "packet_of t = take (unat (tcb_size t)) (tcb_data t)"

definition queued :: "e100 \<Rightarrow> u8 list list" where
  "queued e = map (\<lambda>i. packet_of (cbl e ! ((CBL_HEAD e + i) mod CBL_SIZE))) [0..<unat (cbl_count e)]"

definition tx_inv :: "e100 \<Rightarrow> bool" where
  "tx_inv e \<longleftrightarrow> length (cbl e) = CBL_SIZE \<and> CBL_HEAD e < CBL_SIZE \<and> unat (cbl_count e) \<le> CBL_SIZE"

text \<open>
  The adapter fills descriptors from the head of the ring up to the tail, with at most the declared size of a frame; beyond
  the tail no descriptor holds a frame.
\<close>

definition rx_inv :: "e100 \<Rightarrow> bool" where
  "rx_inv e \<longleftrightarrow> length (rfa e) = RFA_SIZE \<and> RFA_NEXT e < RFA_SIZE \<and> RFA_TAIL e < RFA_SIZE
     \<and> (\<forall>r \<in> set (rfa e). unat (rfd_status2 r AND rfd_status2_count_mask) \<le> unat E100_MAX_PKT_SIZE)
     \<and> (\<forall>i < RFA_SIZE. (RFA_TAIL e + RFA_SIZE - RFA_NEXT e) mod RFA_SIZE < i \<longrightarrow> \<not> rfd_complete (rfa_slots e ! i))"

lemma takeWhile_update: "\<not> P (xs ! i) \<Longrightarrow> \<not> P x \<Longrightarrow> takeWhile P (xs[i := x]) = takeWhile P xs"
proof (induction xs arbitrary: i)
  case (Cons y ys)
  then show ?case by (cases i) auto
qed simp

lemma rotate_update:
  assumes "n < length xs" and "i < length xs"
  shows "rotate n (xs[(n + i) mod length xs := x]) = (rotate n xs)[i := x]"
proof (rule nth_equalityI)
  fix j
  assume "j < length (rotate n (xs[(n + i) mod length xs := x]))"
  then have j: "j < length xs"
    by simp
  have m: "(n + k) mod length xs = (if n + k < length xs then n + k else n + k - length xs)" if "k < length xs" for k
    using that assms(1) by (simp add: le_mod_geq)
  have "(n + i) mod length xs = (n + j) mod length xs \<longleftrightarrow> i = j"
    using assms j by (auto simp: m)
  moreover have "(n + i) mod length xs < length xs"
    using assms by (auto simp: m)
  ultimately show "rotate n (xs[(n + i) mod length xs := x]) ! j = (rotate n xs)[i := x] ! j"
    using assms j by (cases "i = j") (simp_all add: nth_rotate)
qed simp

lemma rfd_init_incomplete [simp]:
  "\<not> rfd_complete (r\<lparr>rfd_status := 0, rfd_command := c, rfd_status2 := 0, rfd_size := z\<rparr>)"
  by (simp add: rfd_complete_def)

lemma rfa_init_slots:
  assumes "length (rfa e) = RFA_SIZE" and "RFA_NEXT e < RFA_SIZE" and "i < RFA_SIZE"
  shows "rfa_slots (RFA_INIT ((RFA_NEXT e + i) mod RFA_SIZE) tail e) =
    (rfa_slots e)[i := (rfa_slots e ! i)\<lparr>rfd_status := 0, rfd_command := if tail then rfd_s else 0, rfd_status2 := 0,
        rfd_size := ucast E100_MAX_PKT_SIZE\<rparr>]"
  using assms rotate_update [of "RFA_NEXT e" "rfa e" i]
  by (simp add: rfa_slots_def RFA_INIT_def RFA_NEXT_def nth_rotate)

lemma RFA_INIT_frame [simp]:
  "RFA_NEXT (RFA_INIT i tail e) = RFA_NEXT e" "RFA_TAIL (RFA_INIT i tail e) = RFA_TAIL e"
  "length (rfa (RFA_INIT i tail e)) = length (rfa e)"
  by (simp_all add: RFA_INIT_def RFA_NEXT_def RFA_TAIL_def)

lemma slots_len [simp]: "length (rfa_slots e) = length (rfa e)" "set (rfa_slots e) = set (rfa e)"
  by (simp_all add: rfa_slots_def)

lemma unat_ring: "unat (of_nat (i mod RFA_SIZE) :: u8) = i mod RFA_SIZE"
  by (simp add: const_defs unat_of_nat less_imp_le_nat)

lemma makeroom_slots:
  assumes inv: "rx_inv e" and room: "(RFA_TAIL e + 1) mod RFA_SIZE \<noteq> RFA_NEXT e"
  shows "rfa_slots (rfa_makeroom e) = (rfa_slots e)[7 := (rfa_slots e ! 7)\<lparr>rfd_status := 0, rfd_command := rfd_s,
      rfd_status2 := 0, rfd_size := ucast E100_MAX_PKT_SIZE\<rparr>]"
    and "RFA_TAIL (rfa_makeroom e) = (RFA_NEXT e + 7) mod RFA_SIZE"
proof -
  let ?e = "e\<lparr>rfa_noroom := True, rfa_tail := of_nat ((RFA_NEXT e + 7) mod RFA_SIZE)\<rparr>"
  have e: "RFA_NEXT ?e = RFA_NEXT e" "RFA_TAIL ?e = (RFA_NEXT ?e + 7) mod RFA_SIZE" "rfa ?e = rfa e"
    by (simp_all add: RFA_NEXT_def RFA_TAIL_def unat_ring)
  have room': "rfa_makeroom e = nic_out Ru_resume ((RFA_INIT (RFA_TAIL ?e) True ?e)\<lparr>rfa_noroom := False\<rparr>)"
    using room by (simp add: rfa_makeroom_def Let_def const_defs add.commute)
  have s: "rfa_slots (nic_out c (x\<lparr>rfa_noroom := b\<rparr>)) = rfa_slots x" "RFA_TAIL (nic_out c (x\<lparr>rfa_noroom := b\<rparr>)) = RFA_TAIL x"
    "rfa_slots ?e = rfa_slots e" for c x b
    by (simp_all add: rfa_slots_def nic_out_def RFA_NEXT_def RFA_TAIL_def)
  show "RFA_TAIL (rfa_makeroom e) = (RFA_NEXT e + 7) mod RFA_SIZE"
    unfolding room' s RFA_INIT_frame e ..
  have "length (rfa ?e) = RFA_SIZE" "RFA_NEXT ?e < RFA_SIZE" "7 < RFA_SIZE"
    using inv unfolding e rx_inv_def by (simp_all, simp add: const_defs)
  from rfa_init_slots [OF this, of True]
  show "rfa_slots (rfa_makeroom e) = (rfa_slots e)[7 := (rfa_slots e ! 7)\<lparr>rfd_status := 0, rfd_command := rfd_s,
      rfd_status2 := 0, rfd_size := ucast E100_MAX_PKT_SIZE\<rparr>]"
    unfolding room' s e(2) by simp
qed

lemma tail_distance:
  assumes "n < RFA_SIZE" and "t < RFA_SIZE"
  shows "(t + RFA_SIZE - n) mod RFA_SIZE = 7 \<longleftrightarrow> (t + 1) mod RFA_SIZE = n"
proof -
  have "(t + RFA_SIZE - n) mod RFA_SIZE = (if n \<le> t then t - n else t + RFA_SIZE - n)"
    using assms by (simp add: le_mod_geq)
  moreover have "(t + 1) mod RFA_SIZE = (if t = 7 then 0 else t + 1)"
    using assms(2) by (simp add: const_defs)
  ultimately show ?thesis
    using assms by (auto simp: const_defs)
qed

lemma next_distance:
  assumes "n < RFA_SIZE" and "t < RFA_SIZE" and "(t + RFA_SIZE - Suc n mod RFA_SIZE) mod RFA_SIZE < i"
  shows "(t + RFA_SIZE - n) mod RFA_SIZE < Suc i"
proof -
  have d: "(t + RFA_SIZE - m) mod RFA_SIZE = (if m \<le> t then t - m else t + RFA_SIZE - m)" if "m < RFA_SIZE" for m
    using assms(2) that by (simp add: le_mod_geq)
  have "Suc n mod RFA_SIZE = (if n = 7 then 0 else Suc n)"
    using assms(1) by (simp add: const_defs)
  then show ?thesis
    using assms d [of n] d [of "Suc n mod RFA_SIZE"] by (auto simp: const_defs split: if_splits)
qed

lemma makeroom_keeps:
  assumes inv: "rx_inv e"
  shows "arrived (rfa_makeroom e) = arrived e" and "rx_inv (rfa_makeroom e)" and "tx_inv (rfa_makeroom e) = tx_inv e"
    and "queued (rfa_makeroom e) = queued e"
proof -
  have "cbl (rfa_makeroom e) = cbl e" "cbl_head (rfa_makeroom e) = cbl_head e" "cbl_count (rfa_makeroom e) = cbl_count e"
    by (simp_all add: rfa_makeroom_def Let_def nic_out_def RFA_INIT_def)
  then show "tx_inv (rfa_makeroom e) = tx_inv e" "queued (rfa_makeroom e) = queued e"
    by (simp_all add: tx_inv_def queued_def CBL_HEAD_def)
  have n: "RFA_NEXT e < RFA_SIZE" "RFA_TAIL e < RFA_SIZE" "length (rfa e) = RFA_SIZE"
    using inv by (simp_all add: rx_inv_def)
  have "arrived (rfa_makeroom e) = arrived e \<and> rx_inv (rfa_makeroom e)"
  proof (cases "(RFA_TAIL e + 1) mod RFA_SIZE = RFA_NEXT e")
    case True
    then show ?thesis
      using inv by (simp add: rfa_makeroom_def Let_def arrived_def rx_inv_def rfa_slots_def RFA_NEXT_def RFA_TAIL_def)
  next
    case False
    note mk = makeroom_slots [OF inv False]
    let ?r = "(rfa_slots e ! 7)\<lparr>rfd_status := 0, rfd_command := rfd_s, rfd_status2 := 0, rfd_size := ucast E100_MAX_PKT_SIZE\<rparr>"
    have "(RFA_TAIL e + RFA_SIZE - RFA_NEXT e) mod RFA_SIZE < 7"
      using False tail_distance [OF n(1,2)] mod_less_divisor [of RFA_SIZE "RFA_TAIL e + RFA_SIZE - RFA_NEXT e"]
      by (simp add: const_defs)
    then have seven: "\<not> rfd_complete (rfa_slots e ! 7)"
      using inv by (simp add: rx_inv_def const_defs)
    have next_e: "RFA_NEXT (rfa_makeroom e) = RFA_NEXT e" "length (rfa (rfa_makeroom e)) = RFA_SIZE"
      using n by (simp_all add: rfa_makeroom_def Let_def RFA_NEXT_def nic_out_def RFA_INIT_def)
    have "set (rfa (rfa_makeroom e)) \<subseteq> insert ?r (set (rfa e))"
      using mk(1) set_update_subset_insert [of "rfa_slots e" 7 ?r] by (metis slots_len(2))
    then have "\<forall>r \<in> set (rfa (rfa_makeroom e)). unat (rfd_status2 r AND rfd_status2_count_mask) \<le> unat E100_MAX_PKT_SIZE"
      using inv by (auto simp: rx_inv_def)
    moreover have "((RFA_NEXT e + 7) mod RFA_SIZE + 1) mod RFA_SIZE = RFA_NEXT e"
      unfolding mod_add_left_eq using n(1) by (simp add: const_defs)
    then have "(RFA_TAIL (rfa_makeroom e) + RFA_SIZE - RFA_NEXT e) mod RFA_SIZE = 7"
      unfolding mk(2) using tail_distance [OF n(1), of "(RFA_NEXT e + 7) mod RFA_SIZE"] by (simp add: const_defs)
    ultimately have "rx_inv (rfa_makeroom e)"
      using n by (simp add: rx_inv_def next_e mk(2)) (simp add: const_defs)
    then show ?thesis
      using takeWhile_update [of rfd_complete "rfa_slots e" 7 ?r, OF seven] by (simp add: arrived_def mk(1))
  qed
  then show "arrived (rfa_makeroom e) = arrived e" "rx_inv (rfa_makeroom e)"
    by simp_all
qed

lemma nic_out_frame [simp]:
  "rfa_slots (nic_out c e) = rfa_slots e" "arrived (nic_out c e) = arrived e" "rx_inv (nic_out c e) = rx_inv e"
  "tx_inv (nic_out c e) = tx_inv e" "queued (nic_out c e) = queued e"
  by (simp_all add: nic_out_def arrived_def rfa_slots_def RFA_NEXT_def rx_inv_def RFA_TAIL_def tx_inv_def queued_def CBL_HEAD_def)

lemma startcu_frame [simp]:
  "arrived (e100_startcu e) = arrived e" "rx_inv (e100_startcu e) = rx_inv e"
  "tx_inv (e100_startcu e) = tx_inv e" "queued (e100_startcu e) = queued e"
  by (simp_all add: e100_startcu_def)

lemma cbl_frame [simp]:
  "arrived (cbl_count_update f e) = arrived e" "rx_inv (cbl_count_update f e) = rx_inv e"
  "arrived (cbl_update g e) = arrived e" "rx_inv (cbl_update g e) = rx_inv e"
  by (simp_all add: arrived_def rfa_slots_def RFA_NEXT_def rx_inv_def RFA_TAIL_def)

lemma e100_intr_rx:
  assumes "rx_inv e"
  shows "arrived (e100_intr st e) = arrived e" and "rx_inv (e100_intr st e)"
  using assms by (simp_all add: e100_intr_def Let_def e100_cli_def makeroom_keeps)

lemma unat_count_minus:
  assumes "cbl_count e \<noteq> 0"
  shows "unat (cbl_count e - 1) = unat (cbl_count e) - 1"
  using assms unat_minus_one by blast

lemma queued_dec:
  assumes "cbl_count e \<noteq> 0"
  shows "queued (e\<lparr>cbl_count := cbl_count e - 1\<rparr>) = butlast (queued e)"
    and "tx_inv e \<Longrightarrow> tx_inv (e\<lparr>cbl_count := cbl_count e - 1\<rparr>)"
proof -
  have "map f [0..<n - 1] = butlast (map f [0..<n])" for f :: "nat \<Rightarrow> 'b" and n
    by (cases n) simp_all
  then show "queued (e\<lparr>cbl_count := cbl_count e - 1\<rparr>) = butlast (queued e)"
    using unat_count_minus [OF assms] by (simp add: queued_def CBL_HEAD_def)
  show "tx_inv (e\<lparr>cbl_count := cbl_count e - 1\<rparr>)" if "tx_inv e"
    using unat_count_minus [OF assms] that by (auto simp: tx_inv_def CBL_HEAD_def)
qed

lemma e100_intr_idle:
  assumes "rx_inv e" and "tx_inv e" and "st AND scb_status_cna = 0"
  shows "tx_inv (e100_intr st e)"
  using assms by (simp add: e100_intr_def Let_def e100_cli_def makeroom_keeps)

lemma e100_intr_tx:
  assumes "rx_inv e" and "cbl_count e \<noteq> 0"
  shows "queued (e100_intr st e) = (if st AND scb_status_cna \<noteq> 0 then butlast (queued e) else queued e)"
    and "tx_inv e \<Longrightarrow> tx_inv (e100_intr st e)"
  using assms queued_dec [OF assms(2)] by (simp_all add: e100_intr_def Let_def e100_cli_def makeroom_keeps)

lemma rem_rfd_step:
  assumes inv: "rx_inv e"
  defines "e1 \<equiv> RFA_INC (RFA_INIT (RFA_NEXT e) False e)"
  shows "rfa_slots e1 = tl (rfa_slots e) @ [(hd (rfa_slots e))\<lparr>rfd_status := 0, rfd_command := 0, rfd_status2 := 0,
        rfd_size := ucast E100_MAX_PKT_SIZE\<rparr>]"
    and "rx_inv e1"
proof -
  have n: "RFA_NEXT e < RFA_SIZE" "RFA_TAIL e < RFA_SIZE" "length (rfa e) = RFA_SIZE" "0 < RFA_SIZE"
    using inv by (simp_all add: rx_inv_def const_defs)
  obtain r rs where sl: "rfa_slots e = r # rs"
    using n(3) slots_len(1) [of e] by (cases "rfa_slots e") (auto simp: const_defs)
  let ?r = "r\<lparr>rfd_status := 0, rfd_command := 0, rfd_status2 := 0, rfd_size := ucast E100_MAX_PKT_SIZE\<rparr>"
  have init: "rfa_slots (RFA_INIT (RFA_NEXT e) False e) = ?r # rs"
    using rfa_init_slots [OF n(3,1,4), of False] n(1) by (simp add: sl)
  have nxt: "RFA_NEXT e1 = Suc (RFA_NEXT e) mod RFA_SIZE"
    using unat_ring [of "Suc (RFA_NEXT e)"] by (simp add: e1_def RFA_INC_def RFA_NEXT_def RFA_INIT_def)
  have r1: "rfa e1 = rfa (RFA_INIT (RFA_NEXT e) False e)" "RFA_TAIL e1 = RFA_TAIL e"
    by (simp_all add: e1_def RFA_INC_def RFA_TAIL_def RFA_INIT_def)
  have len: "length (rfa e1) = RFA_SIZE"
    by (simp add: r1 n(3))
  have "rfa_slots e1 = rotate (Suc (RFA_NEXT e)) (rfa e1)"
    unfolding rfa_slots_def nxt len [symmetric] by (rule rotate_conv_mod [symmetric])
  also have "\<dots> = rotate1 (?r # rs)"
    using init unfolding rfa_slots_def RFA_INIT_frame r1 by simp
  finally have slots1: "rfa_slots e1 = rs @ [?r]"
    by simp
  then show "rfa_slots e1 = tl (rfa_slots e) @ [(hd (rfa_slots e))\<lparr>rfd_status := 0, rfd_command := 0, rfd_status2 := 0,
        rfd_size := ucast E100_MAX_PKT_SIZE\<rparr>]"
    by (simp add: sl)
  have "set (rfa e1) = insert ?r (set rs)" "set (rfa e) = insert r (set rs)"
    using slots1 sl slots_len(2) [of e1] slots_len(2) [of e] by auto
  then have small: "\<forall>r \<in> set (rfa e1). unat (rfd_status2 r AND rfd_status2_count_mask) \<le> unat E100_MAX_PKT_SIZE"
    using inv by (auto simp: rx_inv_def)
  have "\<not> rfd_complete (rfa_slots e1 ! i)"
    if i: "i < RFA_SIZE" "(RFA_TAIL e + RFA_SIZE - RFA_NEXT e1) mod RFA_SIZE < i" for i
  proof (cases "i = 7")
    case True
    moreover have "length rs = 7"
      using sl slots_len(1) [of e] n(3) by (simp add: const_defs)
    ultimately show ?thesis
      unfolding slots1 by (simp add: nth_append)
  next
    case False
    have "Suc i < RFA_SIZE"
      using False i(1) by (simp add: const_defs)
    moreover have "(RFA_TAIL e + RFA_SIZE - RFA_NEXT e) mod RFA_SIZE < Suc i"
      using next_distance [OF n(1,2)] i(2) unfolding nxt by blast
    ultimately have "\<not> rfd_complete (rfa_slots e ! Suc i)"
      using inv unfolding rx_inv_def by blast
    then show ?thesis
      using \<open>Suc i < RFA_SIZE\<close> sl slots_len(1) [of e] n(3) by (simp add: slots1 nth_append)
  qed
  then show "rx_inv e1"
    using small n len by (simp add: rx_inv_def r1 nxt)
qed

lemma ring_index_neq:
  assumes "h < n" and "i < c" and "c < n"
  shows "(h + i) mod n \<noteq> (h + c) mod (n :: nat)"
proof -
  have "(h + k) mod n = (if h + k < n then h + k else h + k - n)" if "k < n" for k
    using that assms(1) by (simp add: le_mod_geq)
  then show ?thesis
    using assms by auto
qed

lemma add_tcb_queued:
  fixes t :: tcb and d :: "u8 list"
  assumes inv: "tx_inv e" and room: "unat (cbl_count e) < CBL_SIZE" and p: "length p \<le> BLOCK_ROOM"
  defines "e1 \<equiv> e\<lparr>cbl := (cbl e)[CBL_NEXT e := t\<lparr>tcb_status := 0, tcb_data := put_packet p d, tcb_size := of_nat (length p)\<rparr>],
      cbl_count := cbl_count e + 1\<rparr>"
  shows "queued e1 = queued e @ [p]" and "tx_inv e1"
proof -
  have c: "unat (cbl_count e + 1) = Suc (unat (cbl_count e))"
    using room by (simp add: unat_word_ariths const_defs)
  have l: "length (cbl e) = CBL_SIZE" "CBL_HEAD e < CBL_SIZE" "CBL_NEXT e < CBL_SIZE"
    using inv by (simp_all add: tx_inv_def CBL_NEXT_def const_defs)
  have "length p < 65536"
    using p by (simp add: const_defs)
  then have "packet_of (t\<lparr>tcb_status := 0, tcb_data := put_packet p d, tcb_size := of_nat (length p)\<rparr>) = p"
    by (simp add: packet_of_def put_packet_def unat_of_nat)
  moreover have "CBL_NEXT e \<noteq> (CBL_HEAD e + i) mod CBL_SIZE" if "i < unat (cbl_count e)" for i
    using ring_index_neq [OF l(2) that room] by (simp add: CBL_NEXT_def CBL_HEAD_def)
  ultimately show "queued e1 = queued e @ [p]"
    using l by (simp add: queued_def e1_def c CBL_HEAD_def) (simp add: CBL_NEXT_def)
  show "tx_inv e1"
    using inv room c by (simp add: tx_inv_def e1_def CBL_HEAD_def)
qed

lemma e100_add_tcb_room:
  assumes inv: "tx_inv e" and room: "\<not> CBL_IS_FULL e" and p: "length p \<le> BLOCK_ROOM"
  obtains e' where "e100_add_tcb (Some p) e = Some (0, e')" and "tx_inv e'" and "queued e' = queued e @ [p]"
    and "nic_log e' = (if queued e = [] then [Cu_start (CBL_HEAD e)] else []) @ nic_log e"
    and "rx_inv e' = rx_inv e" and "arrived e' = arrived e" and "CBL_HEAD e' = CBL_HEAD e"
proof -
  have room': "unat (cbl_count e) < CBL_SIZE"
    using inv room by (simp add: tx_inv_def CBL_IS_FULL_def)
  then have "unat (cbl_count e + 1) = Suc (unat (cbl_count e))"
    by (simp add: unat_word_ariths const_defs)
  then have ne: "cbl_count e + 1 \<noteq> 0"
    by (metis Zero_not_Suc unat_0)
  have em: "queued e = [] \<longleftrightarrow> CBL_IS_EMPTY e"
    by (simp add: queued_def CBL_IS_EMPTY_def unat_eq_0)
  let ?t = "cbl e ! CBL_NEXT e"
  let ?e = "e\<lparr>cbl := (cbl e)[CBL_NEXT e := ?t\<lparr>tcb_status := 0, tcb_data := put_packet p (tcb_data ?t), tcb_size := of_nat (length p)\<rparr>],
      cbl_count := cbl_count e + 1\<rparr>"
  let ?e' = "if CBL_IS_EMPTY e then e100_startcu ?e else ?e"
  have log: "nic_log (e100_startcu ?e) = Cu_start (CBL_HEAD e) # nic_log e" "CBL_HEAD (e100_startcu ?e) = CBL_HEAD e"
    using ne by (simp_all add: e100_startcu_def nic_out_def CBL_IS_EMPTY_def CBL_HEAD_def)
  note add = add_tcb_queued [OF inv room' p, where t = ?t and d = "tcb_data ?t"]
  show thesis
  proof (rule that)
    show "e100_add_tcb (Some p) e = Some (0, ?e')"
      using room p by (simp add: e100_add_tcb_def Let_def)
  qed (use add log em in \<open>simp_all add: CBL_HEAD_def\<close>)
qed

lemma rem_rfd_tx: "tx_inv (RFA_INC (RFA_INIT i b e)) = tx_inv e"
  by (simp add: tx_inv_def RFA_INC_def RFA_INIT_def CBL_HEAD_def)

lemma e100_rem_rfd_spec:
  assumes inv: "rx_inv e"
  obtains (none) "arrived e = []" and "e100_rem_rfd e = Some (- 1, [], e)"
  | (some) f fs e' where "arrived e = f # fs" and "e100_rem_rfd e = Some (0, f, e')" and "rx_inv e'" and "arrived e' = fs"
      and "length f \<le> unat E100_MAX_PKT_SIZE" and "tx_inv e' = tx_inv e"
proof -
  let ?e1 = "RFA_INC (RFA_INIT (RFA_NEXT e) False e)"
  obtain r rs where sl: "rfa_slots e = r # rs"
    using inv slots_len(1) [of e] by (cases "rfa_slots e") (auto simp: rx_inv_def const_defs)
  then have r: "rfa e ! RFA_NEXT e = r"
    using inv nth_rotate [of 0 "rfa e" "RFA_NEXT e"] by (simp add: rfa_slots_def rx_inv_def)
  have "r \<in> set (rfa e)"
    using slots_len(2) [of e] sl by auto
  then have small: "unat (rfd_status2 r AND rfd_status2_count_mask) \<le> unat E100_MAX_PKT_SIZE"
    using inv unfolding rx_inv_def by blast
  then have "unat (rfd_status2 r AND rfd_status2_count_mask) \<le> BLOCK_ROOM"
    by (simp add: E100_MAX_PKT_SIZE_def BLOCK_ROOM_def)
  then have rem: "e100_rem_rfd e = (if rfd_complete r
      then Some (0, frame_of r, if rfa_noroom ?e1 then rfa_makeroom ?e1 else ?e1) else Some (- 1, [], e))"
    by (simp add: e100_rem_rfd_def r rfd_complete_def frame_of_def Let_def)
  have e1: "arrived ?e1 = map frame_of (takeWhile rfd_complete rs)" "rx_inv ?e1"
    using rem_rfd_step [OF inv] by (simp_all add: arrived_def sl takeWhile_tail)
  show thesis
  proof (cases "rfd_complete r")
    case True
    show thesis
      by (rule some [of "frame_of r" "map frame_of (takeWhile rfd_complete rs)" "if rfa_noroom ?e1 then rfa_makeroom ?e1 else ?e1"])
        (use True rem e1 small makeroom_keeps [OF e1(2)] in \<open>simp_all add: arrived_def [of e] sl frame_of_def rem_rfd_tx\<close>)
  next
    case False
    then show thesis
      by (intro none) (simp_all add: rem arrived_def sl)
  qed
qed

section \<open>Properties\<close>

text \<open>
  C25. Sending a packet appends it to the ring of waiting packets and starts the adapter on it exactly when none was
  waiting; with four packets waiting the call drops the packet and changes nothing.
\<close>

theorem e100_add_tcb_correct:
  assumes inv: "tx_inv e" and p: "length p \<le> BLOCK_ROOM"
  shows "(CBL_IS_FULL e \<and> e100_add_tcb (Some p) e = Some (- 1, e))
    \<or> (\<exists>e'. e100_add_tcb (Some p) e = Some (0, e') \<and> tx_inv e' \<and> queued e' = queued e @ [p]
         \<and> nic_log e' = (if queued e = [] then [Cu_start (CBL_HEAD e)] else []) @ nic_log e)"
proof (cases "CBL_IS_FULL e")
  case True
  then show ?thesis
    by (simp add: e100_add_tcb_def)
next
  case False
  show ?thesis
    by (rule e100_add_tcb_room [OF inv False p]) blast
qed

definition nic_start :: e100 where
  "nic_start = rfa_init (replicate RFA_SIZE (replicate BLOCK_ROOM 0)) (cbl_init (replicate CBL_SIZE (replicate BLOCK_ROOM 0))
     \<lparr>cbl = [], cbl_head = 0, cbl_count = 0, rfa = [], rfa_head = 0, rfa_tail = 0, rfa_noroom = False, nic_log = []\<rparr>)"

lemma nic_start_inv: "tx_inv nic_start" "queued nic_start = []"
  by (simp_all add: nic_start_def rfa_init_def cbl_init_def tx_inv_def queued_def CBL_HEAD_def nic_out_def const_defs)

theorem e100_add_tcb_correct_witness:
  "\<exists>e'. e100_add_tcb (Some [1, 2, 3]) nic_start = Some (0, e') \<and> queued e' = [[1, 2, 3]] \<and> nic_log e' = [Cu_start 0, Ru_start 0]"
proof -
  have "\<not> CBL_IS_FULL nic_start" "CBL_HEAD nic_start = 0" "nic_log nic_start = [Ru_start 0]"
    by (simp_all add: nic_start_def rfa_init_def cbl_init_def CBL_IS_FULL_def CBL_HEAD_def nic_out_def const_defs)
  then show ?thesis
    using e100_add_tcb_correct [OF nic_start_inv(1), of "[1, 2, 3]"] by (auto simp: nic_start_inv(2) const_defs)
qed

text \<open>
  C26. The interrupt that reports a finished transmission takes the last packet out of the ring, not the first one: with
  several packets waiting, the packet that was just sent is started again and the newest packet is never sent.
\<close>

theorem e100_intr_resends:
  assumes inv: "tx_inv e" "rx_inv e" and st: "st AND scb_status_cna \<noteq> 0" and q: "queued e = p # ps" "ps \<noteq> []"
  shows "queued (e100_intr st e) = p # butlast ps \<and> Cu_start (CBL_HEAD e) \<in> set (nic_log (e100_intr st e))
    \<and> CBL_HEAD (e100_intr st e) = CBL_HEAD e"
proof -
  have "length (queued e) = unat (cbl_count e)"
    by (simp add: queued_def)
  then have two: "2 \<le> unat (cbl_count e)"
    using q by (cases ps) simp_all
  then have nz: "cbl_count e \<noteq> 0"
    by auto
  have "unat (cbl_count e - 1) \<noteq> 0"
    using two unat_count_minus [OF nz] by simp
  then have more: "cbl_count e - 1 \<noteq> 0"
    by auto
  have "x \<in> set (nic_log e) \<Longrightarrow> x \<in> set (nic_log (rfa_makeroom e))" for x e
    by (simp add: rfa_makeroom_def Let_def nic_out_def RFA_INIT_def)
  moreover have "cbl_head (rfa_makeroom e) = cbl_head e" for e
    by (simp add: rfa_makeroom_def Let_def nic_out_def RFA_INIT_def)
  ultimately have "Cu_start (CBL_HEAD e) \<in> set (nic_log (e100_intr st e)) \<and> CBL_HEAD (e100_intr st e) = CBL_HEAD e"
    using st more by (simp add: e100_intr_def Let_def e100_cli_def e100_startcu_def CBL_IS_EMPTY_def CBL_HEAD_def nic_out_def)
  then show ?thesis
    using e100_intr_tx [OF inv(2) nz, of st] st q by simp
qed

lemma nic_start_rfa: "length (rfa nic_start) = RFA_SIZE" "rfa_head nic_start = 0" "rfa_tail nic_start = of_nat (RFA_SIZE - 1)"
  "r \<in> set (rfa nic_start) \<Longrightarrow> rfd_status2 r = 0"
  by (auto simp: nic_start_def rfa_init_def cbl_init_def nic_out_def in_set_enumerate_eq)

lemma nic_start_rx: "rx_inv nic_start"
proof -
  have "rfa_slots nic_start = rfa nic_start"
    by (simp add: rfa_slots_def RFA_NEXT_def nic_start_rfa)
  then show ?thesis
    by (auto simp: rx_inv_def rfd_complete_def RFA_NEXT_def RFA_TAIL_def RFA_SIZE_def nic_start_rfa)
qed

theorem e100_intr_resends_witness:
  "\<exists>e. queued e = [[1], [2]] \<and> queued (e100_intr scb_status_cna e) = [[1]] \<and> Cu_start 0 \<in> set (nic_log (e100_intr scb_status_cna e))"
proof -
  have "\<not> CBL_IS_FULL nic_start" "CBL_HEAD nic_start = 0"
    by (simp_all add: nic_start_def rfa_init_def cbl_init_def CBL_IS_FULL_def CBL_HEAD_def nic_out_def const_defs)
  then obtain e1 where e1: "tx_inv e1" "queued e1 = [[1]]" "rx_inv e1" "CBL_HEAD e1 = 0"
    by (elim e100_add_tcb_room [OF nic_start_inv(1), where p = "[1]"])
      (simp_all add: const_defs nic_start_inv nic_start_rx)
  have "length (queued e1) = unat (cbl_count e1)"
    by (simp add: queued_def)
  then have "\<not> CBL_IS_FULL e1"
    using e1(2) by (simp add: CBL_IS_FULL_def const_defs)
  then obtain e2 where e2: "tx_inv e2" "queued e2 = [[1], [2]]" "rx_inv e2" "CBL_HEAD e2 = 0"
    by (elim e100_add_tcb_room [OF e1(1), where p = "[2]"]) (simp_all add: const_defs e1)
  have "scb_status_cna AND scb_status_cna \<noteq> 0"
    by (simp add: const_defs)
  then show ?thesis
    using e100_intr_resends [OF e2(1,3) _ e2(2)] e2(2,4) by (intro exI [of _ e2]) simp
qed

text \<open>
  C27. No received frame is lost or reordered by the driver: an interrupt leaves the waiting frames as they are, also
  when it makes room for the adapter, and \<^verbatim>\<open>e100_rem_rfd\<close> hands out the oldest frame, or reports that there is none.
\<close>

theorem e100_receive_correct:
  assumes inv: "rx_inv e"
  shows "arrived (e100_intr st e) = arrived e \<and> rx_inv (e100_intr st e)
    \<and> (case arrived e of [] \<Rightarrow> e100_rem_rfd e = Some (- 1, [], e)
       | f # fs \<Rightarrow> \<exists>e'. e100_rem_rfd e = Some (0, f, e') \<and> rx_inv e' \<and> arrived e' = fs)"
  using inv
proof (cases rule: e100_rem_rfd_spec)
  case none
  then show ?thesis
    using e100_intr_rx [OF inv] by simp
next
  case (some f fs e')
  then show ?thesis
    using e100_intr_rx [OF inv] by simp
qed

theorem e100_receive_correct_witness:
  "\<exists>e e'. rx_inv e \<and> arrived e = [[7, 8]] \<and> e100_rem_rfd e = Some (0, [7, 8], e') \<and> arrived e' = []"
proof -
  let ?r = "(rfa nic_start ! 0)\<lparr>rfd_status := rfd_status_c, rfd_status2 := 0x8002, rfd_data := [7, 8]\<rparr>"
  define e where "e = nic_start\<lparr>rfa := (rfa nic_start)[0 := ?r]\<rparr>"
  obtain x xs where start: "rfa nic_start = x # xs"
    using nic_start_rfa(1) by (cases "rfa nic_start") (simp_all add: RFA_SIZE_def)
  then have x: "length xs = 7" "\<forall>r \<in> set xs. rfd_status2 r = 0"
    using nic_start_rfa(1,4) by (simp_all add: RFA_SIZE_def)
  have sl: "rfa_slots e = ?r # xs"
    by (simp add: e_def rfa_slots_def RFA_NEXT_def nic_start_rfa(2) start)
  have c: "rfd_complete ?r" "frame_of ?r = [7, 8]"
    by (simp_all add: rfd_complete_def frame_of_def const_defs)
  then have arr: "arrived e = [[7, 8]]"
    using x by (cases xs) (simp_all add: arrived_def sl rfd_complete_def)
  have "rx_inv e"
    unfolding rx_inv_def sl using x
    by (simp add: e_def start RFA_NEXT_def RFA_TAIL_def nic_start_rfa(2,3) const_defs)
  then show ?thesis
    using e100_receive_correct [of e] arr by fastforce
qed

end
