(* ===== verification/Kstate.thy ===== *)
theory Kstate
  imports Mmu Queue Console E100
begin

text \<open>
  The state of the kernel as one processor sees it: the globals of \<^verbatim>\<open>kern/pmap.c\<close>,
  \<^verbatim>\<open>kern/env.c\<close>, \<^verbatim>\<open>kern/sched.c\<close> and \<^verbatim>\<open>kern/time.c\<close>, physical memory as 1024 words per page,
  and a log of the privileged instructions executed. A \<^verbatim>\<open>struct Page *\<close> is its index in \<^verbatim>\<open>pages[]\<close>,
  a \<^verbatim>\<open>struct Env *\<close> its index in \<^verbatim>\<open>envs[]\<close>, a \<^verbatim>\<open>pde_t *\<close> or \<^verbatim>\<open>pte_t *\<close> to the start of a page is
  the number of the page it points to. Spin locks are one bit: acquiring a held lock spins for
  ever, because nothing else runs between two steps of the modelled processor.
\<close>

section \<open>Trap frames and environments (inc/trap.h, inc/env.h)\<close>

record pushregs =
  reg_edi :: u32
  reg_esi :: u32
  reg_ebp :: u32
  reg_oesp :: u32
  reg_ebx :: u32
  reg_edx :: u32
  reg_ecx :: u32
  reg_eax :: u32

record trapframe =
  tf_regs :: pushregs
  tf_es :: u16
  tf_padding1 :: u16
  tf_ds :: u16
  tf_padding2 :: u16
  tf_trapno :: u32
  tf_err :: u32
  tf_eip :: u32
  tf_cs :: u16
  tf_padding3 :: u16
  tf_eflags :: u32
  tf_esp :: u32
  tf_ss :: u16
  tf_padding4 :: u16

definition zero_regs :: pushregs where
  "zero_regs = \<lparr>reg_edi = 0, reg_esi = 0, reg_ebp = 0, reg_oesp = 0, reg_ebx = 0, reg_edx = 0,
     reg_ecx = 0, reg_eax = 0\<rparr>"

text \<open>A trap frame cleared by \<^verbatim>\<open>memset\<close>.\<close>

definition zero_tf :: trapframe where
  "zero_tf = \<lparr>tf_regs = zero_regs, tf_es = 0, tf_padding1 = 0, tf_ds = 0, tf_padding2 = 0,
     tf_trapno = 0, tf_err = 0, tf_eip = 0, tf_cs = 0, tf_padding3 = 0, tf_eflags = 0,
     tf_esp = 0, tf_ss = 0, tf_padding4 = 0\<rparr>"

definition LOG2NENV :: nat where [const_defs]: "LOG2NENV = 10"
definition NENV :: nat where [const_defs]: "NENV = 2 ^ LOG2NENV"

definition ENVX :: "u32 \<Rightarrow> u32" where
  "ENVX envid = envid AND (of_nat NENV - 1)"

definition ENV_FREE :: u32 where [const_defs]: "ENV_FREE = 0"
definition ENV_RUNNABLE :: u32 where [const_defs]: "ENV_RUNNABLE = 1"
definition ENV_NOT_RUNNABLE :: u32 where [const_defs]: "ENV_NOT_RUNNABLE = 2"
definition ENV_RUNNING :: u32 where [const_defs]: "ENV_RUNNING = 3"

record env =
  env_tf :: trapframe
  env_id :: u32
  env_parent_id :: u32
  env_status :: u32
  env_runs :: u32
  env_pgdir :: "nat option"
  env_cr3 :: u32
  env_pgfault_upcall :: u32
  env_ipc_recving :: bool
  env_ipc_dstva :: u32
  env_ipc_value :: u32
  env_ipc_from :: u32
  env_ipc_perm :: u32
  env_lock :: bool

section \<open>Error codes (inc/error.h)\<close>

definition E_UNSPECIFIED :: int where [const_defs]: "E_UNSPECIFIED = 1"
definition E_BAD_ENV :: int where [const_defs]: "E_BAD_ENV = 2"
definition E_INVAL :: int where [const_defs]: "E_INVAL = 3"
definition E_NO_MEM :: int where [const_defs]: "E_NO_MEM = 4"
definition E_NO_FREE_ENV :: int where [const_defs]: "E_NO_FREE_ENV = 5"
definition E_FAULT :: int where [const_defs]: "E_FAULT = 6"
definition E_IPC_NOT_RECV :: int where [const_defs]: "E_IPC_NOT_RECV = 7"
definition E_EOF :: int where [const_defs]: "E_EOF = 8"
definition E_NO_DISK :: int where [const_defs]: "E_NO_DISK = 9"
definition E_MAX_OPEN :: int where [const_defs]: "E_MAX_OPEN = 10"
definition E_NOT_FOUND :: int where [const_defs]: "E_NOT_FOUND = 11"
definition E_BAD_PATH :: int where [const_defs]: "E_BAD_PATH = 12"
definition E_FILE_EXISTS :: int where [const_defs]: "E_FILE_EXISTS = 13"
definition E_NOT_EXEC :: int where [const_defs]: "E_NOT_EXEC = 14"

section \<open>The kernel state\<close>

text \<open>Privileged instructions and inter-processor interrupts, most recent first.\<close>

datatype hw_event = Invlpg u32 | Lcr3 u32 | Ipi_broadcast u32 | Lapic_eoi | Iret_tf trapframe | Cputs "u8 list" | Reboot

record kstate =
  npage :: nat
  boot_pgdir :: nat
  boot_cr3 :: u32
  pp_ref :: "nat \<Rightarrow> u32"
  page_free_list :: "nat qlist"
  mem :: "nat \<Rightarrow> nat \<Rightarrow> u32"
  page_table_lock :: bool
  tlb_lock :: bool
  tlb_va :: u32
  booted :: u32
  ismp :: bool
  user_mem_check_addr :: u32
  envs :: "nat \<Rightarrow> env"
  env_free_list :: "nat qlist"
  env_table_lock :: bool
  sched_pre :: nat
  curenv :: "nat option"
  is_bcpu :: bool
  ticks :: u32
  cons :: console
  nic :: e100
  hw_log :: "hw_event list"

section \<open>Access to the state\<close>

text \<open>\<^verbatim>\<open>spin_lock\<close>, \<^verbatim>\<open>spin_unlock\<close> and \<^verbatim>\<open>spin_init\<close> of \<^verbatim>\<open>inc/spinlock.h\<close> on a lock given by its selector
  and update function.\<close>

definition spin_lock :: "('s \<Rightarrow> bool) \<Rightarrow> ((bool \<Rightarrow> bool) \<Rightarrow> 's \<Rightarrow> 's) \<Rightarrow> 's \<Rightarrow> (unit, 's) kres" where
  "spin_lock get upd s = (if get s then Hang else Ok () (upd (\<lambda>_. True) s))"

definition spin_unlock :: "((bool \<Rightarrow> bool) \<Rightarrow> 's \<Rightarrow> 's) \<Rightarrow> 's \<Rightarrow> 's" where
  "spin_unlock upd s = upd (\<lambda>_. False) s"

definition upd_env :: "nat \<Rightarrow> (env \<Rightarrow> env) \<Rightarrow> kstate \<Rightarrow> kstate" where
  "upd_env i f s = s\<lparr>envs := (envs s)(i := f (envs s i))\<rparr>"

definition env_lock_of :: "nat \<Rightarrow> kstate \<Rightarrow> bool" where
  "env_lock_of i s = env_lock (envs s i)"

definition env_lock_of_update :: "nat \<Rightarrow> (bool \<Rightarrow> bool) \<Rightarrow> kstate \<Rightarrow> kstate" where
  "env_lock_of_update i f s = upd_env i (env_lock_update f) s"

definition wr :: "nat \<Rightarrow> nat \<Rightarrow> u32 \<Rightarrow> kstate \<Rightarrow> kstate" where
  "wr p i w s = s\<lparr>mem := (mem s)(p := (mem s p)(i := w))\<rparr>"

definition memset_page :: "nat \<Rightarrow> kstate \<Rightarrow> kstate" where
  "memset_page p s = s\<lparr>mem := (mem s)(p := (\<lambda>_. 0))\<rparr>"

definition hw :: "hw_event \<Rightarrow> kstate \<Rightarrow> kstate" where
  "hw e s = s\<lparr>hw_log := e # hw_log s\<rparr>"

text \<open>\<^verbatim>\<open>atomic_inc\<close> on a page's reference count, with the machine's wrap-around.\<close>

definition atomic_inc :: "nat \<Rightarrow> kstate \<Rightarrow> kstate" where
  "atomic_inc p s = s\<lparr>pp_ref := (pp_ref s)(p := pp_ref s p + 1)\<rparr>"

text \<open>\<^verbatim>\<open>atomic_dec_and_test\<close>: the new state and whether the result is zero.\<close>

definition atomic_dec_and_test :: "nat \<Rightarrow> kstate \<Rightarrow> bool \<times> kstate" where
  "atomic_dec_and_test p s =
     (let c = pp_ref s p - 1 in (c = 0, s\<lparr>pp_ref := (pp_ref s)(p := c)\<rparr>))"

text \<open>Reading \<^verbatim>\<open>curenv\<close> to dereference it; a null \<^verbatim>\<open>curenv\<close> is a fault in the kernel.\<close>

definition the_curenv :: "kstate \<Rightarrow> (nat, kstate) kres" where
  "the_curenv s = (case curenv s of None \<Rightarrow> Panic ''null curenv'' | Some e \<Rightarrow> Ok e s)"

end
