(* ===== verification/Refcount.thy ===== *)
theory Refcount
  imports Kstate
begin

text \<open>
  The accounting of physical pages that \<^verbatim>\<open>kern/pmap.c\<close> and \<^verbatim>\<open>kern/env.c\<close> maintain, stated over the
  references themselves. A \<^emph>\<open>slot\<close> is a place of the kernel's data that may refer to a page: the
  page directory pointer of an environment, an entry of that directory below \<^verbatim>\<open>UTOP\<close>, or an entry
  of one of its page tables. \<open>refinv\<close> says that every reference count is the number of slots that
  refer to the page, that the free list holds exactly the unreferenced pages, and that pages used
  as directories or page tables have a single reference. The lemmas are the five elementary moves
  of which all the operations are made.
\<close>

section \<open>Slots\<close>

definition NPDE :: nat where [const_defs]: "NPDE = 955"

text \<open>\<open>NPDE\<close> is \<^verbatim>\<open>PDX(UTOP)\<close>, the number of directory entries that belong to the user.\<close>

lemma NPDE_UTOP: "NPDE = unat (PDX UTOP)"
  by (simp add: const_defs addr_macros)

datatype slot = Dir nat | Pd nat nat | Pt nat nat nat

fun is_Pt :: "slot \<Rightarrow> bool" where
  "is_Pt (Pt i d t) = True"
| "is_Pt _ = False"

fun valid_slot :: "slot \<Rightarrow> bool" where
  "valid_slot (Dir i) = (i < NENV)"
| "valid_slot (Pd i d) = (i < NENV \<and> d < NPDE)"
| "valid_slot (Pt i d t) = (i < NENV \<and> d < NPDE \<and> t < 1024)"

definition refs :: "(slot \<Rightarrow> nat option) \<Rightarrow> nat \<Rightarrow> slot set" where
  "refs T p = {sl. T sl = Some p}"

text \<open>A page that is not used as a page directory or as a page table.\<close>

definition data_page :: "(slot \<Rightarrow> nat option) \<Rightarrow> nat \<Rightarrow> bool" where
  "data_page T p = (\<forall>sl \<in> refs T p. is_Pt sl)"

lemma valid_slots_bounded:
  "finite {sl. valid_slot sl} \<and> card {sl. valid_slot sl} < 2 ^ 32 - 1"
proof -
  let ?D = "Dir ` {..<NENV}"
  let ?P = "(\<lambda>(i, d). Pd i d) ` ({..<NENV} \<times> {..<NPDE})"
  let ?Q = "(\<lambda>(i, d, t). Pt i d t) ` ({..<NENV} \<times> {..<NPDE} \<times> {..<1024})"
  have e: "{sl. valid_slot sl} = ?D \<union> ?P \<union> ?Q"
  proof (intro subset_antisym subsetI)
    fix sl
    assume "sl \<in> {sl. valid_slot sl}"
    then show "sl \<in> ?D \<union> ?P \<union> ?Q"
      by (cases sl) (auto simp: image_iff)
  qed auto
  have "card {sl. valid_slot sl} \<le> card ?D + card ?P + card ?Q"
    unfolding e by (meson card_Un_le add_le_mono1 order_trans)
  also have "\<dots> \<le> NENV + NENV * NPDE + NENV * (NPDE * 1024)"
    using card_image_le [of "{..<NENV}" Dir]
      card_image_le [of "{..<NENV} \<times> {..<NPDE}" "\<lambda>(i, d). Pd i d"]
      card_image_le [of "{..<NENV} \<times> {..<NPDE} \<times> {..<1024::nat}" "\<lambda>(i, d, t). Pt i d t"]
    by simp
  also have "\<dots> < 2 ^ 32 - 1"
    by (simp add: const_defs)
  finally show ?thesis
    using e by simp
qed

section \<open>The invariant\<close>

text \<open>
  \<open>M\<close> are the pages the allocator manages, \<open>A\<close> the pages allocated by the running code and not yet
  referenced, \<open>H\<close> the pages whose count the running code has already incremented for a reference
  it is about to store.
\<close>

definition refinv ::
  "nat set \<Rightarrow> nat set \<Rightarrow> nat set \<Rightarrow> (slot \<Rightarrow> nat option) \<Rightarrow> (nat \<Rightarrow> u32) \<Rightarrow> nat qlist \<Rightarrow> bool" where
  "refinv M A H T ref q \<longleftrightarrow>
     finite M \<and> A \<subseteq> M \<and> H \<subseteq> M \<and> A \<inter> H = {}
     \<and> (\<exists>xs. LIST_rep q xs \<and> set xs = {p \<in> M. refs T p = {}} - (A \<union> H))
     \<and> (\<forall>p \<in> A. refs T p = {})
     \<and> (\<forall>p \<in> M. unat (ref p) = card (refs T p) + (if p \<in> H then 1 else 0))
     \<and> (\<forall>sl p. T sl = Some p \<longrightarrow> p \<in> M \<and> valid_slot sl)
     \<and> (\<forall>sl sl' p. \<not> is_Pt sl \<longrightarrow> T sl = Some p \<longrightarrow> T sl' = Some p \<longrightarrow> sl' = sl)"

lemma refinvD:
  assumes "refinv M A H T ref q"
  shows "finite M" "A \<subseteq> M" "H \<subseteq> M" "A \<inter> H = {}"
    and "\<exists>xs. LIST_rep q xs \<and> set xs = {p \<in> M. refs T p = {}} - (A \<union> H)"
    and "\<And>p. p \<in> A \<Longrightarrow> refs T p = {}"
    and "\<And>p. p \<in> M \<Longrightarrow> unat (ref p) = card (refs T p) + (if p \<in> H then 1 else 0)"
    and "\<And>sl p. T sl = Some p \<Longrightarrow> p \<in> M"
    and "\<And>sl p. T sl = Some p \<Longrightarrow> valid_slot sl"
    and "\<And>sl sl' p. \<not> is_Pt sl \<Longrightarrow> T sl = Some p \<Longrightarrow> T sl' = Some p \<Longrightarrow> sl' = sl"
  using assms unfolding refinv_def by blast+

lemma refinvI:
  assumes "finite M" "A \<subseteq> M" "H \<subseteq> M" "A \<inter> H = {}"
    and "LIST_rep q xs" "set xs = {p \<in> M. refs T p = {}} - (A \<union> H)"
    and "\<And>p. p \<in> A \<Longrightarrow> refs T p = {}"
    and "\<And>p. p \<in> M \<Longrightarrow> unat (ref p) = card (refs T p) + (if p \<in> H then 1 else 0)"
    and "\<And>sl p. T sl = Some p \<Longrightarrow> p \<in> M \<and> valid_slot sl"
    and "\<And>sl sl' p. \<not> is_Pt sl \<Longrightarrow> T sl = Some p \<Longrightarrow> T sl' = Some p \<Longrightarrow> sl' = sl"
  shows "refinv M A H T ref q"
  unfolding refinv_def using assms by blast

lemma refs_bounded:
  assumes "refinv M A H T ref q"
  shows "finite (refs T p)" and "card (refs T p) < 2 ^ 32 - 1"
proof -
  have sub: "refs T p \<subseteq> {sl. valid_slot sl}"
    using refinvD(9) [OF assms] by (auto simp: refs_def)
  show "finite (refs T p)"
    using valid_slots_bounded finite_subset [OF sub] by blast
  show "card (refs T p) < 2 ^ 32 - 1"
    using valid_slots_bounded card_mono [OF _ sub] by (meson le_less_trans)
qed

lemma refs_upd_None: "T sl = Some p \<Longrightarrow> refs (T(sl := None)) x = (if x = p then refs T p - {sl} else refs T x)"
  by (auto simp: refs_def)

lemma refs_upd_Some:
  "T sl = None \<Longrightarrow> refs (T(sl := Some p)) x = (if x = p then insert sl (refs T p) else refs T x)"
  by (auto simp: refs_def)

section \<open>The elementary moves\<close>

text \<open>Taking a page from the free list.\<close>

lemma refinv_take:
  assumes inv: "refinv M A H T ref q" and first: "LIST_FIRST q = Some p"
  obtains q' where "LIST_REMOVE p q = Some q'" "refinv M (insert p A) H T ref q'"
    "p \<in> M" "p \<notin> A" "p \<notin> H" "refs T p = {}" "ref p = 0"
proof -
  obtain xs where xs: "LIST_rep q xs" "set xs = {p \<in> M. refs T p = {}} - (A \<union> H)"
    using refinvD(5) [OF inv] by blast
  obtain ys where ys: "xs = p # ys"
    using ll.rep_first [OF xs(1)] first by (cases xs) simp_all
  obtain q' where q': "LIST_REMOVE p q = Some q'" "LIST_rep q' ys"
    using ll.take_first [OF xs(1) [unfolded ys]] by blast
  have p: "p \<in> M" "p \<notin> A" "p \<notin> H" "refs T p = {}"
    using xs(2) ys by auto
  have "p \<notin> set ys"
    using ll.rep_distinct [OF xs(1)] ys by simp
  then have ys_set: "set ys = {p \<in> M. refs T p = {}} - (insert p A \<union> H)"
    using xs(2) ys by auto
  have "refinv M (insert p A) H T ref q'"
    by (rule refinvI [OF _ _ _ _ q'(2) ys_set _ refinvD(7) [OF inv] _ refinvD(10) [OF inv]])
      (use p refinvD(1-4,6,8,9) [OF inv] in auto)
  moreover have "ref p = 0"
    using refinvD(7) [OF inv p(1)] p by (simp add: unat_eq_0)
  ultimately show ?thesis
    using that q'(1) p by simp
qed

text \<open>Returning a page that was allocated and never referenced.\<close>

lemma refinv_give:
  assumes inv: "refinv M A H T ref q" and p: "p \<in> A"
  shows "refinv M (A - {p}) H T ref (LIST_INSERT_HEAD p q)" and "ref p = 0"
proof -
  obtain xs where xs: "LIST_rep q xs" "set xs = {p \<in> M. refs T p = {}} - (A \<union> H)"
    using refinvD(5) [OF inv] by blast
  have "p \<notin> H" "p \<in> M" "refs T p = {}"
    using refinvD [OF inv] p by auto
  then show "ref p = 0"
    using refinvD(7) [OF inv, of p] by (simp add: unat_eq_0)
  have list: "LIST_rep (LIST_INSERT_HEAD p q) (p # xs)"
    using xs p by (intro LIST_INSERT_HEAD_rep) auto
  show "refinv M (A - {p}) H T ref (LIST_INSERT_HEAD p q)"
    by (rule refinvI [OF _ _ _ _ list _ _ refinvD(7) [OF inv] _ refinvD(10) [OF inv]])
      (use xs(2) \<open>p \<notin> H\<close> \<open>p \<in> M\<close> \<open>refs T p = {}\<close> p refinvD(1-4,6,8,9) [OF inv] in auto)
qed

text \<open>Counting a reference before it is stored.\<close>

lemma refinv_hold:
  assumes inv: "refinv M A H T ref q" and p: "p \<in> A \<or> refs T p \<noteq> {}" and H: "p \<notin> H"
  shows "refinv M (A - {p}) (insert p H) T (ref(p := ref p + 1)) q"
proof -
  obtain xs where xs: "LIST_rep q xs" "set xs = {p \<in> M. refs T p = {}} - (A \<union> H)"
    using refinvD(5) [OF inv] by blast
  have M: "p \<in> M"
    using p refinvD(2,8) [OF inv] by (auto simp: refs_def)
  have "unat (ref p) = card (refs T p)"
    using refinvD(7) [OF inv M] H by simp
  then have "unat (ref p + 1) = card (refs T p) + 1"
    using refs_bounded(2) [OF inv, of p] unat_inc [of "ref p"] by simp
  then have card: "unat ((ref(p := ref p + 1)) x) = card (refs T x) + (if x \<in> insert p H then 1 else 0)"
    if "x \<in> M" for x
    using refinvD(7) [OF inv that] by simp
  show ?thesis
    by (rule refinvI [OF _ _ _ _ xs(1) _ _ card _ refinvD(10) [OF inv]])
      (use M xs(2) p H refinvD(1-4,6,8,9) [OF inv] in auto)
qed

text \<open>Storing a counted reference into an empty slot.\<close>

lemma refinv_install:
  assumes inv: "refinv M A H T ref q" and p: "p \<in> H" and sl: "T sl = None" "valid_slot sl"
    and ok: "if is_Pt sl then data_page T p else refs T p = {}"
  shows "refinv M A (H - {p}) (T(sl := Some p)) ref q"
proof -
  obtain xs where xs: "LIST_rep q xs" "set xs = {p \<in> M. refs T p = {}} - (A \<union> H)"
    using refinvD(5) [OF inv] by blast
  have M: "p \<in> M" "p \<notin> A"
    using p refinvD(3,4) [OF inv] by auto
  have new: "sl \<notin> refs T p"
    using sl by (simp add: refs_def)
  have excl: "sl2 = sl1" if "\<not> is_Pt sl1" "(T(sl := Some p)) sl1 = Some x"
    "(T(sl := Some p)) sl2 = Some x" for sl1 sl2 x
    using that ok refinvD(10) [OF inv, of sl1 x sl2]
    by (auto simp: refs_def data_page_def split: if_splits)
  note r = refs_upd_Some [of T sl p, OF sl(1)]
  have card: "unat (ref x) = card (refs (T(sl := Some p)) x) + (if x \<in> H - {p} then 1 else 0)"
    if "x \<in> M" for x
    using refinvD(7) [OF inv that] new p refs_bounded(1) [OF inv, of p]
    unfolding r by (cases "x = p") simp_all
  show ?thesis
  proof (rule refinvI [OF _ _ _ _ xs(1) _ _ card _ excl])
    show "set xs = {x \<in> M. refs (T(sl := Some p)) x = {}} - (A \<union> (H - {p}))"
      using xs(2) M p by (auto simp: r)
    show "refs (T(sl := Some p)) x = {}" if "x \<in> A" for x
      using refinvD(6) [OF inv that] that M by (auto simp: r)
    show "x \<in> M \<and> valid_slot sl1" if "(T(sl := Some p)) sl1 = Some x" for sl1 x
      using that refinvD(8,9) [OF inv, of sl1 x] M sl(2) by (auto split: if_splits)
  qed (use refinvD(1-4) [OF inv] in auto)
qed

text \<open>Dropping a stored reference, and freeing the page with the last one.\<close>

lemma refinv_drop:
  assumes inv: "refinv M A H T ref q" and sl: "T sl = Some p"
  shows "refinv M A H (T(sl := None)) (ref(p := ref p - 1))
           (if ref p - 1 = 0 then LIST_INSERT_HEAD p q else q)"
    and "0 < ref p"
proof -
  obtain xs where xs: "LIST_rep q xs" "set xs = {p \<in> M. refs T p = {}} - (A \<union> H)"
    using refinvD(5) [OF inv] by blast
  have M: "p \<in> M" "p \<notin> A" and in_refs: "sl \<in> refs T p"
    using refinvD(6,8) [OF inv] sl by (auto simp: refs_def)
  note fin = refs_bounded(1) [OF inv, of p]
  note cnt = refinvD(7) [OF inv M(1)]
  have pos: "card (refs T p) > 0"
    using in_refs fin by (auto simp: card_gt_0_iff)
  then have ne: "ref p \<noteq> 0"
    using cnt by (intro notI) simp
  then show "0 < ref p"
    by (simp add: word_neq_0_conv)
  note r = refs_upd_None [of T sl p, OF sl]
  have cnt': "unat (ref p - 1) = card (refs T p - {sl}) + (if p \<in> H then 1 else 0)"
    using cnt pos in_refs fin by (simp add: unat_dec [OF ne])
  have zero: "ref p - 1 = 0 \<longleftrightarrow> refs T p - {sl} = {} \<and> p \<notin> H"
    using cnt' fin unfolding unat_eq_0 [symmetric] by (simp add: card_eq_0_iff)
  have p_xs: "p \<notin> set xs"
    using xs(2) in_refs by auto
  have card: "unat ((ref(p := ref p - 1)) x) = card (refs (T(sl := None)) x) + (if x \<in> H then 1 else 0)"
    if "x \<in> M" for x
    using refinvD(7) [OF inv that] cnt' unfolding r by simp
  have excl: "sl2 = sl1" if "\<not> is_Pt sl1" "(T(sl := None)) sl1 = Some x"
    "(T(sl := None)) sl2 = Some x" for sl1 sl2 x
    using that refinvD(10) [OF inv, of sl1 x sl2] by (auto split: if_splits)
  have list: "LIST_rep (if ref p - 1 = 0 then LIST_INSERT_HEAD p q else q) (if ref p - 1 = 0 then p # xs else xs)"
    using xs(1) p_xs by (simp add: LIST_INSERT_HEAD_rep)
  have elems: "set (if ref p - 1 = 0 then p # xs else xs) = {x \<in> M. refs (T(sl := None)) x = {}} - (A \<union> H)"
    using xs(2) M in_refs unfolding r zero by (cases "refs T p - {sl} = {} \<and> p \<notin> H") auto
  show "refinv M A H (T(sl := None)) (ref(p := ref p - 1))
           (if ref p - 1 = 0 then LIST_INSERT_HEAD p q else q)"
  proof (rule refinvI [OF _ _ _ _ list elems _ card _ excl])
    show "refs (T(sl := None)) x = {}" if "x \<in> A" for x
      using refinvD(6) [OF inv that] that M by (auto simp: r)
    show "x \<in> M \<and> valid_slot sl1" if "(T(sl := None)) sl1 = Some x" for sl1 x
      using that refinvD(8,9) [OF inv, of sl1 x] by (auto split: if_splits)
  qed (use refinvD(1-4) [OF inv] in auto)
qed

end
