(* ===== verification/Pmap.thy ===== *)
theory Pmap
  imports Refcount
begin

text \<open>
  Physical page allocation and page tables: \<^verbatim>\<open>kern/pmap.c\<close> and the address conversions of
  \<^verbatim>\<open>kern/pmap.h\<close>. The first section holds the operations; the rest proves that each of them keeps
  the page accounting of \<open>Refcount\<close>, never fails an assertion, and changes exactly the mapping it is
  asked to change.
\<close>

section \<open>Operations\<close>

definition page2ppn :: "nat \<Rightarrow> u32" where
  "page2ppn pp = of_nat pp"

definition page2pa :: "nat \<Rightarrow> u32" where
  "page2pa pp = push_bit PGSHIFT (page2ppn pp)"

definition pa2page :: "u32 \<Rightarrow> kstate \<Rightarrow> (nat, kstate) kres" where
  "pa2page pa s =
     (if unat (PPN pa) \<ge> npage s then Panic ''pa2page called with invalid pa''
      else Ok (unat (PPN pa)) s)"

text \<open>\<^verbatim>\<open>KADDR\<close> of a page-aligned physical address, as the number of the page pointed to.\<close>

definition KADDR :: "u32 \<Rightarrow> kstate \<Rightarrow> (nat, kstate) kres" where
  "KADDR pa s =
     (if unat (PPN pa) \<ge> npage s then Panic ''KADDR called with invalid pa''
      else Ok (unat (PPN pa)) s)"

definition page2kva :: "nat \<Rightarrow> kstate \<Rightarrow> (nat, kstate) kres" where
  "page2kva pp s = KADDR (page2pa pp) s"

definition PADDR :: "u32 \<Rightarrow> 's \<Rightarrow> (u32, 's) kres" where
  "PADDR kva s = (if kva < KERNBASE then Panic ''PADDR called with invalid kva'' else Ok (kva - KERNBASE) s)"

definition page_init :: "u32 \<Rightarrow> kstate \<Rightarrow> (unit, kstate) kres" where
  "page_init boot_freemem s =
     (let free_one = (\<lambda>i s. s\<lparr>pp_ref := (pp_ref s)(i := 0),
                              page_free_list := LIST_INSERT_HEAD i (page_free_list s)\<rparr>);
          s = s\<lparr>page_free_list := LIST_INIT (page_free_list s)\<rparr>;
          s = fold free_one [1..<unat (IOPHYSMEM div PGSIZE)] s
      in kbind (PADDR boot_freemem s) (\<lambda>pa s.
           let s = fold free_one [unat (pa div PGSIZE)..<npage s] s;
               s = spin_unlock tlb_lock_update s
           in Ok () (spin_unlock page_table_lock_update s)))"

definition page_initpp :: "nat \<Rightarrow> kstate \<Rightarrow> kstate" where
  "page_initpp pp s = s\<lparr>pp_ref := (pp_ref s)(pp := 0), page_free_list := clear_link pp (page_free_list s)\<rparr>"

text \<open>\<open>Inr p\<close> stands for the return value 0 with \<^verbatim>\<open>*pp_store\<close> set to \<open>p\<close>.\<close>

definition page_alloc :: "kstate \<Rightarrow> (int + nat, kstate) kres" where
  "page_alloc s =
     kbind (spin_lock page_table_lock page_table_lock_update s) (\<lambda>_ s.
       if \<not> LIST_EMPTY (page_free_list s) then
         (case LIST_FIRST (page_free_list s) of
            None \<Rightarrow> Panic ''page fault''
          | Some pp \<Rightarrow>
              (case LIST_REMOVE pp (page_free_list s) of
                 None \<Rightarrow> Panic ''page fault''
               | Some q \<Rightarrow>
                   let s = s\<lparr>page_free_list := q\<rparr>
                   in Ok (Inr pp) (spin_unlock page_table_lock_update s)))
       else Ok (Inl (- E_NO_MEM)) (spin_unlock page_table_lock_update s))"

definition page_free :: "nat \<Rightarrow> kstate \<Rightarrow> (unit, kstate) kres" where
  "page_free pp s =
     kbind (spin_lock page_table_lock page_table_lock_update s) (\<lambda>_ s.
     kbind (kassert (pp_ref s pp = 0) ''assertion failed: pp_ref == 0'' s) (\<lambda>_ s.
       let s = s\<lparr>page_free_list := LIST_INSERT_HEAD pp (page_free_list s)\<rparr>
       in Ok () (spin_unlock page_table_lock_update s)))"

definition page_decref :: "nat \<Rightarrow> kstate \<Rightarrow> (unit, kstate) kres" where
  "page_decref pp s =
     kbind (kassert (pp_ref s pp > 0) ''assertion failed: pp_ref > 0'' s) (\<lambda>_ s.
       let (zero, s) = atomic_dec_and_test pp s
       in if zero then page_free pp s else Ok () s)"

definition tlb_invalidate :: "nat option \<Rightarrow> u32 \<Rightarrow> kstate \<Rightarrow> kstate" where
  "tlb_invalidate pgdir va s =
     (case curenv s of
        None \<Rightarrow> hw (Invlpg va) s
      | Some e \<Rightarrow> if env_pgdir (envs s e) = pgdir then hw (Invlpg va) s else s)"

definition T_TLBFLUSH :: u32 where [const_defs]: "T_TLBFLUSH = 49"

text \<open>\<^verbatim>\<open>tlb_invalidate(curenv->env_pgdir, va)\<close>\<close>

definition tlb_invalidate_cur :: "u32 \<Rightarrow> kstate \<Rightarrow> (unit, kstate) kres" where
  "tlb_invalidate_cur va s =
     kbind (the_curenv s) (\<lambda>e s. Ok () (tlb_invalidate (env_pgdir (envs s e)) va s))"

text \<open>
  The sequence with which an entry is changed on a multiprocessor: take the shootdown lock, signal
  the other processors, store the entry, publish the address and flush locally.
\<close>

definition store_shootdown :: "nat \<Rightarrow> nat \<Rightarrow> u32 \<Rightarrow> u32 \<Rightarrow> kstate \<Rightarrow> (unit, kstate) kres" where
  "store_shootdown p i w va s =
     kbind (spin_lock tlb_lock tlb_lock_update s) (\<lambda>_ s.
       let s = hw (Ipi_broadcast T_TLBFLUSH) s;
           s = wr p i w s;
           s = s\<lparr>tlb_va := va\<rparr>
       in kbind (tlb_invalidate_cur va s) (\<lambda>_ s. Ok () (spin_unlock tlb_lock_update s)))"

text \<open>A \<^verbatim>\<open>pte_t *\<close> is the page it points into and the index there; \<open>None\<close> is the null pointer.\<close>

definition pgdir_walk :: "nat option \<Rightarrow> u32 \<Rightarrow> bool \<Rightarrow> kstate \<Rightarrow> ((nat \<times> nat) option, kstate) kres" where
  "pgdir_walk pgdir va create s =
     (case pgdir of None \<Rightarrow> Panic ''page fault'' | Some pd \<Rightarrow>
       let d = unat (PDX va) in
       kbind
         (if mem s pd d AND PTE_P = 0 then
            if \<not> create then Ok False s
            else kbind (page_alloc s) (\<lambda>r s.
              case r of Inl _ \<Rightarrow> Ok False s
              | Inr pg \<Rightarrow>
                  kbind (page2kva pg s) (\<lambda>kva s.
                    let s = memset_page kva s;
                        w = page2pa pg OR PTE_U OR PTE_W OR PTE_P
                    in kbind (if booted s \<noteq> 0 \<and> ismp s then store_shootdown pd d w va s
                              else Ok () (wr pd d w s)) (\<lambda>_ s.
                       Ok True (atomic_inc pg s))))
          else Ok True s)
         (\<lambda>found s.
            if \<not> found then Ok None s
            else kbind (KADDR (PTE_ADDR (mem s pd d)) s) (\<lambda>p s. Ok (Some (p, unat (PTX va))) s)))"

text \<open>The page mapped at \<open>va\<close> and the address of its entry (\<^verbatim>\<open>*pte_store\<close>).\<close>

definition page_lookup :: "nat option \<Rightarrow> u32 \<Rightarrow> kstate \<Rightarrow> ((nat \<times> (nat \<times> nat)) option, kstate) kres" where
  "page_lookup pgdir va s =
     kbind (pgdir_walk pgdir va False s) (\<lambda>r s.
       case r of None \<Rightarrow> Ok None s
       | Some (p, i) \<Rightarrow>
           if mem s p i AND PTE_P = 0 then Ok None s
           else kbind (pa2page (mem s p i) s) (\<lambda>pp s. Ok (Some (pp, (p, i))) s))"

definition page_remove :: "nat option \<Rightarrow> u32 \<Rightarrow> kstate \<Rightarrow> (unit, kstate) kres" where
  "page_remove pgdir va s =
     kbind (page_lookup pgdir va s) (\<lambda>r s.
       case r of None \<Rightarrow> Ok () s
       | Some (pp, (p, i)) \<Rightarrow>
           kbind (page_decref pp s) (\<lambda>_ s.
             let s = wr p i 0 s in
             if ismp s then
               kbind (spin_lock tlb_lock tlb_lock_update s) (\<lambda>_ s.
                 let s = hw (Ipi_broadcast T_TLBFLUSH) s;
                     s = tlb_invalidate pgdir va s;
                     s = s\<lparr>tlb_va := va\<rparr>
                 in kbind (tlb_invalidate_cur va s) (\<lambda>_ s. Ok () (spin_unlock tlb_lock_update s)))
             else Ok () (tlb_invalidate pgdir va s)))"

definition page_insert :: "nat option \<Rightarrow> nat \<Rightarrow> u32 \<Rightarrow> u32 \<Rightarrow> kstate \<Rightarrow> (int, kstate) kres" where
  "page_insert pgdir pp va perm s =
     kbind (pgdir_walk pgdir va True s) (\<lambda>r s.
       case r of None \<Rightarrow> Ok (- E_NO_MEM) s
       | Some (p, i) \<Rightarrow>
           let s = atomic_inc pp s in
           kbind (if mem s p i AND PTE_P \<noteq> 0 then page_remove pgdir va s else Ok () s) (\<lambda>_ s.
           let w = page2pa pp OR perm OR PTE_P in
           kbind (if booted s \<noteq> 0 \<and> ismp s then
                    kbind (kassert (mem s p i AND PTE_P = 0) ''assertion failed: !(*p & PTE_P)'' s) (\<lambda>_ s.
                      store_shootdown p i w va s)
                  else Ok () (wr p i w s)) (\<lambda>_ s.
           Ok 0 s)))"

text \<open>The loop counter of \<^verbatim>\<open>boot_map_segment\<close> runs over \<^verbatim>\<open>size / PGSIZE\<close> pages.\<close>

definition boot_map_segment :: "nat option \<Rightarrow> u32 \<Rightarrow> u32 \<Rightarrow> u32 \<Rightarrow> u32 \<Rightarrow> kstate \<Rightarrow> (unit, kstate) kres" where
  "boot_map_segment pgdir la sz pa perm s =
     kfor [0..<unat (sz div PGSIZE)] (\<lambda>i s.
       kbind (pgdir_walk pgdir (la + of_nat i * PGSIZE) True s) (\<lambda>r s.
         case r of None \<Rightarrow> Panic ''page fault''
         | Some (p, j) \<Rightarrow> Ok () (wr p j ((pa + PGSIZE * of_nat i) OR perm OR PTE_P) s))) s"

text \<open>
  The loop of \<^verbatim>\<open>user_mem_check\<close>. Its bound \<^verbatim>\<open>(b - e) / PGSIZE\<close> is recomputed from the advancing \<^verbatim>\<open>b\<close>,
  and its body tests the address \<^verbatim>\<open>va\<close> in every round.
\<close>

function user_mem_check_loop ::
  "nat option \<Rightarrow> u32 \<Rightarrow> u32 \<Rightarrow> u32 \<Rightarrow> nat \<Rightarrow> u32 \<Rightarrow> kstate \<Rightarrow> (u32 option, kstate) kres" where
  "user_mem_check_loop pgdir va perm e i b s =
     (if i < unat ((b - e) div PGSIZE) then
        if va \<ge> ULIM then Ok (Some b) s
        else kbind (pgdir_walk pgdir va False s) (\<lambda>r s.
          case r of None \<Rightarrow> Ok (Some b) s
          | Some (p, j) \<Rightarrow>
              if mem s p j AND perm \<noteq> perm then Ok (Some b) s
              else user_mem_check_loop pgdir va perm e (i + 1) (b + PGSIZE) s)
      else Ok None s)"
  by pat_completeness auto

termination
proof (relation "measure (\<lambda>(pgdir, va, perm, e, i, b, s). 2 ^ 32 - i)")
  fix va perm e i s and b :: u32
  assume "i < unat ((b - e) div PGSIZE)"
  also have "\<dots> \<le> unat (b - e)"
    by (simp add: unat_div)
  also have "\<dots> < 2 ^ 32"
    using unat_u32_less by simp
  finally show "((pgdir, va, perm, e, i + 1, b + PGSIZE, s'), (pgdir, va, perm, e, i, b, s))
    \<in> measure (\<lambda>(pgdir, va, perm, e, i, b, s). 2 ^ 32 - i)" for pgdir :: "nat option" and s' :: kstate
    by simp
qed simp

declare user_mem_check_loop.simps [simp del]

definition user_mem_check :: "nat \<Rightarrow> u32 \<Rightarrow> u32 \<Rightarrow> u32 \<Rightarrow> kstate \<Rightarrow> (int, kstate) kres" where
  "user_mem_check env va len perm s =
     (let b = ROUNDDOWN va PGSIZE;
          e = ROUNDUP (va + len) PGSIZE
      in kbind (user_mem_check_loop (env_pgdir (envs s env)) va perm e 0 b s) (\<lambda>r s.
           case r of None \<Rightarrow> Ok 0 s
           | Some b \<Rightarrow> Ok (- E_FAULT) (s\<lparr>user_mem_check_addr := (if b > va then b else va)\<rparr>)))"

section \<open>The references of a kernel state\<close>

text \<open>The page a directory or page table entry refers to.\<close>

definition pte_target :: "u32 \<Rightarrow> nat option" where
  "pte_target w = (if w AND PTE_P \<noteq> 0 then Some (unat (PPN w)) else None)"

definition dir_of :: "kstate \<Rightarrow> nat \<Rightarrow> nat option" where
  "dir_of s i = (if i < NENV then env_pgdir (envs s i) else None)"

definition pde_of :: "kstate \<Rightarrow> nat \<Rightarrow> nat \<Rightarrow> nat option" where
  "pde_of s i d = (if d < NPDE then Option.bind (dir_of s i) (\<lambda>p. pte_target (mem s p d)) else None)"

definition pte_of :: "kstate \<Rightarrow> nat \<Rightarrow> nat \<Rightarrow> nat \<Rightarrow> nat option" where
  "pte_of s i d t = (if t < 1024 then Option.bind (pde_of s i d) (\<lambda>p. pte_target (mem s p t)) else None)"

fun target :: "kstate \<Rightarrow> slot \<Rightarrow> nat option" where
  "target s (Dir i) = dir_of s i"
| "target s (Pd i d) = pde_of s i d"
| "target s (Pt i d t) = pte_of s i d t"

lemmas slot_defs = dir_of_def pde_of_def pte_of_def

text \<open>Pages of the kernel state: accounting, physical bounds and the template directory.\<close>

text \<open>
  The kernel's part of a page directory: the entries from \<^verbatim>\<open>UTOP\<close> upwards are those of the boot page
  directory, except for the two slots that refer to the directory itself.
\<close>

definition kern_pde :: "kstate \<Rightarrow> nat \<Rightarrow> nat \<Rightarrow> u32" where
  "kern_pde s pd d =
     (if d = unat (PDX VPT) then page2pa pd OR PTE_P OR PTE_W
      else if d = unat (PDX UVPT) then page2pa pd OR PTE_P OR PTE_U
      else mem s (boot_pgdir s) d)"

definition kmap :: "kstate \<Rightarrow> bool" where
  "kmap s \<longleftrightarrow>
     (\<forall>i pd d. dir_of s i = Some pd \<longrightarrow> NPDE \<le> d \<longrightarrow> d < 1024 \<longrightarrow> mem s pd d = kern_pde s pd d)
     \<and> (\<forall>d p. NPDE \<le> d \<longrightarrow> pte_target (mem s (boot_pgdir s) d) = Some p \<longrightarrow> p < npage s)"

definition minv :: "nat set \<Rightarrow> nat set \<Rightarrow> nat set \<Rightarrow> kstate \<Rightarrow> bool" where
  "minv M A H s \<longleftrightarrow>
     refinv M A H (target s) (pp_ref s) (page_free_list s)
     \<and> (\<forall>p \<in> M. p < npage s) \<and> npage s \<le> 2 ^ 20
     \<and> boot_pgdir s \<notin> M \<and> (\<forall>d < NPDE. pte_target (mem s (boot_pgdir s) d) = None) \<and> kmap s"

text \<open>The spin locks of the memory code are free, and the current environment is known when a
  shootdown needs it.\<close>

definition tlb_ready :: "kstate \<Rightarrow> bool" where
  "tlb_ready s \<longleftrightarrow> \<not> page_table_lock s \<and> \<not> tlb_lock s \<and> (ismp s \<longrightarrow> curenv s \<noteq> None)"

text \<open>What the memory operations may change.\<close>

definition pframe :: "kstate \<Rightarrow> kstate \<Rightarrow> bool" where
  "pframe s s' \<longleftrightarrow> s' = s\<lparr>pp_ref := pp_ref s', page_free_list := page_free_list s', mem := mem s',
                          tlb_va := tlb_va s', hw_log := hw_log s'\<rparr>"

lemma pframe_refl [simp]: "pframe s s"
  by (simp add: pframe_def)

lemma pframeI:
  "s' = s\<lparr>pp_ref := r, page_free_list := q, mem := m, tlb_va := v, hw_log := l\<rparr> \<Longrightarrow> pframe s s'"
  by (simp add: pframe_def)

lemma pframeE:
  assumes "pframe s s'"
  obtains r q m v l where "s' = s\<lparr>pp_ref := r, page_free_list := q, mem := m, tlb_va := v, hw_log := l\<rparr>"
  using assms unfolding pframe_def by blast

lemma pframe_trans: "pframe s s' \<Longrightarrow> pframe s' s'' \<Longrightarrow> pframe s s''"
  by (elim pframeE) (rule pframeI, simp)

lemma pframe_simps:
  assumes "pframe s s'"
  shows "envs s' = envs s" "npage s' = npage s" "boot_pgdir s' = boot_pgdir s" "ismp s' = ismp s"
    "booted s' = booted s" "curenv s' = curenv s" "page_table_lock s' = page_table_lock s"
    "tlb_lock s' = tlb_lock s" "env_free_list s' = env_free_list s"
    "env_table_lock s' = env_table_lock s" "boot_cr3 s' = boot_cr3 s" "tlb_ready s' = tlb_ready s"
    "sched_pre s' = sched_pre s" "ticks s' = ticks s"
    "dir_of s' = dir_of s" "cons s' = cons s" "nic s' = nic s"
  using assms by (auto elim!: pframeE simp: tlb_ready_def dir_of_def fun_eq_iff)

lemma target_cong:
  assumes "mem s' = mem s" and "\<And>i. i < NENV \<Longrightarrow> env_pgdir (envs s' i) = env_pgdir (envs s i)"
  shows "target s' = target s"
proof
  fix sl
  show "target s' sl = target s sl"
    using assms by (cases sl) (auto simp: slot_defs)
qed

lemma target_irrelevant [simp]:
  "target (s\<lparr>page_free_list := q\<rparr>) = target s" "target (s\<lparr>pp_ref := r\<rparr>) = target s"
  "target (s\<lparr>tlb_va := v\<rparr>) = target s" "target (s\<lparr>hw_log := l\<rparr>) = target s"
  "target (s\<lparr>page_table_lock := b\<rparr>) = target s" "target (s\<lparr>tlb_lock := b\<rparr>) = target s"
  by (rule target_cong; simp)+

section \<open>Page table entries\<close>

lemma PTE_P_bit: "w AND PTE_P = 0 \<longleftrightarrow> \<not> bit w 0" for w :: u32
  by (simp add: PTE_P_def and_one_eq bit_0 even_iff_mod_2_eq_zero)

lemma unat_PPN_page2pa: "p < 2 ^ 20 \<Longrightarrow> unat (PPN (page2pa p)) = p"
  by (simp add: PPN_def PTXSHIFT_def page2pa_def page2ppn_def PGSHIFT_def unat_drop_bit
      push_bit_eq_mult unat_word_ariths unat_of_nat)

lemma PPN_or: "PPN (a OR b) = PPN a OR PPN b"
  by (simp add: PPN_def)

lemma PPN_PTE_ADDR [simp]: "PPN (PTE_ADDR w) = PPN w"
  unfolding addr_macros by (rule bit_word_eqI) (auto simp: bit_simps mask_numerals dest: bit_imp_le_length)

lemma pte_target_make:
  assumes "p < 2 ^ 20" and "PPN perm = 0"
  shows "pte_target (page2pa p OR perm OR PTE_P) = Some p"
proof -
  have "PPN PTE_P = 0"
    by (simp add: PPN_def PTE_P_def PTXSHIFT_def)
  then show ?thesis
    using assms unat_PPN_page2pa [OF assms(1)]
    by (simp add: pte_target_def PTE_P_bit bit_simps PPN_or) (simp add: PTE_P_def)
qed

lemma pte_target_0 [simp]: "pte_target 0 = None"
  by (simp add: pte_target_def)

lemma kernel_pdes: "\<not> unat (PDX VPT) < NPDE" "\<not> unat (PDX UVPT) < NPDE"
  by (simp_all add: const_defs addr_macros)

lemma PDX_below_UTOP: "va < UTOP \<Longrightarrow> unat (PDX va) < NPDE"
  by (simp add: unat_PDX const_defs word_less_nat_alt)

section \<open>How stores change the references\<close>

lemma minvD:
  assumes "minv M A H s"
  shows "refinv M A H (target s) (pp_ref s) (page_free_list s)"
    and "\<And>p. p \<in> M \<Longrightarrow> p < npage s" and "npage s \<le> 2 ^ 20" and "boot_pgdir s \<notin> M"
    and "\<And>d. d < NPDE \<Longrightarrow> pte_target (mem s (boot_pgdir s) d) = None" and "kmap s"
  using assms by (simp_all add: minv_def)

lemma kmap_change:
  assumes "kmap s" and same: "npage s' = npage s" "boot_pgdir s' = boot_pgdir s" "mem s' (boot_pgdir s) = mem s (boot_pgdir s)"
    and dirs: "\<And>i pd d. dir_of s' i = Some pd \<Longrightarrow> NPDE \<le> d \<Longrightarrow> d < 1024 \<Longrightarrow>
           dir_of s i = Some pd \<and> mem s' pd d = mem s pd d \<or> mem s' pd d = kern_pde s pd d"
  shows "kmap s'"
proof -
  have "kern_pde s' = kern_pde s"
    using same by (simp add: fun_eq_iff kern_pde_def)
  then show ?thesis
    using assms(1) dirs unfolding kmap_def same by metis
qed

lemma minv_cong:
  assumes "mem s' = mem s" and "\<And>i. i < NENV \<Longrightarrow> env_pgdir (envs s' i) = env_pgdir (envs s i)"
    and "pp_ref s' = pp_ref s" "page_free_list s' = page_free_list s" "npage s' = npage s" "boot_pgdir s' = boot_pgdir s"
  shows "minv M A H s' = minv M A H s"
proof -
  have "dir_of s' = dir_of s"
    using assms(2) by (simp add: fun_eq_iff dir_of_def)
  moreover have "target s' = target s"
    using assms(1,2) by (rule target_cong)
  ultimately show ?thesis
    by (simp add: minv_def kmap_def kern_pde_def assms)
qed

lemma minv_managed: "minv M A H s \<Longrightarrow> target s sl = Some p \<Longrightarrow> p \<in> M"
  using refinvD(8) [OF minvD(1)] by blast

lemma minv_npage: "minv M A H s \<Longrightarrow> target s sl = Some p \<Longrightarrow> p < npage s"
  using minv_managed minvD(2) by blast

lemma minv_exclusive:
  "minv M A H s \<Longrightarrow> \<not> is_Pt sl \<Longrightarrow> target s sl = Some p \<Longrightarrow> target s sl' = Some p \<Longrightarrow> sl' = sl"
  using refinvD(10) [OF minvD(1)] by blast

lemma wr_simps [simp]:
  "mem (wr p i w s) = (mem s)(p := (mem s p)(i := w))" "envs (wr p i w s) = envs s"
  "dir_of (wr p i w s) = dir_of s" "pp_ref (wr p i w s) = pp_ref s"
  "page_free_list (wr p i w s) = page_free_list s" "npage (wr p i w s) = npage s"
  "boot_pgdir (wr p i w s) = boot_pgdir s" "ismp (wr p i w s) = ismp s" "booted (wr p i w s) = booted s"
  "curenv (wr p i w s) = curenv s" "tlb_lock (wr p i w s) = tlb_lock s"
  by (simp_all add: wr_def dir_of_def fun_eq_iff)

lemma pde_of_cases:
  "pde_of s i d = (if d < NPDE then case dir_of s i of None \<Rightarrow> None | Some p \<Rightarrow> pte_target (mem s p d) else None)"
  by (simp add: pde_of_def split: option.split)

lemma pte_of_cases:
  "pte_of s i d t = (if t < 1024 then case pde_of s i d of None \<Rightarrow> None | Some p \<Rightarrow> pte_target (mem s p t) else None)"
  by (simp add: pte_of_def split: option.split)

lemma target_write_pte:
  assumes inv: "minv M A H s" and pt: "target s (Pd i d) = Some pt" and t: "t < 1024"
  shows "target (wr pt t w s) = (target s)(Pt i d t := pte_target w)"
proof -
  have dir: "dir_of s j \<noteq> Some pt" for j
    using minv_exclusive [OF inv, of "Pd i d" pt "Dir j"] pt by auto
  have excl: "pde_of s j e = Some pt \<Longrightarrow> j = i \<and> e = d" for j e
    using minv_exclusive [OF inv, of "Pd i d" pt "Pd j e"] pt by auto
  have pde: "pde_of (wr pt t w s) j e = pde_of s j e" for j e
    using dir [of j] by (cases "dir_of s j") (simp_all add: pde_of_cases)
  show ?thesis
  proof
    fix sl
    show "target (wr pt t w s) sl = ((target s)(Pt i d t := pte_target w)) sl"
    proof (cases sl)
      case (Pt j e u)
      show ?thesis
        using excl [of j e] pt t Pt by (cases "pde_of s j e") (auto simp: pte_of_cases pde)
    qed (simp_all add: pde)
  qed
qed

lemma target_write_pde:
  assumes inv: "minv M A H s" and pd: "target s (Dir i) = Some pd" and d: "d < NPDE"
    and old: "\<And>t. target s (Pt i d t) = None"
    and new: "\<And>pt t. pte_target w = Some pt \<Longrightarrow> t < 1024 \<Longrightarrow> pt \<noteq> pd \<and> pte_target (mem s pt t) = None"
  shows "target (wr pd d w s) = (target s)(Pd i d := pte_target w)"
proof -
  have dir: "dir_of s j = Some pd \<Longrightarrow> j = i" for j
    using minv_exclusive [OF inv, of "Dir i" pd "Dir j"] pd by auto
  have pdne: "pde_of s j e \<noteq> Some pd" for j e
    using minv_exclusive [OF inv, of "Dir i" pd "Pd j e"] pd by auto
  have pde: "pde_of (wr pd d w s) j e = (if j = i \<and> e = d then pte_target w else pde_of s j e)" for j e
    using dir [of j] pd d by (cases "dir_of s j") (auto simp: pde_of_cases)
  show ?thesis
  proof
    fix sl
    show "target (wr pd d w s) sl = ((target s)(Pd i d := pte_target w)) sl"
    proof (cases sl)
      case (Pt j e u)
      show ?thesis
      proof (cases "j = i \<and> e = d")
        case True
        then have "pte_of (wr pd d w s) j e u = None"
          using new [of _ u] by (cases "pte_target w") (auto simp: pte_of_cases pde)
        then show ?thesis
          using old [of u] Pt True by simp
      next
        case False
        then show ?thesis
          using pdne [of j e] Pt by (cases "pde_of s j e") (auto simp: pte_of_cases pde)
      qed
    qed (auto simp: pde)
  qed
qed

text \<open>Pages nothing refers to may be overwritten freely.\<close>

lemma target_mem_other:
  assumes "\<And>q. refs (target s) q \<noteq> {} \<Longrightarrow> mem s' q = mem s q" and "dir_of s' = dir_of s"
  shows "target s' = target s"
proof -
  have m: "mem s' q = mem s q" if "target s sl = Some q" for sl q
    using assms(1) [of q] that by (auto simp: refs_def)
  have pde: "pde_of s' j e = pde_of s j e" for j e
    using m [of "Dir j"] assms(2) by (cases "dir_of s j") (simp_all add: pde_of_cases)
  have pte: "pte_of s' j e t = pte_of s j e t" for j e t
    using m [of "Pd j e"] pde by (cases "pde_of s j e") (simp_all add: pte_of_cases)
  show ?thesis
  proof
    fix sl
    show "target s' sl = target s sl"
      using assms(2) pde pte by (cases sl) simp_all
  qed
qed

lemma minv_frame:
  assumes "minv M A H s" and "pframe s s'"
    and "refinv M A' H' (target s') (pp_ref s') (page_free_list s')"
    and "mem s' (boot_pgdir s) = mem s (boot_pgdir s)"
    and "\<And>i pd d. dir_of s i = Some pd \<Longrightarrow> NPDE \<le> d \<Longrightarrow> mem s' pd d = mem s pd d"
  shows "minv M A' H' s'"
proof -
  have "kmap s'"
    by (rule kmap_change [OF minvD(6) [OF assms(1)]]) (use assms(4,5) pframe_simps [OF assms(2)] in auto)
  then show ?thesis
    using assms(1,3,4) pframe_simps [OF assms(2)] by (simp add: minv_def)
qed

lemma table_not_dir: "minv M A H s \<Longrightarrow> pde_of s i d = Some pt \<Longrightarrow> dir_of s j \<noteq> Some pt"
  using minv_exclusive [of M A H s "Dir j" pt "Pd i d"] by auto

section \<open>Allocating and freeing pages\<close>

lemma unlock_id:
  "\<not> page_table_lock s \<Longrightarrow> s\<lparr>page_table_lock := False\<rparr> = s"
  "\<not> tlb_lock s \<Longrightarrow> s\<lparr>tlb_lock := False\<rparr> = s"
  by (cases s, simp)+

lemma unlock_free_list:
  "\<not> page_table_lock s \<Longrightarrow> s\<lparr>page_free_list := q, page_table_lock := False\<rparr> = s\<lparr>page_free_list := q\<rparr>"
  by (cases s) simp

lemmas page_table_locking = spin_lock_def spin_unlock_def unlock_id unlock_free_list

lemma kmap_free_list: "kmap (s\<lparr>page_free_list := q\<rparr>) = kmap s"
  by (simp add: kmap_def kern_pde_def dir_of_def)

lemma page_alloc_spec:
  assumes inv: "minv M A H s" and lock: "\<not> page_table_lock s"
  obtains (none) "page_alloc s = Ok (Inl (- E_NO_MEM)) s" "LIST_FIRST (page_free_list s) = None"
  | (some) p q where "page_alloc s = Ok (Inr p) (s\<lparr>page_free_list := q\<rparr>)"
      "minv M (insert p A) H (s\<lparr>page_free_list := q\<rparr>)"
      "p \<in> M" "p \<notin> A" "p \<notin> H" "refs (target s) p = {}" "pp_ref s p = 0"
proof (cases "LIST_FIRST (page_free_list s)")
  case None
  then show ?thesis
    using lock by (intro none) (simp_all add: page_alloc_def LIST_EMPTY_def LIST_FIRST_def page_table_locking)
next
  case (Some p)
  then obtain q where q: "LIST_REMOVE p (page_free_list s) = Some q"
    "refinv M (insert p A) H (target s) (pp_ref s) q"
    "p \<in> M" "p \<notin> A" "p \<notin> H" "refs (target s) p = {}" "pp_ref s p = 0"
    by (rule refinv_take [OF minvD(1) [OF inv]])
  have "page_alloc s = Ok (Inr p) (s\<lparr>page_free_list := q\<rparr>)"
    using Some q(1) lock
    by (simp add: page_alloc_def LIST_EMPTY_def LIST_FIRST_def page_table_locking)
  moreover have "minv M (insert p A) H (s\<lparr>page_free_list := q\<rparr>)"
    using q(2) inv by (simp add: minv_def kmap_free_list)
  ultimately show ?thesis
    using q by (intro some)
qed

lemma page_free_spec:
  assumes inv: "minv M A H s" and lock: "\<not> page_table_lock s" and p: "p \<in> A"
  shows "page_free p s = Ok () (s\<lparr>page_free_list := LIST_INSERT_HEAD p (page_free_list s)\<rparr>)"
    and "minv M (A - {p}) H (s\<lparr>page_free_list := LIST_INSERT_HEAD p (page_free_list s)\<rparr>)"
  using refinv_give [OF minvD(1) [OF inv] p] lock inv
  by (simp_all add: page_free_def page_table_locking minv_def kmap_free_list)

text \<open>What \<^verbatim>\<open>page_decref\<close> does to the counts and the free list.\<close>

definition decref :: "nat \<Rightarrow> kstate \<Rightarrow> kstate" where
  "decref p s = s\<lparr>pp_ref := (pp_ref s)(p := pp_ref s p - 1),
     page_free_list := (if pp_ref s p - 1 = 0 then LIST_INSERT_HEAD p (page_free_list s) else page_free_list s)\<rparr>"

lemma page_decref_eq:
  assumes "\<not> page_table_lock s" and "0 < pp_ref s p"
  shows "page_decref p s = Ok () (decref p s)"
  using assms
  by (cases s) (simp add: page_decref_def decref_def page_free_def atomic_dec_and_test_def
      spin_lock_def spin_unlock_def)

lemma decref_simps [simp]:
  "mem (decref p s) = mem s" "envs (decref p s) = envs s"
  "page_table_lock (decref p s) = page_table_lock s" "tlb_lock (decref p s) = tlb_lock s"
  "curenv (decref p s) = curenv s" "ismp (decref p s) = ismp s" "booted (decref p s) = booted s"
  "npage (decref p s) = npage s"
  by (simp_all add: decref_def)

lemma target_decref [simp]: "target (decref p s) = target s"
  by (rule target_cong) simp_all

lemma pframe_decref [simp]: "pframe s (decref p s)"
  by (simp add: pframe_def decref_def)

lemma pframe_wr [simp]: "pframe s (wr p i w s)"
  by (simp add: pframe_def wr_def)

section \<open>Walking and unmapping\<close>

lemma pgdir_walk_find:
  assumes inv: "minv M A H s" and pd: "dir_of s i = Some pd" and d: "unat (PDX va) < NPDE"
  shows "pgdir_walk (Some pd) va False s =
           Ok (map_option (\<lambda>pt. (pt, unat (PTX va))) (pde_of s i (unat (PDX va)))) s"
proof (cases "pte_target (mem s pd (unat (PDX va)))")
  case None
  then show ?thesis
    using pd d by (simp add: pgdir_walk_def Let_def pde_of_cases pte_target_def split: if_splits)
next
  case (Some pt)
  then have pde: "pde_of s i (unat (PDX va)) = Some pt"
    using pd d by (simp add: pde_of_cases)
  then have "pt < npage s"
    using minv_npage [OF inv, of "Pd i (unat (PDX va))"] by simp
  then show ?thesis
    using Some pde by (auto simp: pgdir_walk_def Let_def KADDR_def pte_target_def split: if_splits)
qed

lemma page_lookup_find:
  assumes inv: "minv M A H s" and pd: "dir_of s i = Some pd" and d: "unat (PDX va) < NPDE"
  shows "page_lookup (Some pd) va s =
           Ok (Option.bind (pde_of s i (unat (PDX va)))
                (\<lambda>pt. map_option (\<lambda>p. (p, (pt, unat (PTX va)))) (pte_of s i (unat (PDX va)) (unat (PTX va))))) s"
proof (cases "pde_of s i (unat (PDX va))")
  case None
  then show ?thesis
    by (simp add: page_lookup_def pgdir_walk_find [OF assms])
next
  case (Some pt)
  let ?w = "mem s pt (unat (PTX va))"
  have pte: "pte_of s i (unat (PDX va)) (unat (PTX va)) = pte_target ?w"
    by (simp add: pte_of_cases Some)
  have "pte_target ?w = Some p \<Longrightarrow> p < npage s" for p
    using minv_npage [OF inv, of "Pt i (unat (PDX va)) (unat (PTX va))"] pte by simp
  then show ?thesis
    using Some pte
    by (auto simp: page_lookup_def pgdir_walk_find [OF assms] pa2page_def pte_target_def split: if_splits)
qed

text \<open>A state that differs only in the shootdown address and the log.\<close>

definition quiet :: "kstate \<Rightarrow> kstate \<Rightarrow> bool" where
  "quiet s s' \<longleftrightarrow> s' = s\<lparr>tlb_va := tlb_va s', hw_log := hw_log s'\<rparr>"

lemma quiet_refl [simp]: "quiet s s"
  by (simp add: quiet_def)

lemma quietI: "s' = s\<lparr>tlb_va := v, hw_log := l\<rparr> \<Longrightarrow> quiet s s'"
  by (simp add: quiet_def)

lemma quiet_simps:
  assumes "quiet s s'"
  shows "mem s' = mem s" "pp_ref s' = pp_ref s" "page_free_list s' = page_free_list s"
    "envs s' = envs s" "target s' = target s" "pframe s s'" "booted s' = booted s"
    "tlb_ready s' = tlb_ready s" "ismp s' = ismp s" "curenv s' = curenv s" "tlb_lock s' = tlb_lock s"
    "page_table_lock s' = page_table_lock s"
proof -
  obtain v l where s': "s' = s\<lparr>tlb_va := v, hw_log := l\<rparr>"
    using assms unfolding quiet_def by blast
  show "target s' = target s"
    unfolding s' by (rule target_cong) simp_all
  show "pframe s s'"
    unfolding s' pframe_def by simp
  show "mem s' = mem s" "pp_ref s' = pp_ref s" "page_free_list s' = page_free_list s"
    "envs s' = envs s" "booted s' = booted s" "tlb_ready s' = tlb_ready s" "ismp s' = ismp s"
    "curenv s' = curenv s" "tlb_lock s' = tlb_lock s" "page_table_lock s' = page_table_lock s"
    unfolding s' by (simp_all add: tlb_ready_def)
qed

lemma store_shootdown_eq:
  assumes "\<not> tlb_lock s" and "curenv s \<noteq> None"
  obtains s' where "store_shootdown p i w va s = Ok () s'" and "quiet (wr p i w s) s'"
proof -
  obtain e where e: "curenv s = Some e"
    using assms(2) by blast
  let ?s' = "(wr p i w s)\<lparr>tlb_va := va, hw_log := Invlpg va # Ipi_broadcast T_TLBFLUSH # hw_log s\<rparr>"
  have "store_shootdown p i w va s = Ok () ?s'"
    using assms(1) e
    by (cases s) (simp add: store_shootdown_def spin_lock_def spin_unlock_def tlb_invalidate_cur_def
        tlb_invalidate_def the_curenv_def hw_def wr_def)
  then show ?thesis
    using that quietI by blast
qed

lemma remove_shootdown_eq:
  assumes "\<not> tlb_lock s" and "curenv s \<noteq> None"
  obtains s' where "kbind (spin_lock tlb_lock tlb_lock_update s) (\<lambda>_ s.
      let s = hw (Ipi_broadcast T_TLBFLUSH) s; s = tlb_invalidate pgdir va s; s = s\<lparr>tlb_va := va\<rparr>
      in kbind (tlb_invalidate_cur va s) (\<lambda>_ s. Ok () (spin_unlock tlb_lock_update s))) = Ok () s'"
    and "quiet s s'"
proof -
  obtain e where e: "curenv s = Some e"
    using assms(2) by blast
  let ?l = "hw_log (tlb_invalidate pgdir va (hw (Ipi_broadcast T_TLBFLUSH) s))"
  let ?s' = "s\<lparr>tlb_va := va, hw_log := Invlpg va # ?l\<rparr>"
  have "kbind (spin_lock tlb_lock tlb_lock_update s) (\<lambda>_ s.
      let s = hw (Ipi_broadcast T_TLBFLUSH) s; s = tlb_invalidate pgdir va s; s = s\<lparr>tlb_va := va\<rparr>
      in kbind (tlb_invalidate_cur va s) (\<lambda>_ s. Ok () (spin_unlock tlb_lock_update s))) = Ok () ?s'"
    using assms(1) e
    by (cases s) (simp add: spin_lock_def spin_unlock_def hw_def
        tlb_invalidate_cur_def tlb_invalidate_def the_curenv_def)
  then show ?thesis
    using that quietI by blast
qed

lemma page_remove_unmapped:
  assumes "minv M A H s" and "dir_of s i = Some pd" and "unat (PDX va) < NPDE"
    and "pte_of s i (unat (PDX va)) (unat (PTX va)) = None"
  shows "page_remove (Some pd) va s = Ok () s"
  by (simp add: page_remove_def page_lookup_find [OF assms(1-3)] assms(4) bind_eq_None_conv
      split: bind_split)

lemma page_remove_mapped:
  assumes inv: "minv M A H s" and pd: "dir_of s i = Some pd" and d: "unat (PDX va) < NPDE"
    and pde: "pde_of s i (unat (PDX va)) = Some pt"
    and pte: "pte_of s i (unat (PDX va)) (unat (PTX va)) = Some p" and ready: "tlb_ready s"
  obtains s' where "page_remove (Some pd) va s = Ok () s'"
    and "quiet (wr pt (unat (PTX va)) 0 (decref p s)) s'"
proof -
  let ?t = "wr pt (unat (PTX va)) 0 (decref p s)"
  have "0 < pp_ref s p"
    using refinv_drop(2) [OF minvD(1) [OF inv], of "Pt i (unat (PDX va)) (unat (PTX va))"] pte by simp
  then have dec: "page_decref p s = Ok () (decref p s)"
    using ready by (intro page_decref_eq) (simp_all add: tlb_ready_def)
  have look: "page_lookup (Some pd) va s = Ok (Some (p, (pt, unat (PTX va)))) s"
    by (simp add: page_lookup_find [OF inv pd d] pde pte)
  show ?thesis
  proof (cases "ismp s")
    case False
    let ?s' = "tlb_invalidate (Some pd) va ?t"
    have "page_remove (Some pd) va s = Ok () ?s'"
      using False by (simp add: page_remove_def look dec Let_def)
    moreover have "quiet ?t ?s'"
      by (auto simp: tlb_invalidate_def quiet_def hw_def split: option.split)
    ultimately show ?thesis
      using that by blast
  next
    case True
    then have "\<not> tlb_lock ?t" "curenv ?t \<noteq> None"
      using ready by (simp_all add: tlb_ready_def)
    then show ?thesis
    proof (rule remove_shootdown_eq [where pgdir = "Some pd" and va = va])
      fix s'
      assume "quiet ?t s'"
        and "kbind (spin_lock tlb_lock tlb_lock_update ?t) (\<lambda>_ s.
          let s = hw (Ipi_broadcast T_TLBFLUSH) s; s = tlb_invalidate (Some pd) va s; s = s\<lparr>tlb_va := va\<rparr>
          in kbind (tlb_invalidate_cur va s) (\<lambda>_ s. Ok () (spin_unlock tlb_lock_update s))) = Ok () s'"
      then show thesis
        using True by (intro that) (simp_all add: page_remove_def look dec Let_def)
    qed
  qed
qed

lemma boot_pgdir_not_target: "minv M A H s \<Longrightarrow> target s sl \<noteq> Some (boot_pgdir s)"
  using minv_managed minvD(4) by blast

lemma page_remove_spec:
  assumes inv: "minv M A H s" and ready: "tlb_ready s" and pd: "dir_of s i = Some pd"
    and d: "unat (PDX va) < NPDE"
  obtains s' where "page_remove (Some pd) va s = Ok () s'" "pframe s s'" "minv M A H s'"
    "target s' = (target s)(Pt i (unat (PDX va)) (unat (PTX va)) := None)"
    "\<And>q j. mem s' q j = (if pde_of s i (unat (PDX va)) = Some q \<and> j = unat (PTX va)
                            \<and> pte_of s i (unat (PDX va)) j \<noteq> None then 0 else mem s q j)"
proof (cases "pte_of s i (unat (PDX va)) (unat (PTX va))")
  case None
  then show ?thesis
    using page_remove_unmapped [OF inv pd d None] inv
    by (intro that [of s]) (auto simp: fun_upd_idem)
next
  case (Some p)
  let ?sl = "Pt i (unat (PDX va)) (unat (PTX va))"
  obtain pt where pde: "pde_of s i (unat (PDX va)) = Some pt"
    using Some by (auto simp: pte_of_cases split: option.splits)
  obtain s' where s': "page_remove (Some pd) va s = Ok () s'"
    and q: "quiet (wr pt (unat (PTX va)) 0 (decref p s)) s'"
    by (rule page_remove_mapped [OF inv pd d pde Some ready])
  note Q = quiet_simps [OF q]
  have fr: "pframe s s'"
    using pframe_trans Q(6) pframe_wr pframe_decref by blast
  have "target s' = target (wr pt (unat (PTX va)) 0 s)"
    unfolding Q(5) by (rule target_cong) simp_all
  then have T: "target s' = (target s)(?sl := None)"
    using target_write_pte [OF inv, of i "unat (PDX va)" pt "unat (PTX va)" 0] pde by simp
  have "refinv M A H (target s') (pp_ref s') (page_free_list s')"
    using refinv_drop(1) [OF minvD(1) [OF inv], of ?sl p] Some unfolding T Q(2,3) by (simp add: decref_def)
  moreover have "boot_pgdir s \<noteq> pt"
    using boot_pgdir_not_target [OF inv, of "Pd i (unat (PDX va))"] pde by auto
  ultimately have "minv M A H s'"
    using Q(1) table_not_dir [OF inv pde] by (intro minv_frame [OF inv fr]) auto
  then show ?thesis
    using s' fr T Q(1) pde Some by (intro that [of s']) auto
qed

section \<open>Creating page tables and mapping\<close>

lemma memset_page_simps [simp]:
  "mem (memset_page p s) = (mem s)(p := (\<lambda>_. 0))" "dir_of (memset_page p s) = dir_of s"
  "pp_ref (memset_page p s) = pp_ref s" "page_free_list (memset_page p s) = page_free_list s"
  "envs (memset_page p s) = envs s" "booted (memset_page p s) = booted s" "ismp (memset_page p s) = ismp s"
  "tlb_lock (memset_page p s) = tlb_lock s" "curenv (memset_page p s) = curenv s"
  "npage (memset_page p s) = npage s" "boot_pgdir (memset_page p s) = boot_pgdir s"
  by (simp_all add: memset_page_def dir_of_def fun_eq_iff)

lemma pframe_memset [simp]: "pframe s (memset_page p s)"
  by (simp add: pframe_def memset_page_def)

lemma pframe_free_list [simp]: "pframe s (s\<lparr>page_free_list := q\<rparr>)"
  by (simp add: pframe_def)

lemma pframe_atomic_inc [simp]: "pframe s (atomic_inc p s)"
  by (simp add: pframe_def atomic_inc_def)

lemma minv_memset:
  assumes inv: "minv M A H s" and p: "p \<in> A"
  shows "minv M A H (memset_page p s)" and "target (memset_page p s) = target s"
proof -
  have "p \<in> M" "refs (target s) p = {}"
    using refinvD(2,6) [OF minvD(1) [OF inv]] p by auto
  show T: "target (memset_page p s) = target s"
    by (rule target_mem_other) (use \<open>refs (target s) p = {}\<close> in auto)
  have "boot_pgdir s \<noteq> p"
    using \<open>p \<in> M\<close> minvD(4) [OF inv] by blast
  then show "minv M A H (memset_page p s)"
    using T minvD(1) [OF inv] \<open>refs (target s) p = {}\<close>
    by (intro minv_frame [OF inv pframe_memset]) (auto simp: refs_def dest: spec [of _ "Dir _"])
qed

lemma minv_ppn: "minv M A H s \<Longrightarrow> p \<in> M \<Longrightarrow> p < 2 ^ 20"
  using minvD(2,3) order_less_le_trans by blast

lemma page2kva_eq: "minv M A H s \<Longrightarrow> p \<in> M \<Longrightarrow> page2kva p s = Ok p s"
  using minvD(2) [of M A H s p] unat_PPN_page2pa [OF minv_ppn, of M A H s p]
  by (simp add: page2kva_def KADDR_def)

text \<open>Storing an entry, with or without a shootdown.\<close>

lemma store_entry:
  assumes "tlb_ready s"
  obtains s' where "(if booted s \<noteq> 0 \<and> ismp s then store_shootdown p i w va s else Ok () (wr p i w s)) = Ok () s'"
    and "quiet (wr p i w s) s'"
proof (cases "booted s \<noteq> 0 \<and> ismp s")
  case True
  then have "\<not> tlb_lock s" "curenv s \<noteq> None"
    using assms by (simp_all add: tlb_ready_def)
  then obtain s' where "store_shootdown p i w va s = Ok () s'" "quiet (wr p i w s) s'"
    by (rule store_shootdown_eq)
  then show ?thesis
    using that [of s'] True by simp
next
  case False
  then show ?thesis
    by (intro that [of "wr p i w s"]) auto
qed

lemma atomic_inc_simps [simp]:
  "mem (atomic_inc p s) = mem s" "target (atomic_inc p s) = target s"
  "page_free_list (atomic_inc p s) = page_free_list s" "npage (atomic_inc p s) = npage s"
  "pp_ref (atomic_inc p s) = (pp_ref s)(p := pp_ref s p + 1)" "dir_of (atomic_inc p s) = dir_of s"
  "boot_pgdir (atomic_inc p s) = boot_pgdir s" "pde_of (atomic_inc p s) = pde_of s"
  "pte_of (atomic_inc p s) = pte_of s"
  by (simp_all add: atomic_inc_def slot_defs fun_eq_iff)

text \<open>Entering a fresh page table into a directory: the accounting of a counted, stored reference.\<close>

lemma minv_new_table:
  assumes inv: "minv M (insert pg A) H s" and pg: "pg \<notin> A"
    and pd: "dir_of s i = Some pd" and d: "d < NPDE" and none: "pde_of s i d = None"
    and zero: "\<And>t. mem s pg t = 0" and perm: "PPN perm = 0"
    and q: "quiet (wr pd d (page2pa pg OR perm OR PTE_P) s) s'"
  shows "minv M A H (atomic_inc pg s')" and "target (atomic_inc pg s') = (target s)(Pd i d := Some pg)"
    and "pframe s (atomic_inc pg s')"
proof -
  note Q = quiet_simps [OF q]
  note R = minvD(1) [OF inv]
  have M: "pg \<in> M" "pg \<notin> H" and ref: "refs (target s) pg = {}"
    using refinvD(2,4,6) [OF R] by auto
  have dir: "target s (Dir i) = Some pd"
    using pd by simp
  have "pg \<noteq> pd"
    using ref dir unfolding refs_def by blast
  note make = pte_target_make [OF minv_ppn [OF inv M(1)] perm]
  have "target (wr pd d (page2pa pg OR perm OR PTE_P) s) = (target s)(Pd i d := Some pg)"
    unfolding make [symmetric]
    by (rule target_write_pde [OF inv dir d])
      (use make zero none \<open>pg \<noteq> pd\<close> in \<open>auto simp: pte_of_cases\<close>)
  then show T: "target (atomic_inc pg s') = (target s)(Pd i d := Some pg)"
    using Q(5) by simp
  show fr: "pframe s (atomic_inc pg s')"
    using pframe_trans Q(6) pframe_wr pframe_atomic_inc by blast
  have "valid_slot (Dir i)"
    using refinvD(9) [OF R dir] .
  then have "refinv M (insert pg A - {pg}) (insert pg H - {pg}) ((target s)(Pd i d := Some pg))
      ((pp_ref s)(pg := pp_ref s pg + 1)) (page_free_list s)"
    using M none d ref by (intro refinv_install refinv_hold R) auto
  moreover have "insert pg A - {pg} = A" "insert pg H - {pg} = H"
    using pg M(2) by auto
  ultimately have "refinv M A H (target (atomic_inc pg s')) (pp_ref (atomic_inc pg s'))
      (page_free_list (atomic_inc pg s'))"
    unfolding T by (simp add: Q(2,3))
  moreover have "boot_pgdir s \<noteq> pd"
    using boot_pgdir_not_target [OF inv, of "Dir i"] dir by auto
  ultimately show "minv M A H (atomic_inc pg s')"
    using Q(1) d by (intro minv_frame [OF inv fr]) auto
qed

text \<open>
  A walk that may create the page table. It fails only when the free list is empty; otherwise the
  directory entry refers to a page table, which is the old one or a page taken from the free list.
\<close>

lemma pgdir_walk_create:
  assumes inv: "minv M A H s" and ready: "tlb_ready s" and pd: "dir_of s i = Some pd"
    and d: "unat (PDX va) < NPDE"
  obtains (fail) "pgdir_walk (Some pd) va True s = Ok None s" "LIST_FIRST (page_free_list s) = None"
      "pde_of s i (unat (PDX va)) = None"
  | (found) pt s' where "pgdir_walk (Some pd) va True s = Ok (Some (pt, unat (PTX va))) s'"
      "pframe s s'" "minv M A H s'" "target s' = (target s)(Pd i (unat (PDX va)) := Some pt)"
      "pde_of s i (unat (PDX va)) = Some pt \<and> s' = s \<or>
       pde_of s i (unat (PDX va)) = None \<and> pt \<notin> A \<and> pt \<notin> H \<and> refs (target s) pt = {}
       \<and> (\<forall>q j. (q, j) \<noteq> (pd, unat (PDX va)) \<longrightarrow> q \<noteq> pt \<longrightarrow> mem s' q j = mem s q j)"
proof (cases "pde_of s i (unat (PDX va))")
  case (Some pt)
  have "pgdir_walk (Some pd) va True s = pgdir_walk (Some pd) va False s"
    using Some pd d by (simp add: pgdir_walk_def Let_def pde_of_cases pte_target_def split: if_splits)
  moreover have "(target s)(Pd i (unat (PDX va)) := Some pt) = target s"
    by (rule fun_upd_idem) (simp add: Some)
  ultimately show ?thesis
    using pgdir_walk_find [OF inv pd d] Some inv by (intro found [of pt s]) simp_all
next
  case None
  let ?d = "unat (PDX va)"
  have np: "mem s pd ?d AND PTE_P = 0"
    using None pd d by (simp add: pde_of_cases pte_target_def split: if_splits)
  show ?thesis
    using inv ready [unfolded tlb_ready_def, THEN conjunct1]
  proof (cases rule: page_alloc_spec)
    case none
    then show ?thesis
      using np None by (intro fail) (simp_all add: pgdir_walk_def Let_def)
  next
    case (some pg q)
    let ?s1 = "memset_page pg (s\<lparr>page_free_list := q\<rparr>)"
    let ?w = "page2pa pg OR (PTE_U OR PTE_W) OR PTE_P"
    have fr1: "pframe s ?s1"
      using pframe_trans [OF pframe_free_list pframe_memset] .
    have ready1: "tlb_ready ?s1"
      using ready pframe_simps(12) [OF fr1] by simp
    obtain s2 where s2: "(if booted ?s1 \<noteq> 0 \<and> ismp ?s1 then store_shootdown pd ?d ?w va ?s1
        else Ok () (wr pd ?d ?w ?s1)) = Ok () s2" and q2: "quiet (wr pd ?d ?w ?s1) s2"
      by (rule store_entry [OF ready1])
    have minv1: "minv M (insert pg A) H ?s1" "target ?s1 = target s"
      using minv_memset [OF some(2)] by simp_all
    have pde1: "pde_of ?s1 i ?d = None"
      using fun_cong [OF minv1(2), of "Pd i ?d"] None by simp
    have pd1: "dir_of ?s1 i = Some pd"
      using fun_cong [OF minv1(2), of "Dir i"] pd by simp
    have w: "page2pa pg OR PTE_U OR PTE_W OR PTE_P = ?w"
      by (simp add: or.assoc)
    have perm: "PPN (PTE_U OR PTE_W) = 0"
      by (simp add: PPN_def PTE_U_def PTE_W_def PTXSHIFT_def)
    note fin = minv_new_table [OF minv1(1) some(4) pd1 d pde1 _ perm q2]
    have pd_ne: "pd \<noteq> pg"
      using some(6) pd by (auto simp: refs_def dest: spec [of _ "Dir i"])
    have "mem (atomic_inc pg s2) pd ?d = ?w"
      using quiet_simps(1) [OF q2] pd_ne by simp
    moreover have "pg < npage (atomic_inc pg s2)"
      using minvD(2) [OF fin(1)] some(3) by simp
    moreover have "unat (PPN ?w) = pg"
      using pte_target_make [OF minv_ppn [OF inv some(3)] perm]
      by (simp add: pte_target_def split: if_splits)
    ultimately have walk: "pgdir_walk (Some pd) va True s = Ok (Some (pg, unat (PTX va))) (atomic_inc pg s2)"
      using np some(1) page2kva_eq [OF some(2), of pg] some(3) s2
      by (simp add: pgdir_walk_def Let_def KADDR_def w split del: if_split)
    have "mem (atomic_inc pg s2) q' j = mem s q' j" if "(q', j) \<noteq> (pd, ?d)" "q' \<noteq> pg" for q' j
      using that quiet_simps(1) [OF q2] by auto
    then show ?thesis
      using walk pframe_trans [OF fr1 fin(3)] fin(1,2) minv1(2) None some(4-6)
      by (intro found [of pg "atomic_inc pg s2"]) simp_all
  qed
qed

lemma minv_hold:
  assumes inv: "minv M A H s" and p: "p \<in> A \<or> refs (target s) p \<noteq> {}" and H: "p \<notin> H"
  shows "minv M (A - {p}) (insert p H) (atomic_inc p s)"
  using minv_frame [OF inv pframe_atomic_inc] refinv_hold [OF minvD(1) [OF inv] p H] by simp

text \<open>Storing the entry of a page whose count was incremented before.\<close>

lemma minv_install_pte:
  assumes inv: "minv M A (insert p H) s" and H: "p \<notin> H" and pt: "pde_of s i d = Some pt" and t: "t < 1024"
    and none: "pte_of s i d t = None" and data: "data_page (target s) p" and perm: "PPN perm = 0"
    and q: "quiet (wr pt t (page2pa p OR perm OR PTE_P) s) s'"
  shows "minv M A H s'" and "target s' = (target s)(Pt i d t := Some p)" and "pframe s s'"
proof -
  note Q = quiet_simps [OF q]
  note R = minvD(1) [OF inv]
  have pt': "target s (Pd i d) = Some pt"
    using pt by simp
  have "p \<in> M"
    using refinvD(3) [OF R] by blast
  then show T: "target s' = (target s)(Pt i d t := Some p)"
    using target_write_pte [OF inv pt' t] pte_target_make [OF minv_ppn [OF inv] perm] Q(5) by simp
  show fr: "pframe s s'"
    using pframe_trans Q(6) pframe_wr by blast
  have "valid_slot (Pd i d)"
    using refinvD(9) [OF R pt'] .
  then have "refinv M A (insert p H - {p}) ((target s)(Pt i d t := Some p)) (pp_ref s) (page_free_list s)"
    using none t data by (intro refinv_install R) auto
  then have "refinv M A H (target s') (pp_ref s') (page_free_list s')"
    using H unfolding T by (simp add: Q(2,3))
  moreover have "boot_pgdir s \<noteq> pt"
    using boot_pgdir_not_target [OF inv, of "Pd i d"] pt by auto
  ultimately show "minv M A H s'"
    using Q(1) table_not_dir [OF inv pt] by (intro minv_frame [OF inv fr]) auto
qed

text \<open>The second half of \<^verbatim>\<open>page_insert\<close>, after the walk.\<close>

lemma page_insert_tail:
  assumes inv: "minv M A H s" and ready: "tlb_ready s" and pd: "dir_of s i = Some pd"
    and d: "unat (PDX va) < NPDE" and pt: "pde_of s i (unat (PDX va)) = Some pt"
    and p: "p \<in> A \<or> refs (target s) p \<noteq> {}" and data: "data_page (target s) p" and H: "p \<notin> H"
    and perm: "PPN perm = 0"
    and walk: "pgdir_walk (Some pd) va True s0 = Ok (Some (pt, unat (PTX va))) s"
  obtains s' where "page_insert (Some pd) p va perm s0 = Ok 0 s'" "pframe s s'" "minv M (A - {p}) H s'"
    "target s' = (target s)(Pt i (unat (PDX va)) (unat (PTX va)) := Some p)"
    "mem s' = (mem s)(pt := (mem s pt)(unat (PTX va) := page2pa p OR perm OR PTE_P))"
proof -
  let ?d = "unat (PDX va)" and ?t = "unat (PTX va)" and ?w = "page2pa p OR perm OR PTE_P"
  let ?s1 = "atomic_inc p s"
  have inv1: "minv M (A - {p}) (insert p H) ?s1"
    by (rule minv_hold [OF inv p H])
  have ready1: "tlb_ready ?s1"
    using ready pframe_simps(12) [OF pframe_atomic_inc] by simp
  obtain s2 where s2: "(if mem ?s1 pt ?t AND PTE_P \<noteq> 0 then page_remove (Some pd) va ?s1 else Ok () ?s1) = Ok () s2"
    "pframe ?s1 s2" "minv M (A - {p}) (insert p H) s2" "target s2 = (target s)(Pt i ?d ?t := None)"
    "\<And>q j. (q, j) \<noteq> (pt, ?t) \<Longrightarrow> mem s2 q j = mem s q j"
  proof (cases "pte_of s i ?d ?t")
    case None
    then have "mem s pt ?t AND PTE_P = 0"
      using pt by (simp add: pte_of_cases pte_target_def split: if_splits)
    moreover have "(target s)(Pt i ?d ?t := None) = target s"
      by (rule fun_upd_idem) (simp add: None)
    ultimately show ?thesis
      using inv1 by (intro that [of ?s1]) simp_all
  next
    case (Some old)
    then have "mem s pt ?t AND PTE_P \<noteq> 0"
      using pt by (simp add: pte_of_cases pte_target_def split: if_splits)
    moreover obtain s2 where "page_remove (Some pd) va ?s1 = Ok () s2" "pframe ?s1 s2"
      "minv M (A - {p}) (insert p H) s2" "target s2 = (target ?s1)(Pt i ?d ?t := None)"
      "\<And>q j. mem s2 q j = (if pde_of ?s1 i ?d = Some q \<and> j = ?t \<and> pte_of ?s1 i ?d j \<noteq> None then 0 else mem ?s1 q j)"
      by (rule page_remove_spec [OF inv1 ready1, of i pd va]) (simp_all add: pd d)
    ultimately show ?thesis
      using pt by (intro that [of s2]) auto
  qed
  have pt2: "pde_of s2 i ?d = Some pt" and none2: "pte_of s2 i ?d ?t = None"
    using fun_cong [OF s2(4), of "Pd i ?d"] fun_cong [OF s2(4), of "Pt i ?d ?t"] pt by simp_all
  have data2: "data_page (target s2) p"
    using data unfolding s2(4) by (auto simp: data_page_def refs_def)
  have np: "mem s2 pt ?t AND PTE_P = 0"
    using none2 pt2 by (simp add: pte_of_cases pte_target_def split: if_splits)
  have fr2: "pframe s s2"
    using pframe_trans [OF pframe_atomic_inc s2(2)] .
  then have ready2: "tlb_ready s2"
    using ready pframe_simps(12) by simp
  obtain s3 where s3: "(if booted s2 \<noteq> 0 \<and> ismp s2 then store_shootdown pt ?t ?w va s2 else Ok () (wr pt ?t ?w s2)) = Ok () s3"
    and q3: "quiet (wr pt ?t ?w s2) s3"
    by (rule store_entry [OF ready2])
  note fin = minv_install_pte [OF s2(3) H pt2 unat_PTX_less none2 data2 perm q3]
  have "page_insert (Some pd) p va perm s0 = Ok 0 s3"
    using walk s2(1) s3 np by (simp add: page_insert_def Let_def cong: if_cong split del: if_split)
  moreover have "mem s3 q j = ((mem s)(pt := (mem s pt)(?t := ?w))) q j" for q j
    using s2(5) [of q j] quiet_simps(1) [OF q3] by auto
  ultimately show ?thesis
    using fin s2(4) pframe_trans [OF fr2 fin(3)] by (intro that [of s3]) (auto simp: fun_eq_iff)
qed

lemma page_insert_spec:
  assumes inv: "minv M A H s" and ready: "tlb_ready s" and pd: "dir_of s i = Some pd"
    and d: "unat (PDX va) < NPDE"
    and p: "p \<in> A \<or> refs (target s) p \<noteq> {}" and data: "data_page (target s) p" and H: "p \<notin> H"
    and perm: "PPN perm = 0"
  obtains (fail) "page_insert (Some pd) p va perm s = Ok (- E_NO_MEM) s"
      "LIST_FIRST (page_free_list s) = None" "pde_of s i (unat (PDX va)) = None"
  | (mapped) pt s' where "page_insert (Some pd) p va perm s = Ok 0 s'" "pframe s s'" "minv M (A - {p}) H s'"
      "target s' = (target s)(Pd i (unat (PDX va)) := Some pt, Pt i (unat (PDX va)) (unat (PTX va)) := Some p)"
      "mem s' pt (unat (PTX va)) = page2pa p OR perm OR PTE_P"
      "pde_of s i (unat (PDX va)) = Some pt \<or>
       pde_of s i (unat (PDX va)) = None \<and> pt \<notin> A \<and> pt \<notin> H \<and> refs (target s) pt = {}"
      "\<And>q j. q \<noteq> pt \<Longrightarrow> (q, j) \<noteq> (pd, unat (PDX va)) \<Longrightarrow> mem s' q j = mem s q j"
      "\<And>j. pde_of s i (unat (PDX va)) = Some pt \<Longrightarrow> j \<noteq> unat (PTX va) \<Longrightarrow> mem s' pt j = mem s pt j"
  using inv ready pd d
proof (cases rule: pgdir_walk_create)
  case fail
  then show ?thesis
    using that(1) by (simp add: page_insert_def)
next
  case (found pt s1)
  have pd1: "dir_of s1 i = Some pd"
    using pd pframe_simps(15) [OF found(2)] by simp
  have pt1: "pde_of s1 i (unat (PDX va)) = Some pt"
    using fun_cong [OF found(4), of "Pd i (unat (PDX va))"] by simp
  have refs1: "refs (target s1) p = refs (target s) p"
  proof (cases "pde_of s i (unat (PDX va)) = Some pt")
    case True
    then show ?thesis
      unfolding found(4) by (simp add: fun_upd_idem)
  next
    case False
    then have "p \<noteq> pt" "target s (Pd i (unat (PDX va))) = None"
      using found(5) p by auto
    then show ?thesis
      unfolding found(4) by (simp add: refs_upd_Some)
  qed
  have ready1: "tlb_ready s1"
    using ready pframe_simps(12) [OF found(2)] by simp
  obtain s' where s': "page_insert (Some pd) p va perm s = Ok 0 s'" "pframe s1 s'" "minv M (A - {p}) H s'"
    "target s' = (target s1)(Pt i (unat (PDX va)) (unat (PTX va)) := Some p)"
    "mem s' = (mem s1)(pt := (mem s1 pt)(unat (PTX va) := page2pa p OR perm OR PTE_P))"
    using page_insert_tail [OF found(3) ready1 pd1 d pt1 _ _ H perm found(1)] p data refs1
    by (auto simp: data_page_def)
  show ?thesis
    using s' found(4,5) pframe_trans [OF found(2) s'(2)]
    by (intro mapped [of s' pt]) (auto split: if_splits)
qed

section \<open>Address spaces as maps\<close>

text \<open>
  The abstract view of environment \<open>i\<close>'s address space below \<^verbatim>\<open>UTOP\<close>: the page table entry that
  translates \<open>va\<close>, if the page is mapped.
\<close>

definition va_entry :: "kstate \<Rightarrow> nat \<Rightarrow> u32 \<Rightarrow> u32 option" where
  "va_entry s i va =
     (case pde_of s i (unat (PDX va)) of None \<Rightarrow> None
      | Some pt \<Rightarrow> let w = mem s pt (unat (PTX va)) in if w AND PTE_P \<noteq> 0 then Some w else None)"

lemma unat_VPN: "unat (VPN va) = unat (PDX va) * 1024 + unat (PTX va)"
proof -
  have "unat va div 4096 div 1024 < 1024"
    using unat_u32_less [of va] by linarith
  moreover have "unat va div 4194304 = unat va div 4096 div 1024"
    by (simp flip: div_mult2_eq)
  ultimately show ?thesis
    unfolding VPN_def unat_PPN unat_PDX unat_PTX by (simp add: div_mult_mod_eq)
qed

lemma VPN_eq_iff: "VPN va' = VPN va \<longleftrightarrow> unat (PDX va') = unat (PDX va) \<and> unat (PTX va') = unat (PTX va)"
proof
  assume "VPN va' = VPN va"
  then have "unat (PDX va') * 1024 + unat (PTX va') = unat (PDX va) * 1024 + unat (PTX va)"
    by (simp flip: unat_VPN)
  from arg_cong [OF this, of "\<lambda>n. n div 1024"] arg_cong [OF this, of "\<lambda>n. n mod 1024"]
  show "unat (PDX va') = unat (PDX va) \<and> unat (PTX va') = unat (PTX va)"
    by simp
next
  assume "unat (PDX va') = unat (PDX va) \<and> unat (PTX va') = unat (PTX va)"
  then have "unat (VPN va') = unat (VPN va)"
    by (simp only: unat_VPN)
  then show "VPN va' = VPN va"
    by (rule unsigned_word_eqI)
qed

lemma va_entry_pte:
  "map_option (\<lambda>w. unat (PPN w)) (va_entry s i va) = pte_of s i (unat (PDX va)) (unat (PTX va))"
  by (auto simp: va_entry_def pte_of_cases pte_target_def Let_def split: option.splits)

lemma va_entry_None_iff:
  "va_entry s i va = None \<longleftrightarrow> pte_of s i (unat (PDX va)) (unat (PTX va)) = None"
  using va_entry_pte [of s i va] by (metis map_option_is_None)

text \<open>The entries of page tables other than those involved in an operation are unchanged.\<close>

lemma va_entry_cong:
  assumes "pde_of s' j (unat (PDX va)) = pde_of s j (unat (PDX va))"
    and "\<And>pt. pde_of s j (unat (PDX va)) = Some pt \<Longrightarrow> mem s' pt (unat (PTX va)) = mem s pt (unat (PTX va))"
  shows "va_entry s' j va = va_entry s j va"
  using assms by (cases "pde_of s j (unat (PDX va))") (simp_all add: va_entry_def)

lemma va_entry_same:
  assumes "mem s' = mem s" and "\<And>i. i < NENV \<Longrightarrow> env_pgdir (envs s' i) = env_pgdir (envs s i)"
  shows "va_entry s' = va_entry s"
proof (intro ext va_entry_cong)
  fix j va
  show "pde_of s' j (unat (PDX va)) = pde_of s j (unat (PDX va))"
    using fun_cong [OF target_cong [OF assms], of "Pd j (unat (PDX va))"] by simp
qed (simp add: assms)

lemma page_remove_entry:
  assumes inv: "minv M A H s" and inv': "minv M' A' H' s'"
    and T: "target s' = (target s)(Pt i d t := None)"
    and mem: "\<And>q j. mem s' q j = (if pde_of s i d = Some q \<and> j = t \<and> pte_of s i d j \<noteq> None then 0 else mem s q j)"
  shows "va_entry s' j va = (if j = i \<and> unat (PDX va) = d \<and> unat (PTX va) = t then None else va_entry s j va)"
proof (cases "j = i \<and> unat (PDX va) = d \<and> unat (PTX va) = t")
  case True
  then show ?thesis
    using fun_cong [OF T, of "Pt i d t"] by (simp add: va_entry_None_iff)
next
  case False
  have pde: "pde_of s' j (unat (PDX va)) = pde_of s j (unat (PDX va))"
    using fun_cong [OF T, of "Pd j (unat (PDX va))"] by simp
  have "mem s' pt (unat (PTX va)) = mem s pt (unat (PTX va))"
    if "pde_of s j (unat (PDX va)) = Some pt" for pt
    using that False mem [of pt "unat (PTX va)"]
      minv_exclusive [OF inv, of "Pd j (unat (PDX va))" pt "Pd i d"] by auto
  then have "va_entry s' j va = va_entry s j va"
    by (rule va_entry_cong [OF pde])
  with False show ?thesis
    by metis
qed

lemma page_insert_entry:
  assumes inv: "minv M A H s" and inv': "minv M' A' H' s'" and pd: "dir_of s i = Some pd"
    and T: "target s' = (target s)(Pd i d := Some pt, Pt i d t := Some p)"
    and w: "mem s' pt t = w" "w AND PTE_P \<noteq> 0"
    and old: "pde_of s i d = Some pt \<or> pde_of s i d = None \<and> refs (target s) pt = {}"
    and mem: "\<And>q j. q \<noteq> pt \<Longrightarrow> (q, j) \<noteq> (pd, d) \<Longrightarrow> mem s' q j = mem s q j"
    and mem_pt: "\<And>j. pde_of s i d = Some pt \<Longrightarrow> j \<noteq> t \<Longrightarrow> mem s' pt j = mem s pt j"
  shows "va_entry s' j va = (if j = i \<and> unat (PDX va) = d \<and> unat (PTX va) = t then Some w else va_entry s j va)"
proof -
  have pt': "pde_of s' i d = Some pt"
    using fun_cong [OF T, of "Pd i d"] by simp
  consider (this) "j = i" "unat (PDX va) = d" "unat (PTX va) = t"
    | (fresh) "j = i" "unat (PDX va) = d" "unat (PTX va) \<noteq> t" "pde_of s i d = None"
    | (other) "\<not> (j = i \<and> unat (PDX va) = d \<and> unat (PTX va) = t)" "pde_of s j (unat (PDX va)) = pde_of s' j (unat (PDX va))"
    using old pt' fun_cong [OF T, of "Pd j (unat (PDX va))"] by (cases "j = i \<and> unat (PDX va) = d") auto
  then show ?thesis
  proof cases
    case this
    then show ?thesis
      using pt' w by (simp add: va_entry_def)
  next
    case fresh
    then have "pte_of s' i d (unat (PTX va)) = None"
      using fun_cong [OF T, of "Pt i d (unat (PTX va))"] by (simp add: pte_of_cases)
    then have "va_entry s' j va = None" "va_entry s j va = None"
      using fresh by (simp_all add: va_entry_None_iff pte_of_cases)
    with fresh show ?thesis
      by simp
  next
    case other
    have "mem s' q (unat (PTX va)) = mem s q (unat (PTX va))" if q: "pde_of s j (unat (PDX va)) = Some q" for q
    proof (cases "q = pt")
      case True
      then have "Pd j (unat (PDX va)) = Pd i d"
        using minv_exclusive [OF inv', of "Pd i d" pt "Pd j (unat (PDX va))"] other(2) q pt' by simp
      then show ?thesis
        using other q True mem_pt by auto
    next
      case False
      have "q \<noteq> pd"
        using minv_exclusive [OF inv, of "Dir i" pd "Pd j (unat (PDX va))"] pd q by auto
      with False show ?thesis
        using mem by simp
    qed
    then have "va_entry s' j va = va_entry s j va"
      by (rule va_entry_cong [OF other(2) [symmetric]])
    with other(1) show ?thesis
      by metis
  qed
qed

end
