(* ===== verification/Example.thy ===== *)
theory Example
  imports Pmap
begin

text \<open>
  A small concrete kernel state: eight physical pages, page 0 the template directory, page 1 the
  page directory of environment 0, which is running with an empty address space, the other
  pages and environments free. The witnesses of the properties start from it.
\<close>

definition example_env :: env where
  "example_env = \<lparr>env_tf = zero_tf\<lparr>tf_cs := 0x1b\<rparr>, env_id = 0x1000, env_parent_id = 0, env_status = ENV_RUNNING,
     env_runs = 1, env_pgdir = Some 1, env_cr3 = page2pa 1, env_pgfault_upcall = 0,
     env_ipc_recving = False, env_ipc_dstva = 0, env_ipc_value = 0, env_ipc_from = 0, env_ipc_perm = 0,
     env_lock = False\<rparr>"

definition free_env :: env where
  "free_env = \<lparr>env_tf = zero_tf, env_id = 0, env_parent_id = 0, env_status = ENV_FREE,
     env_runs = 0, env_pgdir = None, env_cr3 = 0, env_pgfault_upcall = 0,
     env_ipc_recving = False, env_ipc_dstva = 0, env_ipc_value = 0, env_ipc_from = 0, env_ipc_perm = 0,
     env_lock = False\<rparr>"

definition empty_list :: "'a qlist" where
  "empty_list = \<lparr>lh_first = None, le_next = \<lambda>_. None, le_prev = \<lambda>_. NullPrev\<rparr>"

definition example :: kstate where
  "example = \<lparr>npage = 8, boot_pgdir = 0, boot_cr3 = 0, pp_ref = (\<lambda>_. 0)(1 := 1),
     page_free_list = fold LIST_INSERT_HEAD [7, 6, 5, 4, 3, 2] empty_list,
     mem = (\<lambda>_ _. 0)(1 := (\<lambda>_. 0)(unat (PDX VPT) := page2pa 1 OR PTE_P OR PTE_W,
       unat (PDX UVPT) := page2pa 1 OR PTE_P OR PTE_U)), page_table_lock = False, tlb_lock = False, tlb_va = 0, booted = 1, ismp = True,
     user_mem_check_addr = 0, envs = (\<lambda>_. free_env)(0 := example_env),
     env_free_list = fold LIST_INSERT_HEAD (rev [1..<NENV]) empty_list,
     env_table_lock = False, sched_pre = 1, curenv = Some 0, is_bcpu = True, ticks = 0, cons = cons_start, nic = nic_start, hw_log = []\<rparr>"

lemma empty_list_rep: "LIST_rep empty_list []"
  by (simp add: LIST_rep_def empty_list_def)

lemma fold_insert_empty: "distinct xs \<Longrightarrow> LIST_rep (fold LIST_INSERT_HEAD xs empty_list) (rev xs)"
  using ll.fold_insert_rep [OF empty_list_rep, of xs] by simp

lemma self_maps: "unat (PDX VPT) \<noteq> unat (PDX UVPT)"
  by (simp add: const_defs addr_macros)

lemma example_dir: "dir_of example i = (if i = 0 then Some 1 else None)"
  by (simp add: dir_of_def example_def example_env_def free_env_def const_defs)

lemma example_target: "target example = (\<lambda>_. None)(Dir 0 := Some 1)"
proof
  fix sl
  note example_dir
  moreover have "mem example 1 i = 0" if "i < NPDE" for i
    using that kernel_pdes by (auto simp: example_def)
  ultimately show "target example sl = ((\<lambda>_. None)(Dir 0 := Some 1)) sl"
    by (cases sl) (simp_all add: pde_of_cases pte_of_cases)
qed

lemma example_minv: "minv {1..<8} {} {} example"
proof -
  have "LIST_rep (page_free_list example) (rev [7, 6, 5, 4, 3, 2])"
    unfolding example_def kstate.simps by (rule fold_insert_empty) simp
  moreover have refs: "refs (target example) p = (if p = 1 then {Dir 0} else {})" for p
    by (auto simp: example_target refs_def)
  moreover have "set (rev [7, 6, 5, 4, 3, 2 :: nat]) = {p \<in> {1..<8}. p \<noteq> 1}"
    by auto
  moreover have "pp_ref example = (\<lambda>_. 0)(1 := 1)"
    by (simp add: example_def)
  moreover have "0 < NENV"
    by (simp add: const_defs)
  ultimately have "refinv {1..<8} {} {} (target example) (pp_ref example) (page_free_list example)"
    by (intro refinvI [where xs = "rev [7, 6, 5, 4, 3, 2]"]) (auto simp: example_target split: if_splits)
  moreover have "kmap example"
    using self_maps by (simp add: kmap_def example_dir kern_pde_def) (simp add: example_def)
  ultimately show ?thesis
    by (auto simp: minv_def example_def)
qed

lemma example_simps [simp]:
  "tlb_ready example" "env_pgdir (envs example 0) = Some 1" "dir_of example 0 = Some 1"
  "npage example = 8" "\<not> page_table_lock example"
  by (simp_all add: tlb_ready_def dir_of_def example_def example_env_def const_defs)

end
