(* ===== verification/Pmap_Props.thy ===== *)
theory Pmap_Props
  imports Example
begin

text \<open>
  The properties of \<^verbatim>\<open>kern/pmap.c\<close>: initialisation of the free list, allocation, mapping and unmapping
  as updates of the address-space map, and the exact range checked by \<^verbatim>\<open>user_mem_check\<close>.
\<close>

section \<open>Initialising the free list\<close>

definition free_one :: "nat \<Rightarrow> kstate \<Rightarrow> kstate" where
  "free_one i s = s\<lparr>pp_ref := (pp_ref s)(i := 0), page_free_list := LIST_INSERT_HEAD i (page_free_list s)\<rparr>"

lemma fold_free_one:
  "fold free_one xs s = s\<lparr>pp_ref := (\<lambda>p. if p \<in> set xs then 0 else pp_ref s p),
                          page_free_list := fold LIST_INSERT_HEAD xs (page_free_list s)\<rparr>"
  by (induction xs arbitrary: s) (auto simp: free_one_def fun_eq_iff intro!: kstate.equality)

lemma page_init_eq:
  assumes "KERNBASE \<le> fm"
  shows "page_init fm s =
    Ok () ((fold free_one ([1..<160] @ [unat ((fm - KERNBASE) div PGSIZE)..<npage s])
              (s\<lparr>page_free_list := LIST_INIT (page_free_list s)\<rparr>))\<lparr>tlb_lock := False, page_table_lock := False\<rparr>)"
proof -
  have 160: "unat (IOPHYSMEM div PGSIZE) = 160"
    by (simp add: const_defs)
  have free_one: "(\<lambda>i s. s\<lparr>pp_ref := (pp_ref s)(i := 0),
      page_free_list := LIST_INSERT_HEAD i (page_free_list s)\<rparr>) = free_one"
    by (simp add: free_one_def fun_eq_iff)
  have np: "npage (fold free_one xs s) = npage s" for xs s
    by (simp add: fold_free_one)
  show ?thesis
    using assms
    by (simp add: page_init_def PADDR_def Let_def 160 free_one np spin_unlock_def linorder_not_less del: upt_Suc)
qed

text \<open>The pages handed to the allocator: base memory without page 0, and everything above the
  memory taken by \<^verbatim>\<open>boot_alloc\<close>.\<close>

definition managed_pages :: "u32 \<Rightarrow> nat \<Rightarrow> nat set" where
  "managed_pages fm np = {1..<160} \<union> {unat ((fm - KERNBASE) div PGSIZE)..<np}"

lemma target_no_envs:
  assumes "\<And>i. i < NENV \<Longrightarrow> env_pgdir (envs s i) = None"
  shows "target s = (\<lambda>_. None)"
proof
  fix sl
  have "dir_of s i = None" for i
    using assms by (simp add: dir_of_def)
  then show "target s sl = None"
    by (cases sl) (simp_all add: pde_of_cases pte_of_cases)
qed

lemma refinv_all_free:
  assumes "finite M" and "LIST_rep q xs" and "set xs = M" and "\<And>p. p \<in> M \<Longrightarrow> ref p = 0"
  shows "refinv M {} {} (\<lambda>_. None) ref q"
  by (rule refinvI [OF _ _ _ _ assms(2)]) (use assms in \<open>auto simp: refs_def\<close>)

lemma fold_LIST_INSERT_HEAD_init:
  assumes "distinct xs"
  shows "LIST_rep (fold LIST_INSERT_HEAD xs (LIST_INIT q)) (rev xs)"
  by (rule ll.fold_insert_init [OF assms])

lemma page_init_minv:
  assumes fm: "KERNBASE \<le> fm" "160 \<le> unat ((fm - KERNBASE) div PGSIZE)" and np: "npage s \<le> 2 ^ 20"
    and envs: "\<And>i. i < NENV \<Longrightarrow> env_pgdir (envs s i) = None"
    and boot: "160 \<le> boot_pgdir s" "boot_pgdir s < unat ((fm - KERNBASE) div PGSIZE)"
    and big: "160 \<le> npage s"
    and templ: "\<And>d. d < NPDE \<Longrightarrow> mem s (boot_pgdir s) d = 0"
      "\<And>d p. pte_target (mem s (boot_pgdir s) d) = Some p \<Longrightarrow> p < npage s"
  obtains s' where "page_init fm s = Ok () s'" "minv (managed_pages fm (npage s)) {} {} s'"
    "\<not> page_table_lock s'" "\<not> tlb_lock s'"
    "s' = s\<lparr>pp_ref := pp_ref s', page_free_list := page_free_list s', tlb_lock := False, page_table_lock := False\<rparr>"
proof -
  define xs where "xs = [1..<160] @ [unat ((fm - KERNBASE) div PGSIZE)..<npage s]"
  define M where "M = managed_pages fm (npage s)"
  define s' where "s' = (fold free_one xs (s\<lparr>page_free_list := LIST_INIT (page_free_list s)\<rparr>))
    \<lparr>tlb_lock := False, page_table_lock := False\<rparr>"
  have set: "set xs = M"
    unfolding xs_def M_def managed_pages_def by auto
  have dist: "distinct xs"
    using fm(2) by (auto simp: xs_def)
  have M: "p < npage s" "p \<noteq> boot_pgdir s" if "p \<in> M" for p
    using that boot big by (auto simp: M_def managed_pages_def)
  have s': "s' = s\<lparr>pp_ref := pp_ref s', page_free_list := page_free_list s', tlb_lock := False, page_table_lock := False\<rparr>"
    unfolding s'_def fold_free_one by simp
  have T: "target s' = (\<lambda>_. None)"
    by (rule target_no_envs) (subst s', simp add: envs)
  have "LIST_rep (page_free_list s') (rev xs)"
    using fold_LIST_INSERT_HEAD_init [OF dist] unfolding s'_def fold_free_one by simp
  moreover have "pp_ref s' p = 0" if "p \<in> M" for p
    using that unfolding set [symmetric] s'_def fold_free_one by simp
  ultimately have R: "refinv M {} {} (\<lambda>_. None) (pp_ref s') (page_free_list s')"
    using finite_set [of xs] by (intro refinv_all_free [where xs = "rev xs"]) (simp_all add: set)
  have same: "npage s' = npage s" "boot_pgdir s' = boot_pgdir s" "mem s' = mem s"
    "\<not> page_table_lock s'" "\<not> tlb_lock s'"
    unfolding s'_def fold_free_one by simp_all
  have "dir_of s' i = None" for i
    using fun_cong [OF T, of "Dir i"] by simp
  then have "minv M {} {} s'"
    using R np M templ unfolding minv_def kmap_def T same by auto
  moreover have "page_init fm s = Ok () s'"
    unfolding page_init_eq [OF fm(1)] s'_def xs_def ..
  ultimately show ?thesis
    unfolding M_def using same(4,5) s' by (intro that)
qed

section \<open>The range checked by user\_mem\_check\<close>

lemma unat_uminus:
  assumes "x \<noteq> (0 :: u32)"
  shows "unat (- x) = 2 ^ 32 - unat x"
proof -
  have "(unat (- x) + unat x) mod 2 ^ 32 = 0"
    using unat_word_ariths(1) [of "- x" x] by simp
  then obtain k where k: "unat (- x) + unat x = 2 ^ 32 * k"
    by (auto simp: mod_eq_0_iff_dvd)
  moreover have "unat x \<noteq> 0"
    using assms by (simp add: unat_eq_0)
  ultimately have "k = 1"
    using unat_u32_less [of x] unat_u32_less [of "- x"] by (cases k) auto
  with k show ?thesis
    by simp
qed

lemma unat_neg_pages:
  assumes "0 < m" and "m < 2 ^ 20"
  shows "unat ((b - (b + of_nat m * PGSIZE)) div PGSIZE) = 2 ^ 20 - m"
proof -
  have m: "unat (of_nat m * 4096 :: u32) = m * 4096"
    using assms(2) by (simp add: unat_word_ariths unat_of_nat)
  then have "(of_nat m * 4096 :: u32) \<noteq> 0"
    using assms(1) by (intro notI) simp
  then have "unat (- (of_nat m * 4096) :: u32) = 2 ^ 32 - m * 4096"
    using m by (simp add: unat_uminus)
  moreover have "(2 ^ 32 - m * 4096) div 4096 = 2 ^ 20 - m"
  proof -
    have "2 ^ 32 - m * 4096 = (2 ^ 20 - m) * 4096"
      by (simp add: diff_mult_distrib)
    then show ?thesis
      by (simp only: nonzero_mult_div_cancel_right)
  qed
  ultimately show ?thesis
    by (simp add: PGSIZE_def unat_div)
qed

text \<open>The loop makes one round per page, each with the same test.\<close>

lemma user_mem_check_loop_eq:
  assumes walk: "pgdir_walk pgdir va False s = Ok r s" and "i + m < 2 ^ 20"
  shows "user_mem_check_loop pgdir va perm (b + of_nat m * PGSIZE) i b s =
    (if m = 0 \<or> va < ULIM \<and> (\<exists>p j. r = Some (p, j) \<and> mem s p j AND perm = perm) then Ok None s
     else Ok (Some b) s)"
  using assms(2)
proof (induction m arbitrary: i b)
  case 0
  then show ?case
    by (simp add: user_mem_check_loop.simps)
next
  case (Suc m)
  have e: "b + of_nat (Suc m) * PGSIZE = (b + PGSIZE) + of_nat m * PGSIZE"
    by (simp add: algebra_simps)
  have "i < unat ((b - (b + of_nat (Suc m) * PGSIZE)) div PGSIZE)"
    using unat_neg_pages [of "Suc m" b] Suc.prems by simp
  then have step: "user_mem_check_loop pgdir va perm (b + of_nat (Suc m) * PGSIZE) i b s =
     (if va \<ge> ULIM then Ok (Some b) s
      else case r of None \<Rightarrow> Ok (Some b) s
           | Some (p, j) \<Rightarrow>
               if mem s p j AND perm \<noteq> perm then Ok (Some b) s
               else user_mem_check_loop pgdir va perm (b + of_nat (Suc m) * PGSIZE) (i + 1) (b + PGSIZE) s)"
    by (subst user_mem_check_loop.simps) (simp only: walk kbind.simps if_True)
  show ?case
    using Suc.IH [of "i + 1" "b + PGSIZE"] Suc.prems unfolding step unfolding e
    by (auto split: option.split prod.split)
qed

text \<open>Both ends of the checked range are page-aligned.\<close>

lemma page_distance:
  obtains m where "m < 2 ^ 20" and "ROUNDUP (va + len) PGSIZE = ROUNDDOWN va PGSIZE + of_nat m * PGSIZE"
proof -
  let ?b = "ROUNDDOWN va PGSIZE" and ?e = "ROUNDUP (va + len) PGSIZE"
  let ?m = "unat (?e - ?b) div 4096"
  have "4096 dvd unat ?b" "4096 dvd unat ?e"
    by (simp_all add: ROUNDUP_def unat_ROUNDDOWN PGSIZE_def dvd_minus_mod)
  then have "4096 dvd unat (?e - ?b)"
    by (auto simp: unat_sub_if' intro: dvd_diff_nat dvd_add)
  then have "?m * 4096 = unat (?e - ?b)"
    by simp
  then have "of_nat (?m * 4096) = ?e - ?b"
    by (simp only: of_nat_unat ucast_id)
  then have "of_nat ?m * PGSIZE = ?e - ?b"
    by (simp add: PGSIZE_def)
  moreover have "?m < 2 ^ 20"
    using unat_u32_less [of "?e - ?b"] by simp
  ultimately show ?thesis
    using that [of ?m] by simp
qed

section \<open>Pages in use as user memory\<close>

lemma va_entry_refs:
  assumes inv: "minv M A H s" and w: "va_entry s i va = Some w"
  shows "refs (target s) (unat (PPN w)) \<noteq> {}" and "data_page (target s) (unat (PPN w))"
proof -
  let ?sl = "Pt i (unat (PDX va)) (unat (PTX va))"
  have sl: "target s ?sl = Some (unat (PPN w))"
    using va_entry_pte [of s i va] w by simp
  then show "refs (target s) (unat (PPN w)) \<noteq> {}"
    unfolding refs_def by blast
  show "data_page (target s) (unat (PPN w))"
    unfolding data_page_def refs_def
  proof
    fix sl'
    assume "sl' \<in> {sl. target s sl = Some (unat (PPN w))}"
    then show "is_Pt sl'"
      using minv_exclusive [OF inv, of sl' _ ?sl] sl by fastforce
  qed
qed

lemma data_page_not_table:
  assumes "data_page T p" and "T sl = Some q" and "\<not> is_Pt sl"
  shows "p \<noteq> q"
  using assms by (auto simp: data_page_def refs_def)

lemma data_page_in_flight: "minv M A H s \<Longrightarrow> p \<in> A \<Longrightarrow> data_page (target s) p"
  using refinvD(6) [OF minvD(1)] by (simp add: data_page_def)

section \<open>Mapping a page, at the level of address spaces\<close>

lemma insert_va:
  assumes inv: "minv M A {} s" and ready: "tlb_ready s"
    and dir: "i < NENV" "env_pgdir (envs s i) = Some pd" and va: "va < UTOP" and perm: "PPN perm = 0"
    and p: "p \<in> A \<or> (\<exists>j va' w. va_entry s j va' = Some w \<and> unat (PPN w) = p)"
  obtains (fail) "page_insert (Some pd) p va perm s = Ok (- E_NO_MEM) s" "LIST_EMPTY (page_free_list s)"
  | (mapped) s' where "page_insert (Some pd) p va perm s = Ok 0 s'" "minv M (A - {p}) {} s'" "pframe s s'"
      "\<And>j va'. va_entry s' j va' =
         (if j = i \<and> VPN va' = VPN va then Some (page2pa p OR perm OR PTE_P) else va_entry s j va')"
      "mem s' p = mem s p"
      "\<And>j va' w. va_entry s j va' = Some w \<Longrightarrow> mem s' (unat (PPN w)) = mem s (unat (PPN w))"
      "\<And>j d. pde_of s j d \<noteq> None \<Longrightarrow> pde_of s' j d \<noteq> None"
proof -
  have pd: "dir_of s i = Some pd"
    using dir by (simp add: dir_of_def)
  have data: "data_page (target s) p"
    using p va_entry_refs(2) [OF inv] data_page_in_flight [OF inv] by blast
  have ref: "p \<in> A \<or> refs (target s) p \<noteq> {}"
    using p va_entry_refs(1) [OF inv] by blast
  have "p \<notin> {}"
    by simp
  with inv ready pd PDX_below_UTOP [OF va] ref data show ?thesis
    using perm
  proof (cases rule: page_insert_spec)
    case fail
    then show ?thesis
      using that(1) by (simp add: LIST_EMPTY_def LIST_FIRST_def)
  next
    case (mapped pt s')
    have bit: "(page2pa p OR perm OR PTE_P) AND PTE_P \<noteq> 0"
      by (simp add: PTE_P_bit bit_simps) (simp add: PTE_P_def)
    have entry: "va_entry s' j va' =
        (if j = i \<and> VPN va' = VPN va then Some (page2pa p OR perm OR PTE_P) else va_entry s j va')" for j va'
      unfolding VPN_eq_iff
      by (rule page_insert_entry [OF inv mapped(3) pd mapped(4,5) bit]) (use mapped(6-8) in auto)
    have keep: "mem s' q = mem s q" if "data_page (target s) q" "q \<in> A \<or> refs (target s) q \<noteq> {}" for q
    proof -
      have "q \<noteq> pd"
        using data_page_not_table [OF that(1), of "Dir i"] pd by simp
      moreover have "q \<noteq> pt"
        using mapped(6) that data_page_not_table [OF that(1), of "Pd i (unat (PDX va))"] by auto
      ultimately show ?thesis
        using mapped(7) by auto
    qed
    have "pde_of s' j d \<noteq> None" if "pde_of s j d \<noteq> None" for j d
      using fun_cong [OF mapped(4), of "Pd j d"] that by (simp split: if_splits)
    with keep va_entry_refs [OF inv] show ?thesis
      by (intro that(2) [OF mapped(1,3,2) entry keep [OF data ref]]) blast+
  qed
qed

lemma remove_va:
  assumes inv: "minv M {} {} s" and ready: "tlb_ready s"
    and dir: "i < NENV" "env_pgdir (envs s i) = Some pd" and va: "va < UTOP"
  obtains s' where "page_remove (Some pd) va s = Ok () s'" "minv M {} {} s'" "pframe s s'"
    "\<And>j va'. va_entry s' j va' = (if j = i \<and> VPN va' = VPN va then None else va_entry s j va')"
    "\<And>w. va_entry s i va = Some w \<Longrightarrow>
        \<exists>xs. LIST_rep (page_free_list s') xs
             \<and> (unat (PPN w) \<in> set xs \<longleftrightarrow>
                  refs (target s) (unat (PPN w)) = {Pt i (unat (PDX va)) (unat (PTX va))})"
proof -
  let ?sl = "Pt i (unat (PDX va)) (unat (PTX va))"
  have pd: "dir_of s i = Some pd"
    using dir by (simp add: dir_of_def)
  obtain s' where s': "page_remove (Some pd) va s = Ok () s'" "pframe s s'" "minv M {} {} s'"
    "target s' = (target s)(?sl := None)"
    "\<And>q j. mem s' q j = (if pde_of s i (unat (PDX va)) = Some q \<and> j = unat (PTX va)
                            \<and> pte_of s i (unat (PDX va)) j \<noteq> None then 0 else mem s q j)"
    using page_remove_spec [OF inv ready pd PDX_below_UTOP [OF va]] by blast
  have entry: "va_entry s' j va' = (if j = i \<and> VPN va' = VPN va then None else va_entry s j va')" for j va'
    unfolding VPN_eq_iff by (rule page_remove_entry [OF inv s'(3,4,5)])
  have freed: "\<exists>xs. LIST_rep (page_free_list s') xs
      \<and> (unat (PPN w) \<in> set xs \<longleftrightarrow> refs (target s) (unat (PPN w)) = {?sl})" if w: "va_entry s i va = Some w" for w
  proof -
    have sl: "target s ?sl = Some (unat (PPN w))"
      using va_entry_pte [of s i va] w by simp
    then have "?sl \<in> refs (target s) (unat (PPN w))"
      unfolding refs_def by blast
    then have "refs (target s') (unat (PPN w)) = {} \<longleftrightarrow> refs (target s) (unat (PPN w)) = {?sl}"
      unfolding s'(4) refs_upd_None [of "target s" ?sl, OF sl] by auto
    then show ?thesis
      using refinvD(5) [OF minvD(1) [OF s'(3)]] minv_managed [OF inv sl] by auto
  qed
  show ?thesis
    using that [OF s'(1,3,2) entry freed] .
qed

lemma user_mem_check_page:
  assumes inv: "minv M A H s" and dir: "i < NENV" "env_pgdir (envs s i) = Some pd" and va: "va < UTOP"
  shows "user_mem_check i va len perm s =
    (if ROUNDUP (va + len) PGSIZE = ROUNDDOWN va PGSIZE
        \<or> (\<exists>pt. pde_of s i (unat (PDX va)) = Some pt \<and> mem s pt (unat (PTX va)) AND perm = perm)
     then Ok 0 s else Ok (- E_FAULT) (s\<lparr>user_mem_check_addr := va\<rparr>))"
proof -
  have pd: "dir_of s i = Some pd"
    using dir by (simp add: dir_of_def)
  note walk = pgdir_walk_find [OF inv pd PDX_below_UTOP [OF va]]
  obtain m where m: "m < 2 ^ 20" "ROUNDUP (va + len) PGSIZE = ROUNDDOWN va PGSIZE + of_nat m * PGSIZE"
    by (rule page_distance)
  have zero: "of_nat m * PGSIZE = 0 \<longleftrightarrow> m = 0"
    using m(1) by (simp add: PGSIZE_def unat_eq_0 [symmetric] unat_word_ariths unat_of_nat)
  have loop: "user_mem_check_loop (Some pd) va perm (ROUNDDOWN va PGSIZE + of_nat m * PGSIZE) 0 (ROUNDDOWN va PGSIZE) s =
    (if m = 0 \<or> va < ULIM \<and> (\<exists>pt. pde_of s i (unat (PDX va)) = Some pt \<and> mem s pt (unat (PTX va)) AND perm = perm)
     then Ok None s else Ok (Some (ROUNDDOWN va PGSIZE)) s)"
    using user_mem_check_loop_eq [OF walk, of 0 m perm "ROUNDDOWN va PGSIZE"] m(1) by simp
  have "\<not> va < ROUNDDOWN va PGSIZE"
    by (simp add: not_less word_le_nat_alt unat_ROUNDDOWN)
  moreover have "va < ULIM"
    using va by (rule order_less_trans) (simp add: const_defs)
  ultimately show ?thesis
    unfolding user_mem_check_def Let_def m(2) dir(2) loop by (auto simp: zero)
qed

section \<open>Properties\<close>

text \<open>
  C9. \<^verbatim>\<open>page_init\<close> establishes the page accounting: it returns, and afterwards the free list holds
  exactly the managed pages (base memory except page 0, and the pages above the boot-time
  allocations), all with count 0, disjoint from the kernel and the I/O hole, with the locks free.
\<close>

theorem page_init_correct:
  assumes "KERNBASE \<le> fm" and "160 \<le> unat ((fm - KERNBASE) div PGSIZE)"
    and "160 \<le> npage s" and "npage s \<le> 2 ^ 20"
    and "\<forall>i < NENV. env_pgdir (envs s i) = None"
    and "160 \<le> boot_pgdir s" and "boot_pgdir s < unat ((fm - KERNBASE) div PGSIZE)"
    and "\<forall>d < NPDE. mem s (boot_pgdir s) d = 0"
    and "\<forall>d p. pte_target (mem s (boot_pgdir s) d) = Some p \<longrightarrow> p < npage s"
  shows "\<exists>s'. page_init fm s = Ok () s' \<and> minv (managed_pages fm (npage s)) {} {} s'
           \<and> \<not> page_table_lock s' \<and> \<not> tlb_lock s'
           \<and> (\<exists>xs. LIST_rep (page_free_list s') xs \<and> set xs = managed_pages fm (npage s)
                  \<and> (\<forall>p \<in> set xs. pp_ref s' p = 0))"
proof -
  obtain s' where s': "page_init fm s = Ok () s'" "minv (managed_pages fm (npage s)) {} {} s'"
    "\<not> page_table_lock s'" "\<not> tlb_lock s'"
    "s' = s\<lparr>pp_ref := pp_ref s', page_free_list := page_free_list s', tlb_lock := False, page_table_lock := False\<rparr>"
    using page_init_minv [of fm s] assms by (metis (full_types))
  have "target s' = (\<lambda>_. None)"
    by (rule target_no_envs) (use assms(5) in \<open>subst s'(5), simp\<close>)
  then have r: "refs (target s') p = {}" for p
    by (simp add: refs_def)
  obtain xs where xs: "LIST_rep (page_free_list s') xs" "set xs = managed_pages fm (npage s)"
    using refinvD(5) [OF minvD(1) [OF s'(2)]] r by auto
  have "pp_ref s' p = 0" if "p \<in> set xs" for p
    using refinvD(7) [OF minvD(1) [OF s'(2)], of p] that xs(2) r by (simp add: unat_eq_0)
  with s' xs show ?thesis
    by blast
qed

theorem page_init_correct_witness:
  "\<exists>s'. page_init 0xF0200000 (example\<lparr>npage := 1024, boot_pgdir := 300, envs := \<lambda>_. free_env\<rparr>) = Ok () s'
     \<and> minv (managed_pages 0xF0200000 1024) {} {} s'"
proof -
  let ?s = "example\<lparr>npage := 1024, boot_pgdir := 300, envs := \<lambda>_. free_env\<rparr>"
  have "unat ((0xF0200000 - KERNBASE) div PGSIZE :: u32) = 512"
    by (simp add: const_defs)
  then show ?thesis
    using page_init_correct [of "0xF0200000" ?s]
    by (auto simp: const_defs free_env_def example_def)
qed

text \<open>
  C8. \<^verbatim>\<open>page_alloc\<close> fails only when the free list is empty, and then changes nothing; otherwise it
  hands out a page that nothing refers to, with count 0, that was not handed out before. Giving the
  page back with \<^verbatim>\<open>page_free\<close> passes its assertion and restores the accounting.
\<close>

theorem page_alloc_free:
  assumes "minv M A {} s" and "\<not> page_table_lock s"
  shows "page_alloc s = Ok (Inl (- E_NO_MEM)) s \<and> LIST_EMPTY (page_free_list s)
    \<or> (\<exists>p s'. page_alloc s = Ok (Inr p) s' \<and> p \<in> M - A \<and> pp_ref s p = 0
         \<and> refs (target s) p = {} \<and> minv M (insert p A) {} s'
         \<and> (\<exists>s''. page_free p s' = Ok () s'' \<and> minv M A {} s''))"
  using assms
proof (cases rule: page_alloc_spec)
  case none
  then show ?thesis
    by (simp add: LIST_EMPTY_def LIST_FIRST_def)
next
  case (some p q)
  have "insert p A - {p} = A"
    using some(4) by blast
  then have "\<exists>s''. page_free p (s\<lparr>page_free_list := q\<rparr>) = Ok () s'' \<and> minv M A {} s''"
    using page_free_spec [OF some(2), of p] assms(2) by auto
  with some show ?thesis
    by blast
qed

theorem page_alloc_free_witness:
  "\<exists>p s'. page_alloc example = Ok (Inr p) s' \<and> p \<in> {1..<8} \<and> minv {1..<8} {p} {} s'"
proof -
  have "\<not> LIST_EMPTY (page_free_list example)"
    by (simp add: example_def LIST_INSERT_HEAD_def LIST_EMPTY_def Let_def)
  then show ?thesis
    using page_alloc_free [OF example_minv] by auto
qed

text \<open>
  C6. \<^verbatim>\<open>page_insert\<close> of a freshly allocated page, or of a page already mapped somewhere, into an
  environment's address space: it fails only for want of a page for the page table, leaving the state as it
  was. Otherwise the page is mapped at \<open>va\<close> with the given permissions, every other address of every
  environment translates as before, the contents of the page and of all mapped pages are unchanged, no
  assertion fails and the accounting of references is kept (a page displaced from \<open>va\<close> is freed exactly
  when that was its last reference).
\<close>

theorem page_insert_correct:
  assumes inv: "minv M A {} s" and ready: "tlb_ready s"
    and dir: "i < NENV" "env_pgdir (envs s i) = Some pd" and va: "va < UTOP" and perm: "PPN perm = 0"
    and p: "p \<in> A \<or> (\<exists>j va' w. va_entry s j va' = Some w \<and> unat (PPN w) = p)"
  shows "page_insert (Some pd) p va perm s = Ok (- E_NO_MEM) s \<and> LIST_EMPTY (page_free_list s)
    \<or> (\<exists>s'. page_insert (Some pd) p va perm s = Ok 0 s' \<and> minv M (A - {p}) {} s' \<and> tlb_ready s'
         \<and> (\<forall>j va'. va_entry s' j va' =
               (if j = i \<and> VPN va' = VPN va then Some (page2pa p OR perm OR PTE_P) else va_entry s j va'))
         \<and> mem s' p = mem s p
         \<and> (\<forall>j va' w. va_entry s j va' = Some w \<longrightarrow> mem s' (unat (PPN w)) = mem s (unat (PPN w))))"
  using inv ready dir va perm p
proof (cases rule: insert_va)
  case (mapped s')
  then show ?thesis
    using ready pframe_simps(12) [OF mapped(3)] by blast
qed simp

theorem page_insert_correct_witness:
  "\<exists>p s s'. page_alloc example = Ok (Inr p) s \<and> page_insert (Some 1) p 0x800000 7 s = Ok 0 s'
     \<and> va_entry s' 0 0x800000 = Some (page2pa p OR 7 OR PTE_P)"
  using example_minv example_simps(5)
proof (cases rule: page_alloc_spec)
  case none
  then show ?thesis
    by (simp add: example_def LIST_INSERT_HEAD_def LIST_FIRST_def Let_def)
next
  case (some p q)
  let ?s = "example\<lparr>page_free_list := q\<rparr>"
  have s: "tlb_ready ?s" "env_pgdir (envs ?s 0) = Some 1"
    using pframe_simps(12) [OF pframe_free_list [of example q]] by simp_all
  have c: "0 < NENV" "0x800000 < UTOP" "PPN 7 = 0"
    by (simp_all add: const_defs PPN_def)
  have "page_insert (Some 1) p 0x800000 7 ?s = Ok (- E_NO_MEM) ?s \<and> LIST_EMPTY (page_free_list ?s)
     \<or> (\<exists>s'. page_insert (Some 1) p 0x800000 7 ?s = Ok 0 s' \<and> va_entry s' 0 0x800000 = Some (page2pa p OR 7 OR PTE_P))"
    using page_insert_correct [OF some(2) s(1) c(1) s(2) c(2,3), of p] by auto
  moreover have "\<not> LIST_EMPTY q"
  proof -
    have "LIST_REMOVE 2 (page_free_list example) = Some q" "p = 2"
      using some(1)
      by (simp_all add: page_alloc_def example_def LIST_EMPTY_def LIST_FIRST_def LIST_INSERT_HEAD_def Let_def
          spin_lock_def spin_unlock_def LIST_REMOVE_def split: if_splits)
    then show ?thesis
      by (auto simp: example_def LIST_INSERT_HEAD_def LIST_REMOVE_def LIST_EMPTY_def Let_def)
  qed
  ultimately show ?thesis
    using some(1) by auto
qed

text \<open>
  C7. \<^verbatim>\<open>page_remove\<close> always returns: afterwards \<open>va\<close> is unmapped in the environment, every other
  address of every environment translates as before, the accounting is kept, and the page that was
  mapped is on the free list exactly when no other reference to it is left.
\<close>

theorem page_remove_correct:
  assumes inv: "minv M {} {} s" and ready: "tlb_ready s"
    and dir: "i < NENV" "env_pgdir (envs s i) = Some pd" and va: "va < UTOP"
  shows "\<exists>s'. page_remove (Some pd) va s = Ok () s' \<and> minv M {} {} s' \<and> tlb_ready s'
     \<and> (\<forall>j va'. va_entry s' j va' = (if j = i \<and> VPN va' = VPN va then None else va_entry s j va'))
     \<and> (\<forall>w. va_entry s i va = Some w \<longrightarrow>
          (\<exists>xs. LIST_rep (page_free_list s') xs
             \<and> (unat (PPN w) \<in> set xs \<longleftrightarrow>
                  refs (target s) (unat (PPN w)) = {Pt i (unat (PDX va)) (unat (PTX va))})))"
proof -
  obtain s' where s': "page_remove (Some pd) va s = Ok () s'" "minv M {} {} s'" "pframe s s'"
    "\<And>j va'. va_entry s' j va' = (if j = i \<and> VPN va' = VPN va then None else va_entry s j va')"
    "\<And>w. va_entry s i va = Some w \<Longrightarrow>
        \<exists>xs. LIST_rep (page_free_list s') xs
             \<and> (unat (PPN w) \<in> set xs \<longleftrightarrow>
                  refs (target s) (unat (PPN w)) = {Pt i (unat (PDX va)) (unat (PTX va))})"
    using remove_va [OF assms] by blast
  then show ?thesis
    using ready pframe_simps(12) [OF s'(3)] by blast
qed

theorem page_remove_correct_witness:
  "\<exists>s'. page_remove (Some 1) 0x800000 example = Ok () s' \<and> va_entry s' 0 0x800000 = None"
  using page_remove_correct [OF example_minv, of 0 1 "0x800000"] by (auto simp: const_defs)

text \<open>
  C10. What \<^verbatim>\<open>user_mem_check\<close> checks: the page of \<open>va\<close> itself, whatever the length. For an address below
  \<^verbatim>\<open>UTOP\<close> it returns 0, changing nothing, when the rounded range is empty or when the entry of the page
  containing \<open>va\<close> has all the bits of \<open>perm\<close>; otherwise it returns \<^verbatim>\<open>-E_FAULT\<close> and records \<open>va\<close>. It
  always terminates.
\<close>

theorem user_mem_check_exact:
  assumes inv: "minv M A H s" and dir: "i < NENV" "env_pgdir (envs s i) = Some pd" and va: "va < UTOP"
  shows "user_mem_check i va len perm s =
    (if ROUNDUP (va + len) PGSIZE = ROUNDDOWN va PGSIZE
        \<or> (\<exists>pt. pde_of s i (unat (PDX va)) = Some pt \<and> mem s pt (unat (PTX va)) AND perm = perm)
     then Ok 0 s else Ok (- E_FAULT) (s\<lparr>user_mem_check_addr := va\<rparr>))"
  by (rule user_mem_check_page [OF assms])

theorem user_mem_check_exact_witness:
  "user_mem_check 0 0x800000 0x5000 PTE_U example = Ok (- E_FAULT) (example\<lparr>user_mem_check_addr := 0x800000\<rparr>)"
proof -
  have "ROUNDUP (0x800000 + 0x5000) PGSIZE \<noteq> ROUNDDOWN 0x800000 PGSIZE"
    by (simp add: const_defs ROUNDUP_def ROUNDDOWN_def)
  moreover have "pde_of example 0 d = None" for d
    using fun_cong [OF example_target, of "Pd 0 d"] by simp
  ultimately show ?thesis
    using user_mem_check_exact [OF example_minv, of 0 1 "0x800000" "0x5000" PTE_U] by (simp add: const_defs)
qed

end
