(* ===== verification/Env.thy ===== *)
theory Env
  imports Pmap_Props
begin

text \<open>
  Environments (user processes): \<^verbatim>\<open>kern/env.c\<close> and the round-robin scheduler of \<^verbatim>\<open>kern/sched.c\<close>.
  After the operations come the invariant of the environment table and the proofs that allocating
  and freeing environments keep it together with the page accounting.
\<close>

section \<open>Operations\<close>

definition ENVGENSHIFT :: nat where [const_defs]: "ENVGENSHIFT = 12"

text \<open>Dereferencing a \<^verbatim>\<open>struct Env *\<close> that may be null.\<close>

definition the_env :: "nat option \<Rightarrow> kstate \<Rightarrow> (nat, kstate) kres" where
  "the_env e s = (case e of None \<Rightarrow> Panic ''page fault'' | Some e \<Rightarrow> Ok e s)"

text \<open>\<open>Inr e\<close> stands for the return value 0 with \<^verbatim>\<open>*env_store\<close> set to \<open>e\<close>.\<close>

definition envid2env :: "u32 \<Rightarrow> bool \<Rightarrow> kstate \<Rightarrow> (int + nat option, kstate) kres" where
  "envid2env envid checkperm s =
     (if envid = 0 then Ok (Inr (curenv s)) s
      else
        let e = unat (ENVX envid) in
        if env_status (envs s e) = ENV_FREE \<or> env_id (envs s e) \<noteq> envid then Ok (Inl (- E_BAD_ENV)) s
        else if checkperm \<and> Some e \<noteq> curenv s then
          kbind (the_curenv s) (\<lambda>c s.
            if env_parent_id (envs s e) \<noteq> env_id (envs s c) then Ok (Inl (- E_BAD_ENV)) s
            else Ok (Inr (Some e)) s)
        else Ok (Inr (Some e)) s)"

definition env_init :: "kstate \<Rightarrow> kstate" where
  "env_init s =
     (let s = fold (\<lambda>i s.
            let s = upd_env i (\<lambda>e. e\<lparr>env_status := ENV_FREE\<rparr>) s;
                s = upd_env i (\<lambda>e. e\<lparr>env_id := 0\<rparr>) s;
                s = s\<lparr>env_free_list := LIST_INSERT_HEAD i (env_free_list s)\<rparr>
            in spin_unlock (env_lock_of_update i) s) (rev [0..<NENV]) s
      in spin_unlock env_table_lock_update s)"

definition env_setup_vm :: "nat \<Rightarrow> kstate \<Rightarrow> (int, kstate) kres" where
  "env_setup_vm e s =
     kbind (page_alloc s) (\<lambda>r s. case r of Inl r \<Rightarrow> Ok r s
     | Inr p \<Rightarrow>
         let s = atomic_inc p s in
         kbind (page2kva p s) (\<lambda>kva s.
         let s = s\<lparr>mem := (mem s)(kva := mem s (boot_pgdir s))\<rparr> in
         kbind (page2kva p s) (\<lambda>kva s.
         let s = upd_env e (\<lambda>x. x\<lparr>env_pgdir := Some kva\<rparr>) s;
             s = upd_env e (\<lambda>x. x\<lparr>env_cr3 := page2pa p\<rparr>) s;
             s = wr kva (unat (PDX VPT)) (env_cr3 (envs s e) OR PTE_P OR PTE_W) s;
             s = wr kva (unat (PDX UVPT)) (env_cr3 (envs s e) OR PTE_P OR PTE_U) s
         in Ok 0 s)))"

text \<open>The identifier of the next environment that uses a slot, from the previous one.\<close>

definition env_generation :: "u32 \<Rightarrow> u32" where
  "env_generation old =
     (let generation = (old + push_bit ENVGENSHIFT 1) AND NOT (of_nat NENV - 1)
      in if sint generation \<le> 0 then push_bit ENVGENSHIFT 1 else generation)"

definition env_alloc :: "u32 \<Rightarrow> kstate \<Rightarrow> (int + nat, kstate) kres" where
  "env_alloc parent_id s =
     kbind (spin_lock env_table_lock env_table_lock_update s) (\<lambda>_ s.
     case LIST_FIRST (env_free_list s) of
       None \<Rightarrow> Ok (Inl (- E_NO_FREE_ENV)) (spin_unlock env_table_lock_update s)
     | Some e \<Rightarrow>
       kbind (env_setup_vm e s) (\<lambda>r s.
       if r < 0 then Ok (Inl r) (spin_unlock env_table_lock_update s)
       else
         let s = upd_env e (\<lambda>x. x\<lparr>env_id := env_generation (env_id x) OR of_nat e\<rparr>) s;
             s = upd_env e (\<lambda>x. x\<lparr>env_parent_id := parent_id, env_status := ENV_RUNNABLE, env_runs := 0\<rparr>) s;
             s = upd_env e (\<lambda>x. x\<lparr>env_tf := zero_tf\<lparr>tf_ds := GD_UD OR 3, tf_es := GD_UD OR 3,
                   tf_ss := GD_UD OR 3, tf_esp := USTACKTOP, tf_cs := GD_UT OR 3, tf_eflags := FL_IF\<rparr>\<rparr>) s;
             s = upd_env e (\<lambda>x. x\<lparr>env_pgfault_upcall := 0\<rparr>) s;
             s = upd_env e (\<lambda>x. x\<lparr>env_ipc_recving := False\<rparr>) s;
             s = (if e = 1 then upd_env e (\<lambda>x. x\<lparr>env_tf := (env_tf x)\<lparr>tf_eflags := tf_eflags (env_tf x) OR FL_IOPL_3\<rparr>\<rparr>) s
                  else s)
         in (case LIST_REMOVE e (env_free_list s) of
               None \<Rightarrow> Panic ''page fault''
             | Some q \<Rightarrow>
                 let s = s\<lparr>env_free_list := q\<rparr>
                 in Ok (Inr e) (spin_unlock env_table_lock_update s))))"

text \<open>The result of \<^verbatim>\<open>page_insert\<close> is ignored, as in the code.\<close>

definition segment_alloc :: "nat \<Rightarrow> u32 \<Rightarrow> u32 \<Rightarrow> kstate \<Rightarrow> (unit, kstate) kres" where
  "segment_alloc e va len s =
     (let v = ROUNDDOWN va PGSIZE;
          np = unat (ROUNDUP len PGSIZE div PGSIZE)
      in kfor [0..<np] (\<lambda>i s.
           kbind (page_alloc s) (\<lambda>r s. case r of Inl _ \<Rightarrow> Panic ''segment_alloc''
           | Inr p \<Rightarrow>
               kbind (page_insert (env_pgdir (envs s e)) p (v + of_nat i * PGSIZE) (PTE_U OR PTE_W OR PTE_P) s)
                 (\<lambda>_ s. Ok () s))) s)"

text \<open>Unmapping all entries of one page table and freeing the table.\<close>

definition env_free_table :: "nat \<Rightarrow> nat \<Rightarrow> kstate \<Rightarrow> (unit, kstate) kres" where
  "env_free_table e pdeno s =
     kbind (the_env (env_pgdir (envs s e)) s) (\<lambda>pd s.
     if mem s pd pdeno AND PTE_P = 0 then Ok () s
     else
       let pa = PTE_ADDR (mem s pd pdeno) in
       kbind (KADDR pa s) (\<lambda>pt s.
       kbind (kfor [0..<Suc (unat (PTX (NOT 0)))] (\<lambda>pteno s.
                if mem s pt pteno AND PTE_P \<noteq> 0
                then page_remove (env_pgdir (envs s e)) (PGADDR (of_nat pdeno) (of_nat pteno) 0) s
                else Ok () s) s) (\<lambda>_ s.
       let s = wr pd pdeno 0 s in
       kbind (pa2page pa s) (\<lambda>pp s. page_decref pp s))))"

definition env_free :: "nat \<Rightarrow> kstate \<Rightarrow> (unit, kstate) kres" where
  "env_free e s =
     (if env_status (envs s e) = ENV_FREE then Ok () s
      else
        let s = (if Some e = curenv s then hw (Lcr3 (boot_cr3 s)) s else s) in
        kbind (kfor [0..<unat (PDX UTOP)] (env_free_table e) s) (\<lambda>_ s.
        let pa = env_cr3 (envs s e);
            s = upd_env e (\<lambda>x. x\<lparr>env_pgdir := None\<rparr>) s;
            s = upd_env e (\<lambda>x. x\<lparr>env_cr3 := 0\<rparr>) s
        in kbind (pa2page pa s) (\<lambda>pp s.
           kbind (page_decref pp s) (\<lambda>_ s.
           let s = upd_env e (\<lambda>x. x\<lparr>env_status := ENV_FREE\<rparr>) s in
           kbind (spin_lock env_table_lock env_table_lock_update s) (\<lambda>_ s.
           let s = s\<lparr>env_free_list := LIST_INSERT_HEAD e (env_free_list s)\<rparr>
           in Ok () (spin_unlock env_table_lock_update s))))))"

text \<open>Restoring a trap frame with \<^verbatim>\<open>iret\<close> leaves the kernel.\<close>

definition env_pop_tf :: "trapframe \<Rightarrow> kstate \<Rightarrow> ('a, kstate) kres" where
  "env_pop_tf tf s = Iret (hw (Iret_tf tf) s)"

definition env_run :: "nat \<Rightarrow> kstate \<Rightarrow> ('a, kstate) kres" where
  "env_run e s =
     (let s = s\<lparr>curenv := Some e\<rparr>;
          s = upd_env e (\<lambda>x. x\<lparr>env_runs := env_runs x + 1\<rparr>) s;
          s = hw (Lcr3 (env_cr3 (envs s e))) s;
          s = upd_env e (\<lambda>x. x\<lparr>env_status := ENV_RUNNING\<rparr>) s;
          s = spin_unlock (env_lock_of_update e) s
      in env_pop_tf (env_tf (envs s e)) s)"

text \<open>The scheduler's loop over the environments after the previously run one; environment 0 is skipped.\<close>

definition sched_next :: "nat \<Rightarrow> nat" where
  "sched_next pre = (if (pre + 1) mod NENV \<noteq> 0 then (pre + 1) mod NENV else 1)"

fun sched_loop :: "nat \<Rightarrow> kstate \<Rightarrow> (unit, kstate) kres" where
  "sched_loop 0 s = Ok () s"
| "sched_loop (Suc n) s =
     (let pre = sched_next (sched_pre s);
          s = s\<lparr>sched_pre := pre\<rparr>
      in kbind (spin_lock (env_lock_of pre) (env_lock_of_update pre) s) (\<lambda>_ s.
           if env_status (envs s pre) = ENV_RUNNABLE
           then env_run pre (spin_unlock env_table_lock_update s)
           else sched_loop n (spin_unlock (env_lock_of_update pre) s)))"

definition sched_yield :: "kstate \<Rightarrow> ('a, kstate) kres" where
  "sched_yield s =
     kbind (spin_lock env_table_lock env_table_lock_update s) (\<lambda>_ s.
     kbind (sched_loop (NENV - 1) s) (\<lambda>_ s.
     let s = spin_unlock env_table_lock_update s in
     if env_status (envs s 0) \<noteq> ENV_RUNNABLE then Idle s
     else kbind (spin_lock (env_lock_of 0) (env_lock_of_update 0) s) (\<lambda>_ s. env_run 0 s)))"

definition env_destroy :: "nat \<Rightarrow> kstate \<Rightarrow> (unit, kstate) kres" where
  "env_destroy e s =
     kbind (env_free e s) (\<lambda>_ s.
       if curenv s = Some e then sched_yield (s\<lparr>curenv := None\<rparr>) else Ok () s)"

text \<open>\<^verbatim>\<open>user_mem_assert\<close> of \<^verbatim>\<open>kern/pmap.c\<close>; its message reads \<^verbatim>\<open>curenv->env_id\<close>.\<close>

definition user_mem_assert :: "nat \<Rightarrow> u32 \<Rightarrow> u32 \<Rightarrow> u32 \<Rightarrow> kstate \<Rightarrow> (unit, kstate) kres" where
  "user_mem_assert env va len perm s =
     kbind (user_mem_check env va len (perm OR PTE_U) s) (\<lambda>r s.
       if r < 0 then kbind (the_curenv s) (\<lambda>_ s. env_destroy env s) else Ok () s)"

section \<open>The invariant of the environment table\<close>

definition env_ok :: "nat \<Rightarrow> env \<Rightarrow> bool" where
  "env_ok i e \<longleftrightarrow>
     (env_status e = ENV_FREE \<longleftrightarrow> env_pgdir e = None) \<and> env_status e \<le> ENV_RUNNING
     \<and> (\<forall>p. env_pgdir e = Some p \<longrightarrow> env_cr3 e = page2pa p)
     \<and> 0 \<le> sint (env_id e)
     \<and> (env_status e \<noteq> ENV_FREE \<longrightarrow> 0 < sint (env_id e) \<and> unat (ENVX (env_id e)) = i)
     \<and> env_ipc_dstva e < UTOP \<and> \<not> env_lock e"

definition einv :: "kstate \<Rightarrow> bool" where
  "einv s \<longleftrightarrow>
     (\<forall>i < NENV. env_ok i (envs s i)) \<and> \<not> env_table_lock s \<and> sched_pre s < NENV
     \<and> (\<exists>xs. LIST_rep (env_free_list s) xs \<and> set xs = {i. i < NENV \<and> env_status (envs s i) = ENV_FREE})"

text \<open>The kernel invariant between two system calls: \<open>M\<close> the managed pages, \<open>A\<close> the pages in flight.\<close>

definition dev_inv :: "kstate \<Rightarrow> bool" where
  "dev_inv s \<longleftrightarrow> cons_inv (cons s) \<and> tx_inv (nic s) \<and> rx_inv (nic s)"

definition kinv :: "nat set \<Rightarrow> nat set \<Rightarrow> kstate \<Rightarrow> bool" where
  "kinv M A s \<longleftrightarrow> minv M A {} s \<and> einv s \<and> \<not> page_table_lock s \<and> \<not> tlb_lock s \<and> dev_inv s"

lemma einvD:
  assumes "einv s"
  shows "\<And>i. i < NENV \<Longrightarrow> env_ok i (envs s i)" and "\<not> env_table_lock s" and "sched_pre s < NENV"
    and "\<exists>xs. LIST_rep (env_free_list s) xs \<and> set xs = {i. i < NENV \<and> env_status (envs s i) = ENV_FREE}"
  using assms by (auto simp: einv_def)

lemma kinvD:
  assumes "kinv M A s"
  shows "minv M A {} s" "einv s" "\<not> page_table_lock s" "\<not> tlb_lock s" "dev_inv s"
  using assms by (simp_all add: kinv_def)

lemma dev_inv_cong: "cons s' = cons s \<Longrightarrow> nic s' = nic s \<Longrightarrow> dev_inv s' = dev_inv s"
  by (simp add: dev_inv_def)

lemma einv_cong:
  assumes "envs s' = envs s" "env_table_lock s' = env_table_lock s" "sched_pre s' = sched_pre s"
    "env_free_list s' = env_free_list s"
  shows "einv s' = einv s"
  by (simp add: einv_def assms)

lemma kinv_pframe: "kinv M A s \<Longrightarrow> pframe s s' \<Longrightarrow> minv M A' {} s' \<Longrightarrow> kinv M A' s'"
  unfolding kinv_def using einv_cong [of s' s] dev_inv_cong [of s' s] by (simp add: pframe_simps)

lemma kinv_tlb_ready: "kinv M A s \<Longrightarrow> (ismp s \<longrightarrow> curenv s \<noteq> None) \<Longrightarrow> tlb_ready s"
  by (simp add: kinv_def tlb_ready_def)

lemma kinv_dir:
  assumes "kinv M A s" and "e < NENV" and "env_status (envs s e) \<noteq> ENV_FREE"
  obtains pd where "env_pgdir (envs s e) = Some pd" and "dir_of s e = Some pd" and "env_cr3 (envs s e) = page2pa pd"
  using einvD(1) [OF kinvD(2) [OF assms(1)] assms(2)] assms(2,3)
  by (auto simp: env_ok_def dir_of_def)

section \<open>Directories of environments\<close>

lemma target_add_dir:
  assumes none: "dir_of s e = None" and e: "e < NENV" and fresh: "refs (target s) p = {}"
    and mem: "\<And>q. q \<noteq> p \<Longrightarrow> mem s' q = mem s q"
    and dirs: "\<And>i. env_pgdir (envs s' i) = (if i = e then Some p else env_pgdir (envs s i))"
    and user: "\<And>d. d < NPDE \<Longrightarrow> pte_target (mem s' p d) = None"
  shows "target s' = (target s)(Dir e := Some p)"
proof -
  have ne: "target s sl \<noteq> Some p" for sl
    using fresh by (auto simp: refs_def)
  have dir: "dir_of s' j = (if j = e then Some p else dir_of s j)" for j
    using dirs e by (simp add: dir_of_def)
  have pde: "pde_of s' j d = pde_of s j d" for j d
    using dir user none mem ne [of "Dir j"]
    by (cases "j = e"; cases "dir_of s j") (auto simp: pde_of_cases)
  have pte: "pte_of s' j d t = pte_of s j d t" for j d t
    using pde mem ne [of "Pd j d"] by (cases "pde_of s j d") (auto simp: pte_of_cases)
  show ?thesis
  proof
    fix sl
    show "target s' sl = ((target s)(Dir e := Some p)) sl"
      by (cases sl) (simp_all add: dir pde pte)
  qed
qed

lemma target_del_dir:
  assumes empty: "\<And>d. pde_of s e d = None" and mem: "mem s' = mem s"
    and dirs: "\<And>i. env_pgdir (envs s' i) = (if i = e then None else env_pgdir (envs s i))"
  shows "target s' = (target s)(Dir e := None)"
proof -
  have dir: "dir_of s' j = (if j = e then None else dir_of s j)" for j
    using dirs by (simp add: dir_of_def)
  have pde: "pde_of s' j d = pde_of s j d" for j d
    using empty [of d] by (cases "j = e") (simp_all add: pde_of_def dir mem)
  have pte: "pte_of s' j d t = pte_of s j d t" for j d t
    by (simp add: pte_of_def pde mem)
  show ?thesis
  proof
    fix sl
    show "target s' sl = ((target s)(Dir e := None)) sl"
      by (cases sl) (simp_all add: dir pde pte)
  qed
qed

lemma upd_env_simps [simp]:
  "envs (upd_env e f s) = (envs s)(e := f (envs s e))" "mem (upd_env e f s) = mem s"
  "pp_ref (upd_env e f s) = pp_ref s" "page_free_list (upd_env e f s) = page_free_list s"
  "npage (upd_env e f s) = npage s" "boot_pgdir (upd_env e f s) = boot_pgdir s"
  "curenv (upd_env e f s) = curenv s" "env_table_lock (upd_env e f s) = env_table_lock s"
  "env_free_list (upd_env e f s) = env_free_list s" "sched_pre (upd_env e f s) = sched_pre s"
  "page_table_lock (upd_env e f s) = page_table_lock s" "tlb_lock (upd_env e f s) = tlb_lock s"
  "ismp (upd_env e f s) = ismp s" "cons (upd_env e f s) = cons s" "nic (upd_env e f s) = nic s"
  by (simp_all add: upd_env_def)

text \<open>The state after \<^verbatim>\<open>env_setup_vm\<close> has taken page \<open>p\<close>.\<close>

definition set_dir :: "nat \<Rightarrow> nat \<Rightarrow> (nat \<Rightarrow> u32) \<Rightarrow> nat qlist \<Rightarrow> (nat \<Rightarrow> nat \<Rightarrow> u32) \<Rightarrow> kstate \<Rightarrow> kstate" where
  "set_dir e p r q m s = s\<lparr>pp_ref := r, page_free_list := q, mem := m,
     envs := (envs s)(e := (envs s e)\<lparr>env_pgdir := Some p, env_cr3 := page2pa p\<rparr>)\<rparr>"

lemma env_setup_vm_spec:
  assumes inv: "minv M {} {} s" and lock: "\<not> page_table_lock s" and e: "e < NENV"
    and none: "env_pgdir (envs s e) = None"
  obtains (fail) "env_setup_vm e s = Ok (- E_NO_MEM) s" "LIST_FIRST (page_free_list s) = None"
  | (made) p r q m where "env_setup_vm e s = Ok 0 (set_dir e p r q m s)" "minv M {} {} (set_dir e p r q m s)"
      "target (set_dir e p r q m s) = (target s)(Dir e := Some p)"
      "\<And>x. x \<noteq> p \<Longrightarrow> m x = mem s x" "refs (target s) p = {}" "p \<in> M"
  using inv lock
proof (cases rule: page_alloc_spec)
  case none
  then show ?thesis
    by (intro fail) (simp_all add: env_setup_vm_def)
next
  case (some p q)
  let ?row = "((mem s (boot_pgdir s))(unat (PDX VPT) := page2pa p OR PTE_P OR PTE_W,
     unat (PDX UVPT) := page2pa p OR PTE_P OR PTE_U))"
  let ?s' = "set_dir e p ((pp_ref s)(p := pp_ref s p + 1)) q ((mem s)(p := ?row)) s"
  have kva: "page2kva p t = Ok p t" if "npage t = npage s" for t
    using page2kva_eq [OF inv some(3)] that by (simp add: page2kva_def KADDR_def split: if_splits)
  have run: "env_setup_vm e s = Ok 0 ?s'"
    by (simp add: env_setup_vm_def some(1) kva atomic_inc_def upd_env_def wr_def set_dir_def)
  have T: "target ?s' = (target s)(Dir e := Some p)"
    using none e some(6) minvD(5) [OF inv] kernel_pdes
    by (intro target_add_dir) (auto simp: dir_of_def set_dir_def)
  have "refinv M (insert p {} - {p}) (insert p {} - {p}) ((target s)(Dir e := Some p))
      ((pp_ref s)(p := pp_ref s p + 1)) q"
    using some(4-6) minvD(1) [OF some(2)] e none
    by (intro refinv_install refinv_hold) (auto simp: dir_of_def)
  then have R: "refinv M {} {} (target ?s') (pp_ref ?s') (page_free_list ?s')"
    unfolding T by (simp add: set_dir_def)
  have "boot_pgdir s \<noteq> p"
    using minvD(4) [OF inv] some(3) by blast
  then have "kmap ?s'"
  proof (intro kmap_change [OF minvD(6) [OF inv]])
    fix i pd d
    assume i: "dir_of ?s' i = Some pd" "NPDE \<le> d"
    show "dir_of s i = Some pd \<and> mem ?s' pd d = mem s pd d \<or> mem ?s' pd d = kern_pde s pd d"
    proof (cases "i = e")
      case True
      then show ?thesis
        using i self_maps by (auto simp: set_dir_def dir_of_def kern_pde_def split: if_splits)
    next
      case False
      then have "dir_of s i = Some pd"
        using i by (simp add: set_dir_def dir_of_def split: if_splits)
      moreover from this have "pd \<noteq> p"
        using some(6) by (auto simp: refs_def dest: spec [of _ "Dir i"])
      ultimately show ?thesis
        by (simp add: set_dir_def)
    qed
  qed (simp_all add: set_dir_def)
  with \<open>boot_pgdir s \<noteq> p\<close> have inv': "minv M {} {} ?s'"
    using R inv by (simp add: minv_def set_dir_def)
  show ?thesis
    by (rule made [OF run inv' T _ some(6,3)]) simp
qed

section \<open>Environment identifiers\<close>

lemma NENV_mask: "of_nat NENV - 1 = (mask 10 :: u32)"
  by (simp add: const_defs mask_eq_exp_minus_1)

lemma and_not_mask: "x AND NOT (mask 10) = push_bit 10 (drop_bit 10 x)" for x :: u32
  by (rule bit_word_eqI) (auto simp: bit_simps)

lemma unat_clear_low: "unat (push_bit 10 (drop_bit 10 x) :: u32) = unat x div 1024 * 1024"
proof -
  have "unat x div 1024 * 1024 < 4294967296"
    using unat_u32_less [of x] div_times_less_eq_dividend [of "unat x" 1024] by linarith
  then show ?thesis
    by (simp add: push_bit_eq_mult unat_word_ariths unat_drop_bit)
qed

lemma unat_env_generation:
  "unat (env_generation old) =
     (let g = unat (old + 4096) div 1024 * 1024 in if 0 < g \<and> g < 2 ^ 31 then g else 4096)"
  using sint_pos_iff [of "push_bit 10 (drop_bit 10 (old + 4096))"]
  by (auto simp: env_generation_def NENV_mask and_not_mask unat_clear_low ENVGENSHIFT_def Let_def not_less)

lemma env_generation_bounds:
  "0 < unat (env_generation old)" "unat (env_generation old) < 2 ^ 31" "unat (env_generation old) mod 1024 = 0"
  unfolding unat_env_generation Let_def by auto

lemma env_generation_new:
  assumes "unat old < 2 ^ 31"
  shows "unat (env_generation old) div 1024 \<noteq> unat old div 1024"
proof -
  have "unat (old + 4096) = unat old + 4096"
    using assms by (simp add: unat_word_ariths)
  then show ?thesis
    using assms unfolding unat_env_generation Let_def by auto
qed

lemma unat_env_id:
  assumes "e < NENV"
  shows "unat (env_generation old OR of_nat e) = unat (env_generation old) + e"
proof -
  let ?g = "env_generation old"
  have e: "e < 1024"
    using assms by (simp add: const_defs)
  have "unat (take_bit 10 ?g) = 0"
    using env_generation_bounds(3) [of old] by (simp add: unat_take_bit)
  then have low: "take_bit 10 ?g = 0"
    by (simp only: unat_eq_0)
  have "?g AND of_nat e = 0"
  proof (rule bit_word_eqI)
    fix n
    have "\<not> bit ?g n" if "n < 10"
      using arg_cong [OF low, of "\<lambda>w. bit w n"] that by (simp add: bit_take_bit_iff)
    moreover have "n < 10" if "bit (of_nat e :: u32) n"
      using that bit_small [of "of_nat e" 10 n] e by (simp add: unat_of_nat)
    ultimately show "bit (?g AND of_nat e) n = bit (0 :: u32) n"
      by (auto simp: bit_and_iff)
  qed
  then have "?g OR of_nat e = ?g + of_nat e"
    by (simp add: disjunctive_add_eq_or)
  then show ?thesis
    using env_generation_bounds(2) [of old] e by (simp add: unat_word_ariths unat_of_nat)
qed

section \<open>Allocating an environment\<close>

text \<open>What \<^verbatim>\<open>env_alloc\<close> makes of the slot \<open>e\<close> whose previous contents are \<open>x\<close>.\<close>

definition new_env :: "u32 \<Rightarrow> nat \<Rightarrow> nat \<Rightarrow> env \<Rightarrow> env" where
  "new_env parent e p x =
     (let x = x\<lparr>env_pgdir := Some p, env_cr3 := page2pa p,
        env_id := env_generation (env_id x) OR of_nat e, env_parent_id := parent,
        env_status := ENV_RUNNABLE, env_runs := 0,
        env_tf := zero_tf\<lparr>tf_ds := GD_UD OR 3, tf_es := GD_UD OR 3, tf_ss := GD_UD OR 3,
          tf_esp := USTACKTOP, tf_cs := GD_UT OR 3, tf_eflags := FL_IF\<rparr>,
        env_pgfault_upcall := 0, env_ipc_recving := False\<rparr>
      in if e = 1 then x\<lparr>env_tf := (env_tf x)\<lparr>tf_eflags := tf_eflags (env_tf x) OR FL_IOPL_3\<rparr>\<rparr> else x)"

lemma new_env_simps [simp]:
  "env_pgdir (new_env parent e p x) = Some p" "env_cr3 (new_env parent e p x) = page2pa p"
  "env_id (new_env parent e p x) = env_generation (env_id x) OR of_nat e"
  "env_parent_id (new_env parent e p x) = parent" "env_status (new_env parent e p x) = ENV_RUNNABLE"
  "env_ipc_recving (new_env parent e p x) = False" "env_ipc_dstva (new_env parent e p x) = env_ipc_dstva x"
  "env_lock (new_env parent e p x) = env_lock x" "env_pgfault_upcall (new_env parent e p x) = 0"
  by (simp_all add: new_env_def Let_def)

lemma env_ok_new_env:
  assumes "e < NENV" and "env_ok e x"
  shows "env_ok e (new_env parent e p x)"
proof -
  let ?id = "env_generation (env_id x) OR of_nat e"
  have e: "e < 1024"
    using assms(1) by (simp add: const_defs)
  have id: "unat ?id = unat (env_generation (env_id x)) + e"
    by (rule unat_env_id [OF assms(1)])
  have "unat (env_generation (env_id x)) = unat (env_generation (env_id x)) div 1024 * 1024"
    using env_generation_bounds(3) [of "env_id x"] by (simp add: mod_eq_0_iff_dvd)
  moreover have "unat (env_generation (env_id x)) < 2147483648"
    using env_generation_bounds(2) [of "env_id x"] by simp
  moreover from calculation have "unat (env_generation (env_id x)) div 1024 < 2097152"
    by linarith
  ultimately have "unat ?id < 2147483648"
    unfolding id using e by linarith
  then have "0 < sint ?id"
    using env_generation_bounds(1) [of "env_id x"] id by (simp add: sint_pos_iff)
  moreover have "unat (ENVX ?id) = (unat (env_generation (env_id x)) mod 1024 + e) mod 1024"
    unfolding ENVX_def NENV_mask take_bit_eq_mask [symmetric] unat_take_bit id
    by (simp add: mod_add_left_eq)
  then have "unat (ENVX ?id) = e"
    using env_generation_bounds(3) [of "env_id x"] e by simp
  ultimately show ?thesis
    using assms(2) by (simp add: env_ok_def const_defs)
qed

lemma einv_alloc:
  assumes inv: "einv s" and first: "LIST_FIRST (env_free_list s) = Some e"
  obtains q where "LIST_REMOVE e (env_free_list s) = Some q" "e < NENV" "env_status (envs s e) = ENV_FREE"
    "\<And>x s'. env_ok e x \<Longrightarrow> env_status x \<noteq> ENV_FREE \<Longrightarrow> envs s' = (envs s)(e := x) \<Longrightarrow>
       env_free_list s' = q \<Longrightarrow> \<not> env_table_lock s' \<Longrightarrow> sched_pre s' = sched_pre s \<Longrightarrow> einv s'"
proof -
  obtain xs where xs: "LIST_rep (env_free_list s) xs" "set xs = {i. i < NENV \<and> env_status (envs s i) = ENV_FREE}"
    using einvD(4) [OF inv] by blast
  obtain ys where ys: "xs = e # ys"
    using ll.rep_first [OF xs(1)] first by (cases xs) simp_all
  obtain q where q: "LIST_REMOVE e (env_free_list s) = Some q" "LIST_rep q ys"
    using ll.take_first [OF xs(1) [unfolded ys]] by blast
  have e: "e < NENV" "env_status (envs s e) = ENV_FREE" "e \<notin> set ys"
    using xs ys ll.rep_distinct [OF xs(1)] by auto
  have "einv s'" if "env_ok e x" "env_status x \<noteq> ENV_FREE" "envs s' = (envs s)(e := x)"
    "env_free_list s' = q" "\<not> env_table_lock s'" "sched_pre s' = sched_pre s" for x s'
  proof -
    have "set ys = {i. i < NENV \<and> env_status (envs s' i) = ENV_FREE}"
      using xs(2) ys e that(2,3) by auto
    then show ?thesis
      using that q(2) einvD(1,3) [OF inv] by (auto simp: einv_def)
  qed
  with q(1) e show ?thesis
    by (intro that)
qed

lemma minv_env_lock [simp]: "minv M A H (s\<lparr>env_table_lock := b\<rparr>) = minv M A H s"
  by (rule minv_cong) simp_all

lemma target_env_lock [simp]: "target (s\<lparr>env_table_lock := b\<rparr>) = target s"
  by (rule target_cong) simp_all

lemma env_table_unlock:
  "\<not> env_table_lock s \<Longrightarrow> s\<lparr>env_table_lock := False\<rparr> = s"
  by (cases s) simp

text \<open>The state after a successful \<^verbatim>\<open>env_alloc\<close>.\<close>

definition add_env :: "u32 \<Rightarrow> nat \<Rightarrow> nat \<Rightarrow> (nat \<Rightarrow> u32) \<Rightarrow> nat qlist \<Rightarrow> (nat \<Rightarrow> nat \<Rightarrow> u32) \<Rightarrow> nat qlist \<Rightarrow> kstate \<Rightarrow> kstate" where
  "add_env parent e p r q m eq s = s\<lparr>pp_ref := r, page_free_list := q, mem := m,
     envs := (envs s)(e := new_env parent e p (envs s e)), env_free_list := eq\<rparr>"

lemma env_alloc_run:
  assumes "\<not> env_table_lock s" and "LIST_FIRST (env_free_list s) = Some e"
    and "env_setup_vm e (s\<lparr>env_table_lock := True\<rparr>) = Ok 0 (set_dir e p r q m (s\<lparr>env_table_lock := True\<rparr>))"
    and "LIST_REMOVE e (env_free_list s) = Some eq"
  shows "env_alloc parent s = Ok (Inr e) (add_env parent e p r q m eq s)"
  using assms
  by (cases s; cases "e = 1") (simp_all add: env_alloc_def spin_lock_def spin_unlock_def set_dir_def upd_env_def add_env_def new_env_def Let_def)

lemma env_alloc_spec:
  assumes inv: "kinv M {} s"
  obtains (no_env) "env_alloc parent s = Ok (Inl (- E_NO_FREE_ENV)) s" "LIST_FIRST (env_free_list s) = None"
  | (no_mem) "env_alloc parent s = Ok (Inl (- E_NO_MEM)) s" "LIST_FIRST (page_free_list s) = None"
  | (made) e p r q m eq where "env_alloc parent s = Ok (Inr e) (add_env parent e p r q m eq s)"
      "e < NENV" "env_status (envs s e) = ENV_FREE" "kinv M {} (add_env parent e p r q m eq s)"
      "target (add_env parent e p r q m eq s) = (target s)(Dir e := Some p)"
      "\<And>x. x \<noteq> p \<Longrightarrow> m x = mem s x" "refs (target s) p = {}" "p \<in> M"
proof (cases "LIST_FIRST (env_free_list s)")
  case None
  then show ?thesis
    using einvD(2) [OF kinvD(2) [OF inv]]
    by (intro no_env) (simp_all add: env_alloc_def spin_lock_def spin_unlock_def env_table_unlock)
next
  case (Some e)
  note E = kinvD(2) [OF inv]
  note lock = einvD(2) [OF E]
  obtain eq where eq: "LIST_REMOVE e (env_free_list s) = Some eq" "e < NENV" "env_status (envs s e) = ENV_FREE"
    "\<And>x s'. env_ok e x \<Longrightarrow> env_status x \<noteq> ENV_FREE \<Longrightarrow> envs s' = (envs s)(e := x) \<Longrightarrow>
       env_free_list s' = eq \<Longrightarrow> \<not> env_table_lock s' \<Longrightarrow> sched_pre s' = sched_pre s \<Longrightarrow> einv s'"
    using einv_alloc [OF E Some] by blast
  let ?s = "s\<lparr>env_table_lock := True\<rparr>"
  have pre: "minv M {} {} ?s" "\<not> page_table_lock ?s"
    using kinvD [OF inv] by simp_all
  have none: "env_pgdir (envs ?s e) = None"
    using einvD(1) [OF E eq(2)] eq(3) by (simp add: env_ok_def)
  show ?thesis
    using pre eq(2) none
  proof (cases rule: env_setup_vm_spec)
    case fail
    then show ?thesis
      using Some lock
      by (intro no_mem) (simp_all add: env_alloc_def spin_lock_def spin_unlock_def env_table_unlock E_NO_MEM_def)
  next
    case (made p r q m)
    let ?s' = "add_env parent e p r q m eq s"
    have T: "target ?s' = target (set_dir e p r q m ?s)"
      by (rule target_cong) (simp_all add: add_env_def set_dir_def)
    have "minv M {} {} ?s'"
      using made(2) minv_cong [of ?s' "set_dir e p r q m ?s"] by (simp add: add_env_def set_dir_def)
    moreover have "einv ?s'"
      by (rule eq(4) [OF env_ok_new_env [OF eq(2) einvD(1) [OF E eq(2)], of parent p]])
        (simp_all add: add_env_def const_defs lock)
    ultimately have "kinv M {} ?s'"
      using kinvD(3-5) [OF inv] by (simp add: kinv_def add_env_def dev_inv_def)
    moreover have "target ?s' = (target s)(Dir e := Some p)"
      using T made(3) by simp
    ultimately show ?thesis
      by (intro that(3) [OF env_alloc_run [OF lock Some made(1) eq(1)] eq(2,3) _ _ _ _ made(6)])
        (use made(4,5) in simp_all)
  qed
qed

section \<open>Freeing an environment\<close>

text \<open>What stays as it was in \<open>s0\<close> while environment \<open>e\<close> is torn down.\<close>

definition others_kept :: "nat \<Rightarrow> kstate \<Rightarrow> kstate \<Rightarrow> bool" where
  "others_kept e s0 s \<longleftrightarrow> (\<forall>j va. j \<noteq> e \<longrightarrow> va_entry s j va = va_entry s0 j va)"

definition table_inv :: "nat set \<Rightarrow> nat \<Rightarrow> nat \<Rightarrow> nat \<Rightarrow> kstate \<Rightarrow> nat \<Rightarrow> kstate \<Rightarrow> bool" where
  "table_inv M e d pt s0 k s \<longleftrightarrow>
     minv M {} {} s \<and> pframe s0 s \<and> pde_of s e d = Some pt \<and> (\<forall>t < k. pte_of s e d t = None)
     \<and> (\<forall>d'. d' \<noteq> d \<longrightarrow> pde_of s e d' = pde_of s0 e d') \<and> others_kept e s0 s"

lemma PGADDR_index:
  assumes "d < 1024" and "t < 1024"
  shows "unat (PDX (PGADDR (of_nat d) (of_nat t) 0)) = d" and "unat (PTX (PGADDR (of_nat d) (of_nat t) 0)) = t"
  using assms by (simp_all add: unat_of_nat)

lemma table_step:
  assumes I: "table_inv M e d pt s0 k s" and k: "k < 1024" and d: "d < NPDE"
    and pd: "dir_of s0 e = Some pd" and ready: "tlb_ready s0"
  shows "returns (\<lambda>_ s'. table_inv M e d pt s0 (Suc k) s') (\<lambda>_. False)
    (if mem s pt k AND PTE_P \<noteq> 0 then page_remove (env_pgdir (envs s e)) (PGADDR (of_nat d) (of_nat k) 0) s else Ok () s)"
proof -
  from I have inv: "minv M {} {} s" and fr: "pframe s0 s" and pde: "pde_of s e d = Some pt"
    and before: "\<And>t. t < k \<Longrightarrow> pte_of s e d t = None"
    and rest: "\<And>d'. d' \<noteq> d \<Longrightarrow> pde_of s e d' = pde_of s0 e d'" and oth: "others_kept e s0 s"
    by (auto simp: table_inv_def)
  have pd': "dir_of s e = Some pd" and ready': "tlb_ready s"
    using pd ready pframe_simps(12,15) [OF fr] by simp_all
  have dir: "env_pgdir (envs s e) = Some pd"
    using pd' by (simp add: dir_of_def split: if_splits)
  show ?thesis
  proof (cases "mem s pt k AND PTE_P = 0")
    case True
    then have "pte_of s e d k = None"
      using pde by (simp add: pte_of_cases pte_target_def)
    with True I show ?thesis
      by (auto simp: table_inv_def less_Suc_eq)
  next
    case False
    let ?va = "PGADDR (of_nat d) (of_nat k) 0"
    have "d < 1024"
      using d by (simp add: const_defs)
    note ix = PGADDR_index [OF this k]
    have dlt: "unat (PDX ?va) < NPDE"
      using d ix by simp
    obtain s' where s': "page_remove (Some pd) ?va s = Ok () s'" "pframe s s'" "minv M {} {} s'"
      "target s' = (target s)(Pt e (unat (PDX ?va)) (unat (PTX ?va)) := None)"
      "\<And>q j. mem s' q j = (if pde_of s e (unat (PDX ?va)) = Some q \<and> j = unat (PTX ?va)
                              \<and> pte_of s e (unat (PDX ?va)) j \<noteq> None then 0 else mem s q j)"
      using page_remove_spec [OF inv ready' pd' dlt] by blast
    have "va_entry s' j va = va_entry s j va" if "j \<noteq> e" for j va
      using page_remove_entry [OF inv s'(3) s'(4) s'(5), of j va] that by simp
    then have "others_kept e s0 s'"
      using oth by (simp add: others_kept_def)
    moreover have "pde_of s' e d' = pde_of s e d'" for d'
      using fun_cong [OF s'(4), of "Pd e d'"] by simp
    moreover have "pte_of s' e d t = None" if "t < Suc k" for t
      using fun_cong [OF s'(4), of "Pt e d t"] before that ix by (auto simp: less_Suc_eq)
    ultimately show ?thesis
      using False dir s'(1,3) pde rest pframe_trans [OF fr s'(2)] by (simp add: table_inv_def)
  qed
qed

text \<open>Dropping an emptied page table.\<close>

lemma drop_table:
  assumes inv: "minv M {} {} s" and pd: "dir_of s e = Some pd" and d: "d < NPDE"
    and pde: "pde_of s e d = Some pt" and empty: "\<And>t. t < 1024 \<Longrightarrow> pte_of s e d t = None"
    and lock: "\<not> page_table_lock s"
  defines "s' \<equiv> decref pt (wr pd d 0 s)"
  shows "page_decref pt (wr pd d 0 s) = Ok () s'" and "minv M {} {} s'" and "pframe s s'"
    and "target s' = (target s)(Pd e d := None)" and "others_kept e s s'"
proof -
  have dir: "target s (Dir e) = Some pd" and slot: "target s (Pd e d) = Some pt"
    using pd pde by simp_all
  have "target s (Pt e d t) = None" for t
    using empty [of t] by (cases "t < 1024") (simp_all add: pte_of_cases)
  then have T: "target (wr pd d 0 s) = (target s)(Pd e d := None)"
    using target_write_pde [OF inv dir d, of 0] by simp
  then show T': "target s' = (target s)(Pd e d := None)"
    by (simp add: s'_def)
  note drop = refinv_drop [OF minvD(1) [OF inv] slot]
  show "page_decref pt (wr pd d 0 s) = Ok () s'"
    unfolding s'_def using drop(2) lock by (intro page_decref_eq) (simp_all add: wr_def)
  show fr: "pframe s s'"
    unfolding s'_def using pframe_trans pframe_wr pframe_decref by blast
  have "boot_pgdir s \<noteq> pd"
    using boot_pgdir_not_target [OF inv, of "Dir e"] pd by auto
  then have "mem s' (boot_pgdir s) = mem s (boot_pgdir s)"
    by (simp add: s'_def)
  moreover have "mem s' q k = mem s q k" if "NPDE \<le> k" for q k
    using that d by (simp add: s'_def)
  moreover have "refinv M {} {} (target s') (pp_ref s') (page_free_list s')"
    using drop(1) unfolding T' by (simp add: s'_def decref_def cong: if_cong split del: if_split)
  ultimately show "minv M {} {} s'"
    by (intro minv_frame [OF inv fr])
  show "others_kept e s s'"
    unfolding others_kept_def
  proof (intro allI impI)
    fix j va
    assume "j \<noteq> e"
    have "pde_of s' j (unat (PDX va)) = pde_of s j (unat (PDX va))"
      using fun_cong [OF T', of "Pd j (unat (PDX va))"] \<open>j \<noteq> e\<close> by simp
    then show "va_entry s' j va = va_entry s j va"
    proof (rule va_entry_cong)
      fix q
      assume "pde_of s j (unat (PDX va)) = Some q"
      then have "q \<noteq> pd"
        using minv_exclusive [OF inv, of "Dir e" pd "Pd j (unat (PDX va))"] dir by auto
      then show "mem s' q (unat (PTX va)) = mem s q (unat (PTX va))"
        by (simp add: s'_def)
    qed
  qed
qed

lemma PTX_all_ones: "Suc (unat (PTX (- 1))) = 1024"
  using unat_uminus [of 1] by (simp add: unat_PTX)

lemma others_kept_trans: "others_kept e s s' \<Longrightarrow> others_kept e s' s'' \<Longrightarrow> others_kept e s s''"
  by (simp add: others_kept_def)

lemma env_free_table_spec:
  assumes inv: "minv M {} {} s" and ready: "tlb_ready s" and pd: "dir_of s e = Some pd" and d: "d < NPDE"
  obtains s' where "env_free_table e d s = Ok () s'" "minv M {} {} s'" "pframe s s'" "pde_of s' e d = None"
    "\<And>d'. d' \<noteq> d \<Longrightarrow> pde_of s' e d' = pde_of s e d'" "others_kept e s s'"
proof -
  have dir: "env_pgdir (envs s e) = Some pd"
    using pd by (simp add: dir_of_def split: if_splits)
  show ?thesis
  proof (cases "mem s pd d AND PTE_P = 0")
    case True
    moreover have "pde_of s e d = None"
      using True pd d by (simp add: pde_of_cases pte_target_def)
    ultimately show ?thesis
      using inv dir by (intro that [of s]) (simp_all add: env_free_table_def the_env_def others_kept_def)
  next
    case False
    define pt where "pt = unat (PPN (mem s pd d))"
    have pde: "pde_of s e d = Some pt"
      using False pd d by (simp add: pde_of_cases pte_target_def pt_def)
    then have "pt < npage s"
      using minv_npage [OF inv, of "Pd e d"] by simp
    then have kaddr: "KADDR (PTE_ADDR (mem s pd d)) s = Ok pt s"
      by (simp add: KADDR_def pt_def)
    have "table_inv M e d pt s 0 s"
      using inv pde by (simp add: table_inv_def others_kept_def)
    then have loop: "returns (\<lambda>_ s'. table_inv M e d pt s 1024 s') (\<lambda>_. False)
      (kfor [0..<1024] (\<lambda>pteno s. if mem s pt pteno AND PTE_P \<noteq> 0
          then page_remove (env_pgdir (envs s e)) (PGADDR (of_nat d) (of_nat pteno) 0) s else Ok () s) s)"
      by (rule returns_kfor_upt) (rule table_step [OF _ _ d pd ready])
    obtain s1 where s1: "kfor [0..<1024] (\<lambda>pteno s. if mem s pt pteno AND PTE_P \<noteq> 0
          then page_remove (env_pgdir (envs s e)) (PGADDR (of_nat d) (of_nat pteno) 0) s else Ok () s) s = Ok () s1"
      and I: "table_inv M e d pt s 1024 s1"
      using loop by (rule returns_OkE) simp
    from I have inv1: "minv M {} {} s1" and fr1: "pframe s s1" and pde1: "pde_of s1 e d = Some pt"
      and empty: "\<And>t. t < 1024 \<Longrightarrow> pte_of s1 e d t = None"
      and rest: "\<And>d'. d' \<noteq> d \<Longrightarrow> pde_of s1 e d' = pde_of s e d'" and oth: "others_kept e s s1"
      by (auto simp: table_inv_def)
    have pd1: "dir_of s1 e = Some pd" and lock1: "\<not> page_table_lock s1" and np: "npage s1 = npage s"
      using pd ready pframe_simps(2,7,15) [OF fr1] by (simp_all add: tlb_ready_def)
    note drop = drop_table [OF inv1 pd1 d pde1 empty lock1]
    have "pa2page (PTE_ADDR (mem s pd d)) (wr pd d 0 s1) = Ok pt (wr pd d 0 s1)"
      using \<open>pt < npage s\<close> by (simp add: pa2page_def np pt_def)
    then have "env_free_table e d s = Ok () (decref pt (wr pd d 0 s1))"
      using False kaddr s1 drop(1)
      by (simp add: env_free_table_def the_env_def dir PTX_all_ones del: upt_Suc)
    moreover have "pde_of (decref pt (wr pd d 0 s1)) e d' = (if d' = d then None else pde_of s e d')" for d'
      using fun_cong [OF drop(4), of "Pd e d'"] rest by (simp del: target_decref)
    ultimately show ?thesis
      using drop(2) pframe_trans [OF fr1 drop(3)] others_kept_trans [OF oth drop(5)]
      by (intro that [of "decref pt (wr pd d 0 s1)"]) simp_all
  qed
qed

lemma env_free_loop:
  assumes inv: "minv M {} {} s" and ready: "tlb_ready s" and pd: "dir_of s e = Some pd"
  obtains s' where "kfor [0..<unat (PDX UTOP)] (env_free_table e) s = Ok () s'" "minv M {} {} s'" "pframe s s'"
    "\<And>d. pde_of s' e d = None" "others_kept e s s'"
proof -
  let ?I = "\<lambda>k s'. minv M {} {} s' \<and> pframe s s' \<and> (\<forall>d < k. pde_of s' e d = None) \<and> others_kept e s s'"
  have step: "returns (\<lambda>_ s''. ?I (Suc k) s'') (\<lambda>_. False) (env_free_table e k s')" if k: "k < NPDE" and I: "?I k s'" for k s'
  proof -
    have "tlb_ready s'" "dir_of s' e = Some pd"
      using pframe_simps(12,15) [of s s'] I ready pd by simp_all
    then obtain s'' where s'': "env_free_table e k s' = Ok () s''" "minv M {} {} s''" "pframe s' s''" "pde_of s'' e k = None"
      "\<And>d'. d' \<noteq> k \<Longrightarrow> pde_of s'' e d' = pde_of s' e d'" "others_kept e s' s''"
      using env_free_table_spec [of M s' e pd k] I k by blast
    have "pde_of s'' e d = None" if "d < Suc k" for d
      using s''(4) s''(5) [of d] I that by (cases "d = k") auto
    then show ?thesis
      using s'' I pframe_trans [of s s' s''] others_kept_trans [of e s s' s''] by simp
  qed
  have "returns (\<lambda>_ s'. ?I NPDE s') (\<lambda>_. False) (kfor [0..<NPDE] (env_free_table e) s)"
    by (rule returns_kfor_upt) (use inv step in \<open>auto simp: others_kept_def\<close>)
  then obtain s' where s': "kfor [0..<NPDE] (env_free_table e) s = Ok () s'" "?I NPDE s'"
    by (rule returns_OkE) simp
  have "pde_of s' e d = None" for d
    using s'(2) by (cases "d < NPDE") (simp_all add: pde_of_cases)
  with s' show ?thesis
    by (intro that [of s']) (simp_all add: NPDE_UTOP)
qed

text \<open>Dropping the emptied page directory.\<close>

lemma drop_dir:
  assumes inv: "minv M {} {} s" and e: "env_pgdir (envs s e) = Some pd" "e < NENV"
    and empty: "\<And>d. pde_of s e d = None" and lock: "\<not> page_table_lock s"
  defines "s1 \<equiv> upd_env e (\<lambda>x. x\<lparr>env_cr3 := 0\<rparr>) (upd_env e (\<lambda>x. x\<lparr>env_pgdir := None\<rparr>) s)"
  shows "page_decref pd s1 = Ok () (decref pd s1)" and "minv M {} {} (decref pd s1)" and "others_kept e s (decref pd s1)"
proof -
  have slot: "target s (Dir e) = Some pd"
    using e by (simp add: dir_of_def)
  have T: "target s1 = (target s)(Dir e := None)"
    by (rule target_del_dir [OF empty]) (simp_all add: s1_def)
  note drop = refinv_drop [OF minvD(1) [OF inv] slot]
  show "page_decref pd s1 = Ok () (decref pd s1)"
    using drop(2) lock by (intro page_decref_eq) (simp_all add: s1_def)
  have "refinv M {} {} (target (decref pd s1)) (pp_ref (decref pd s1)) (page_free_list (decref pd s1))"
    using drop(1) unfolding target_decref T by (simp add: s1_def decref_def cong: if_cong split del: if_split)
  moreover have "kmap (decref pd s1)"
    by (rule kmap_change [OF minvD(6) [OF inv]]) (auto simp: dir_of_def s1_def decref_def split: if_splits)
  ultimately show "minv M {} {} (decref pd s1)"
    using inv unfolding minv_def by (simp add: s1_def decref_def)
  show "others_kept e s (decref pd s1)"
    unfolding others_kept_def
  proof (intro allI impI)
    fix j va
    assume "j \<noteq> e"
    have "pde_of (decref pd s1) j (unat (PDX va)) = pde_of s j (unat (PDX va))"
      using fun_cong [OF T, of "Pd j (unat (PDX va))"] fun_cong [OF target_decref [of pd s1], of "Pd j (unat (PDX va))"]
        \<open>j \<noteq> e\<close> by (simp del: target_decref)
    then show "va_entry (decref pd s1) j va = va_entry s j va"
      by (rule va_entry_cong) (simp add: s1_def)
  qed
qed

lemma einv_free:
  assumes inv: "einv s" and e: "e < NENV" "env_status (envs s e) \<noteq> ENV_FREE"
    and s': "envs s' = (envs s)(e := (envs s e)\<lparr>env_pgdir := None, env_cr3 := 0, env_status := ENV_FREE\<rparr>)"
      "env_free_list s' = LIST_INSERT_HEAD e (env_free_list s)" "\<not> env_table_lock s'" "sched_pre s' = sched_pre s"
  shows "einv s'"
proof -
  obtain xs where xs: "LIST_rep (env_free_list s) xs" "set xs = {i. i < NENV \<and> env_status (envs s i) = ENV_FREE}"
    using einvD(4) [OF inv] by blast
  have "LIST_rep (env_free_list s') (e # xs)"
    using xs e unfolding s'(2) by (intro LIST_INSERT_HEAD_rep) auto
  moreover have "set (e # xs) = {i. i < NENV \<and> env_status (envs s' i) = ENV_FREE}"
    using xs(2) e s'(1) by auto
  moreover have "env_ok i (envs s' i)" if "i < NENV" for i
    using einvD(1) [OF inv that] s'(1) by (cases "i = e") (simp_all add: env_ok_def const_defs)
  ultimately show ?thesis
    using s'(3,4) einvD(3) [OF inv] unfolding einv_def by metis
qed

lemma hw_simps [simp]:
  "envs (hw ev s) = envs s" "mem (hw ev s) = mem s" "pp_ref (hw ev s) = pp_ref s"
  "page_free_list (hw ev s) = page_free_list s" "curenv (hw ev s) = curenv s" "ismp (hw ev s) = ismp s"
  "env_free_list (hw ev s) = env_free_list s" "env_table_lock (hw ev s) = env_table_lock s"
  "sched_pre (hw ev s) = sched_pre s" "page_table_lock (hw ev s) = page_table_lock s" "tlb_lock (hw ev s) = tlb_lock s"
  "cons (hw ev s) = cons s" "nic (hw ev s) = nic s"
  by (simp_all add: hw_def)

lemma quiet_hw [simp]: "quiet s (hw ev s)"
  by (simp add: quiet_def hw_def)

lemma minv_quiet: "minv M A H s \<Longrightarrow> quiet s s' \<Longrightarrow> minv M A H s'"
  using minv_frame [of M A H s s' A H] minvD(1) [of M A H s] quiet_simps [of s s'] by simp

lemma va_entry_quiet: "quiet s s' \<Longrightarrow> va_entry s' = va_entry s"
proof -
  assume "quiet s s'"
  note Q = quiet_simps [OF this]
  have "pde_of s' i d = pde_of s i d" for i d
    using fun_cong [OF Q(5), of "Pd i d"] by simp
  then show ?thesis
    using Q(1) by (intro ext va_entry_cong) simp_all
qed

text \<open>The slot of a freed environment keeps its identifier, from which the next one is derived.\<close>

definition dead_env :: "env \<Rightarrow> env" where
  "dead_env x = x\<lparr>env_pgdir := None, env_cr3 := 0, env_status := ENV_FREE\<rparr>"

lemma env_list_unlock:
  "\<not> env_table_lock s \<Longrightarrow>
     s\<lparr>env_table_lock := True, env_free_list := q, env_table_lock := False\<rparr> = s\<lparr>env_free_list := q\<rparr>"
  by (cases s) simp

lemma env_free_spec:
  assumes inv: "kinv M {} s" and e: "e < NENV" "env_status (envs s e) \<noteq> ENV_FREE" and ready: "tlb_ready s"
  obtains s' where "env_free e s = Ok () s'" "kinv M {} s'" "envs s' = (envs s)(e := dead_env (envs s e))"
    "others_kept e s s'" "curenv s' = curenv s" "ismp s' = ismp s" "sched_pre s' = sched_pre s"
proof -
  let ?s0 = "if Some e = curenv s then hw (Lcr3 (boot_cr3 s)) s else s"
  have q0: "quiet s ?s0"
    by simp
  note Q = quiet_simps [OF q0]
  obtain pd where pd: "env_pgdir (envs s e) = Some pd" "dir_of s e = Some pd" "env_cr3 (envs s e) = page2pa pd"
    by (rule kinv_dir [OF inv e])
  have inv0: "minv M {} {} ?s0" and ready0: "tlb_ready ?s0"
    using minv_quiet [OF kinvD(1) [OF inv] q0] ready Q(8) by simp_all
  have pd0: "dir_of ?s0 e = Some pd"
    using pframe_simps(15) [OF Q(6)] pd(2) by simp
  obtain s1 where s1: "kfor [0..<unat (PDX UTOP)] (env_free_table e) ?s0 = Ok () s1" "minv M {} {} s1" "pframe ?s0 s1"
    "\<And>d. pde_of s1 e d = None" "others_kept e ?s0 s1"
    using env_free_loop [OF inv0 ready0 pd0] by blast
  have fr: "pframe s s1"
    using pframe_trans [OF Q(6) s1(3)] .
  note P = pframe_simps [OF fr]
  have pd1: "env_pgdir (envs s1 e) = Some pd" and lock1: "\<not> page_table_lock s1"
    using P pd(1) kinvD(3) [OF inv] by simp_all
  let ?s2 = "upd_env e (\<lambda>x. x\<lparr>env_cr3 := 0\<rparr>) (upd_env e (\<lambda>x. x\<lparr>env_pgdir := None\<rparr>) s1)"
  let ?s3 = "upd_env e (\<lambda>x. x\<lparr>env_status := ENV_FREE\<rparr>) (decref pd ?s2)"
  let ?s' = "?s3\<lparr>env_free_list := LIST_INSERT_HEAD e (env_free_list s1)\<rparr>"
  note drop = drop_dir [OF s1(2) pd1 e(1) s1(4) lock1]
  have M: "pd \<in> M"
    using minv_managed [OF kinvD(1) [OF inv], of "Dir e"] pd(2) by simp
  have pa: "pa2page (page2pa pd) ?s2 = Ok pd ?s2"
    using unat_PPN_page2pa [OF minv_ppn [OF s1(2) M]] minvD(2) [OF s1(2) M] by (simp add: pa2page_def)
  have lock: "\<not> env_table_lock s1"
    using P(10) einvD(2) [OF kinvD(2) [OF inv]] by simp
  have flist: "env_free_list (decref pd ?s2) = env_free_list s1" "env_table_lock (decref pd ?s2) = env_table_lock s1"
    "sched_pre (decref pd ?s2) = sched_pre s1"
    by (simp_all add: decref_def)
  have "?s3\<lparr>env_table_lock := True, env_free_list := LIST_INSERT_HEAD e (env_free_list s1), env_table_lock := False\<rparr> = ?s'"
    using lock flist(2) by (intro env_list_unlock) simp
  then have run: "env_free e s = Ok () ?s'"
    using e(2) s1(1) P(1) pd(3) pa drop(1) lock flist
    by (simp add: env_free_def Let_def spin_lock_def spin_unlock_def)
  have envs': "envs ?s' = (envs s)(e := dead_env (envs s e))"
    using P(1) by (simp add: dead_env_def)
  have T: "target ?s' = target (decref pd ?s2)"
    by (rule target_cong) simp_all
  have "minv M {} {} ?s'"
    using drop(2) minv_cong [of ?s' "decref pd ?s2"] by simp
  moreover have "einv ?s'"
    by (rule einv_free [OF kinvD(2) [OF inv] e])
      (use envs' lock flist P in \<open>simp_all add: dead_env_def\<close>)
  moreover have "\<not> page_table_lock ?s'" "\<not> tlb_lock ?s'"
    using lock1 P(8) kinvD(4) [OF inv] by simp_all
  moreover have "dev_inv ?s'"
    using kinvD(5) [OF inv] P(16,17) by (simp add: dev_inv_def decref_def)
  ultimately have "kinv M {} ?s'"
    by (simp add: kinv_def)
  moreover have "others_kept e s ?s'"
  proof -
    have "others_kept e s s1"
      using s1(5) va_entry_quiet [OF q0] by (simp add: others_kept_def)
    moreover have "va_entry ?s' j va = va_entry (decref pd ?s2) j va" for j va
      using fun_cong [OF T, of "Pd j (unat (PDX va))"] by (intro va_entry_cong) (simp_all del: target_decref)
    ultimately show ?thesis
      using drop(3) by (simp add: others_kept_def)
  qed
  ultimately show ?thesis
    using run envs' P flist by (intro that [of ?s']) (simp_all add: decref_def)
qed

end
