(* ===== verification/Sched.thy ===== *)
theory Sched
  imports Env
begin

text \<open>
  Running environments: the scheduler of \<^verbatim>\<open>kern/sched.c\<close>, \<^verbatim>\<open>env_run\<close>, and the destruction of
  environments. \<open>running e s\<close> is the state in which environment \<open>e\<close> has been entered.
\<close>

section \<open>Entering an environment\<close>

definition running :: "nat \<Rightarrow> kstate \<Rightarrow> kstate" where
  "running e s = (upd_env e (\<lambda>x. x\<lparr>env_runs := env_runs x + 1, env_status := ENV_RUNNING\<rparr>) s)
     \<lparr>curenv := Some e, hw_log := Iret_tf (env_tf (envs s e)) # Lcr3 (env_cr3 (envs s e)) # hw_log s\<rparr>"

definition runnable :: "kstate \<Rightarrow> nat \<Rightarrow> bool" where
  "runnable s i = (env_status (envs s i) = ENV_RUNNABLE)"

text \<open>\<^verbatim>\<open>env_run\<close> is called with the environment's lock held and releases it.\<close>

lemma env_run_locked:
  assumes "\<not> env_lock (envs s e)"
  shows "env_run e (upd_env e (env_lock_update (\<lambda>_. True)) s) = Iret (running e s)"
  using assms
  by (cases s, cases "envs s e") (simp add: env_run_def env_pop_tf_def running_def upd_env_def hw_def spin_unlock_def env_lock_of_update_def)

lemma kinv_running:
  assumes inv: "kinv M A s" and e: "e < NENV" "runnable s e"
  shows "kinv M A (running e s)" and "curenv (running e s) = Some e" and "env_status (envs (running e s) e) = ENV_RUNNING"
proof -
  have "minv M A {} (running e s)"
    using kinvD(1) [OF inv] minv_cong [of "running e s" s] by (simp add: running_def)
  moreover have "env_ok i (envs (running e s) i)" if "i < NENV" for i
    using einvD(1) [OF kinvD(2) [OF inv] that] e by (cases "i = e") (simp_all add: running_def runnable_def env_ok_def const_defs)
  then have "einv (running e s)"
    using kinvD(2) [OF inv] e by (auto simp: einv_def running_def runnable_def const_defs)
  ultimately show "kinv M A (running e s)"
    using inv by (simp add: kinv_def running_def dev_inv_def)
qed (simp_all add: running_def)

section \<open>Round robin\<close>

text \<open>The \<open>k\<close>-th environment the loop looks at when it starts after \<open>pre\<close>.\<close>

definition nth_next :: "nat \<Rightarrow> nat \<Rightarrow> nat" where
  "nth_next pre k = 1 + (pre + k) mod 1023"

lemma sched_next_eq: "pre < NENV \<Longrightarrow> sched_next pre = nth_next pre 0"
  by (cases "pre = 1023") (auto simp: sched_next_def nth_next_def const_defs)

lemma nth_next_bound: "nth_next pre k \<noteq> 0" "nth_next pre k < NENV"
  by (simp_all add: nth_next_def const_defs)

lemma nth_next_Suc: "nth_next (nth_next pre 0) k = nth_next pre (Suc k)"
  using mod_add_left_eq [of pre 1023 "Suc k"] by (simp add: nth_next_def)

lemma nth_next_surj:
  assumes "0 < e" and "e < NENV"
  obtains k where "k < 1023" and "nth_next pre k = e"
proof -
  let ?k = "(e - 1 + (1023 - pre mod 1023)) mod 1023"
  have "(pre + ?k) mod 1023 = (pre mod 1023 + (e - 1 + (1023 - pre mod 1023))) mod 1023"
    by (simp only: mod_add_left_eq mod_add_right_eq)
  also have "pre mod 1023 + (e - 1 + (1023 - pre mod 1023)) = e - 1 + 1023"
    using mod_less_divisor [of 1023 pre] by linarith
  also have "(e - 1 + 1023) mod 1023 = e - 1"
    using assms by (subst mod_add_self2) (simp add: const_defs)
  finally have "nth_next pre ?k = e"
    using assms(1) unfolding nth_next_def by simp
  then show ?thesis
    using that [of ?k] by simp
qed

lemma find_map: "find P (map f xs) = map_option f (find (P \<circ> f) xs)"
  by (induction xs) simp_all

lemma relock_env:
  assumes "\<not> env_lock (envs s i)"
  shows "upd_env i (env_lock_update (\<lambda>_. False)) (upd_env i (env_lock_update (\<lambda>_. True)) s) = s"
  using assms by (cases s, cases "envs s i") (simp add: upd_env_def fun_upd_idem)

lemma spin_lock_env:
  "\<not> env_lock (envs s i) \<Longrightarrow>
     spin_lock (env_lock_of i) (env_lock_of_update i) s = Ok () (upd_env i (env_lock_update (\<lambda>_. True)) s)"
  by (simp add: spin_lock_def env_lock_of_def env_lock_of_update_def)

lemma sched_loop_eq:
  assumes "\<And>i. i < NENV \<Longrightarrow> \<not> env_lock (envs s i)" and "sched_pre s < NENV"
  shows "sched_loop n s =
    (case find (\<lambda>k. runnable s (nth_next (sched_pre s) k)) [0..<n] of
       None \<Rightarrow> Ok () (s\<lparr>sched_pre := (if n = 0 then sched_pre s else nth_next (sched_pre s) (n - 1))\<rparr>)
     | Some k \<Rightarrow> let e = nth_next (sched_pre s) k in Iret (running e (s\<lparr>sched_pre := e, env_table_lock := False\<rparr>)))"
  using assms
proof (induction n arbitrary: s)
  case 0
  then show ?case by simp
next
  case (Suc n)
  let ?e = "nth_next (sched_pre s) 0"
  let ?s = "s\<lparr>sched_pre := ?e\<rparr>"
  have e: "sched_next (sched_pre s) = ?e" "?e < NENV"
    using Suc.prems(2) sched_next_eq nth_next_bound by simp_all
  have free: "\<not> env_lock (envs s ?e)"
    using Suc.prems(1) e(2) by simp
  have upt: "[0..<Suc n] = 0 # map Suc [0..<n]"
    by (metis map_Suc_upt upt_conv_Cons zero_less_Suc)
  show ?case
  proof (cases "runnable s ?e")
    case True
    have "env_run ?e (spin_unlock env_table_lock_update (upd_env ?e (env_lock_update (\<lambda>_. True)) ?s)) =
        Iret (running ?e (s\<lparr>sched_pre := ?e, env_table_lock := False\<rparr>))"
      using env_run_locked [of "s\<lparr>sched_pre := ?e, env_table_lock := False\<rparr>" ?e] free
      by (cases s) (simp add: spin_unlock_def upd_env_def)
    then show ?thesis
      using True free e(1) unfolding upt
      by (simp add: spin_lock_env runnable_def Let_def)
  next
    case False
    have "sched_loop (Suc n) s = sched_loop n ?s"
      using False free e(1) relock_env [of ?s ?e]
      by (simp add: spin_lock_env spin_unlock_def env_lock_of_update_def runnable_def Let_def)
    also have "\<dots> = (case find (\<lambda>k. runnable s (nth_next ?e k)) [0..<n] of
       None \<Rightarrow> Ok () (s\<lparr>sched_pre := (if n = 0 then ?e else nth_next ?e (n - 1))\<rparr>)
     | Some k \<Rightarrow> let e = nth_next ?e k in Iret (running e (s\<lparr>sched_pre := e, env_table_lock := False\<rparr>)))"
      using Suc.IH [of ?s] Suc.prems(1) e(2) by (simp add: runnable_def Let_def cong: option.case_cong)
    finally show ?thesis
      using False unfolding upt
      by (simp add: find_map comp_def nth_next_Suc Let_def split: option.split)
  qed
qed

definition sched_pick :: "kstate \<Rightarrow> nat option" where
  "sched_pick s = find (\<lambda>k. runnable s (nth_next (sched_pre s) k)) [0..<1023]"

lemma sched_yield_eq:
  assumes inv: "einv s"
  shows "sched_yield s =
    (case sched_pick s of
       Some k \<Rightarrow> let e = nth_next (sched_pre s) k in Iret (running e (s\<lparr>sched_pre := e\<rparr>))
     | None \<Rightarrow>
         let s' = s\<lparr>sched_pre := nth_next (sched_pre s) 1022\<rparr>
         in if runnable s 0 then Iret (running 0 s') else Idle s')"
proof -
  let ?s = "s\<lparr>env_table_lock := True\<rparr>"
  have free: "\<not> env_lock (envs s i)" if "i < NENV" for i
    using einvD(1) [OF inv that] by (simp add: env_ok_def)
  have "0 < NENV" "NENV - 1 = 1023"
    by (simp_all add: const_defs)
  note lock = einvD(2) [OF inv]
  have unlock: "s\<lparr>env_table_lock := True, sched_pre := p, env_table_lock := False\<rparr> = s\<lparr>sched_pre := p\<rparr>" for p
    using lock by (cases s) simp
  have unlock': "s\<lparr>sched_pre := p, env_table_lock := False\<rparr> = s\<lparr>sched_pre := p\<rparr>" for p
    using lock by (cases s) simp
  have loop: "sched_loop 1023 ?s =
    (case sched_pick s of
       None \<Rightarrow> Ok () (?s\<lparr>sched_pre := nth_next (sched_pre s) 1022\<rparr>)
     | Some k \<Rightarrow> let e = nth_next (sched_pre s) k in Iret (running e (s\<lparr>sched_pre := e\<rparr>)))"
    using sched_loop_eq [of ?s 1023] free einvD(3) [OF inv] unlock
    by (simp add: sched_pick_def runnable_def cong: option.case_cong)
  have run0: "env_run 0 (upd_env 0 (env_lock_update (\<lambda>_. True)) t) = Iret (running 0 t)"
    if "envs t = envs s" for t
    using env_run_locked [of t 0] free [of 0] that \<open>0 < NENV\<close> by simp
  show ?thesis
    using lock free [of 0] \<open>0 < NENV\<close> unfolding sched_yield_def \<open>NENV - 1 = 1023\<close>
    by (cases "sched_pick s") (simp_all add: unlock' spin_lock_def [of env_table_lock] loop spin_unlock_def spin_lock_env run0 runnable_def Let_def)
qed

lemma sched_pick_Some:
  assumes "sched_pick s = Some k"
  shows "k < 1023" and "runnable s (nth_next (sched_pre s) k)"
    and "\<And>j. j < k \<Longrightarrow> \<not> runnable s (nth_next (sched_pre s) j)"
proof -
  from assms [unfolded sched_pick_def find_Some_iff]
  obtain i where i: "i < 1023" "runnable s (nth_next (sched_pre s) i)" "k = i"
    "\<forall>j < i. \<not> runnable s (nth_next (sched_pre s) j)"
    by auto
  then show "k < 1023" "runnable s (nth_next (sched_pre s) k)"
    "\<And>j. j < k \<Longrightarrow> \<not> runnable s (nth_next (sched_pre s) j)"
    by blast+
qed

lemma sched_pick_None: "sched_pick s = None \<longleftrightarrow> (\<forall>i. 0 < i \<and> i < NENV \<longrightarrow> \<not> runnable s i)"
proof
  assume "sched_pick s = None"
  then have none: "\<not> runnable s (nth_next (sched_pre s) k)" if "k < 1023" for k
    using that by (auto simp: sched_pick_def find_None_iff)
  show "\<forall>i. 0 < i \<and> i < NENV \<longrightarrow> \<not> runnable s i"
    using none nth_next_surj by metis
next
  assume "\<forall>i. 0 < i \<and> i < NENV \<longrightarrow> \<not> runnable s i"
  then show "sched_pick s = None"
    using nth_next_bound by (auto simp: sched_pick_def find_None_iff)
qed

lemma kinv_sched_pre:
  assumes "kinv M A s" and "p < NENV"
  shows "kinv M A (s\<lparr>sched_pre := p\<rparr>)"
  using assms minv_cong [of "s\<lparr>sched_pre := p\<rparr>" s] unfolding kinv_def by (simp add: einv_def dev_inv_def)

lemma sched_yield_safe:
  assumes inv: "kinv M {} s"
  shows "returns (\<lambda>_ _. False) (\<lambda>s'. kinv M {} s') (sched_yield s)"
proof -
  note E = sched_yield_eq [OF kinvD(2) [OF inv]]
  have run: "kinv M {} (running e (s\<lparr>sched_pre := p\<rparr>))" if "runnable s e" "e < NENV" "p < NENV" for e p
    using kinv_running(1) [OF kinv_sched_pre [OF inv that(3)] that(2)] that(1) by (simp add: runnable_def)
  show ?thesis
  proof (cases "sched_pick s")
    case None
    have "0 < NENV"
      by (simp add: const_defs)
    then show ?thesis
      using run [of 0 "nth_next (sched_pre s) 1022"] kinv_sched_pre [OF inv] nth_next_bound
      by (simp add: E None Let_def)
  next
    case (Some k)
    then show ?thesis
      using run sched_pick_Some(2) [OF Some] nth_next_bound by (simp add: E Let_def)
  qed
qed

section \<open>Destroying an environment\<close>

lemma kinv_curenv: "kinv M A s \<Longrightarrow> kinv M A (s\<lparr>curenv := c\<rparr>)"
  using minv_cong [of "s\<lparr>curenv := c\<rparr>" s] unfolding kinv_def by (simp add: einv_def dev_inv_def)

text \<open>
  The processor's environment \<open>c\<close> exists, and, when a system call begins, is running.
\<close>

definition live :: "nat \<Rightarrow> kstate \<Rightarrow> bool" where
  "live c s \<longleftrightarrow> curenv s = Some c \<and> c < NENV \<and> env_status (envs s c) \<noteq> ENV_FREE"

definition current :: "nat \<Rightarrow> kstate \<Rightarrow> bool" where
  "current c s \<longleftrightarrow> curenv s = Some c \<and> c < NENV \<and> env_status (envs s c) = ENV_RUNNING"

lemma current_live: "current c s \<Longrightarrow> live c s"
  by (simp add: current_def live_def const_defs)

lemma live_ready: "kinv M A s \<Longrightarrow> live c s \<Longrightarrow> tlb_ready s"
  by (simp add: kinv_tlb_ready live_def)

lemma env_destroy_safe:
  assumes inv: "kinv M {} s" and cur: "live c s" and e: "e < NENV"
  shows "returns (\<lambda>_ s'. kinv M {} s' \<and> live c s' \<and> env_status (envs s' e) = ENV_FREE
            \<and> others_kept e s s' \<and> (\<forall>i. i \<noteq> e \<longrightarrow> envs s' i = envs s i))
          (\<lambda>s'. e = c \<and> kinv M {} s') (env_destroy e s)"
proof (cases "env_status (envs s e) = ENV_FREE")
  case True
  then have "e \<noteq> c"
    using cur by (auto simp: live_def)
  then show ?thesis
    using inv cur True by (simp add: env_destroy_def env_free_def live_def others_kept_def)
next
  case False
  obtain s' where s': "env_free e s = Ok () s'" "kinv M {} s'" "envs s' = (envs s)(e := dead_env (envs s e))"
    "others_kept e s s'" "curenv s' = curenv s"
    using env_free_spec [OF inv e False live_ready [OF inv cur]] by blast
  show ?thesis
  proof (cases "e = c")
    case True
    have "returns (\<lambda>_ _. False) (\<lambda>s'. kinv M {} s') (sched_yield (s'\<lparr>curenv := None\<rparr>))"
      by (rule sched_yield_safe [OF kinv_curenv [OF s'(2)]])
    then show ?thesis
      using True s' cur by (simp add: env_destroy_def live_def) (erule returns_mono; simp)
  next
    case False
    then show ?thesis
      using s' cur by (simp add: env_destroy_def live_def dead_env_def)
  qed
qed

section \<open>Initialising the table\<close>

definition init_env :: "nat \<Rightarrow> kstate \<Rightarrow> kstate" where
  "init_env i s = s\<lparr>envs := (envs s)(i := (envs s i)\<lparr>env_status := ENV_FREE, env_id := 0, env_lock := False\<rparr>),
                    env_free_list := LIST_INSERT_HEAD i (env_free_list s)\<rparr>"

lemma init_env_eq:
  "(\<lambda>i s. let s = upd_env i (\<lambda>e. e\<lparr>env_status := ENV_FREE\<rparr>) s;
             s = upd_env i (\<lambda>e. e\<lparr>env_id := 0\<rparr>) s;
             s = s\<lparr>env_free_list := LIST_INSERT_HEAD i (env_free_list s)\<rparr>
         in spin_unlock (env_lock_of_update i) s) = init_env"
proof (intro ext)
  fix i s
  show "(let s = upd_env i (\<lambda>e. e\<lparr>env_status := ENV_FREE\<rparr>) s;
             s = upd_env i (\<lambda>e. e\<lparr>env_id := 0\<rparr>) s;
             s = s\<lparr>env_free_list := LIST_INSERT_HEAD i (env_free_list s)\<rparr>
         in spin_unlock (env_lock_of_update i) s) = init_env i s"
    by (cases s) (simp add: init_env_def upd_env_def spin_unlock_def env_lock_of_update_def)
qed

lemma fold_init_env:
  "env_free_list (fold init_env xs s) = fold LIST_INSERT_HEAD xs (env_free_list s)
   \<and> (\<forall>i. envs (fold init_env xs s) i =
         (if i \<in> set xs then (envs s i)\<lparr>env_status := ENV_FREE, env_id := 0, env_lock := False\<rparr> else envs s i))"
proof (induction xs arbitrary: s)
  case (Cons x xs)
  then show ?case
    using Cons.IH [of "init_env x s"] by (auto simp: init_env_def)
qed simp

section \<open>The example state\<close>

lemma example_einv: "einv example"
proof -
  have "LIST_rep (env_free_list example) (rev (rev [1..<NENV]))"
    unfolding example_def kstate.simps by (rule fold_insert_empty) simp
  moreover have "set (rev (rev [1..<NENV])) = {i. i < NENV \<and> env_status (envs example i) = ENV_FREE}"
    by (auto simp: example_def example_env_def free_env_def const_defs)
  moreover have "env_ok i (envs example i)" if "i < NENV" for i
    by (auto simp: example_def example_env_def free_env_def env_ok_def const_defs ENVX_def)
  moreover have "\<not> env_table_lock example" "sched_pre example < NENV"
    by (simp_all add: example_def const_defs)
  ultimately show ?thesis
    unfolding einv_def by blast
qed

lemma example_kinv: "kinv {1..<8} {} example"
  using example_minv example_einv cons_start_pending(1) nic_start_inv(1) nic_start_rx by (simp add: kinv_def) (simp add: example_def dev_inv_def)

lemma example_current: "current 0 example"
  by (simp add: current_def example_def example_env_def const_defs)

lemma example_page_free: "LIST_FIRST (page_free_list example) \<noteq> None"
  by (simp add: example_def LIST_INSERT_HEAD_def LIST_FIRST_def Let_def)

lemma example_env_free: "LIST_FIRST (env_free_list example) \<noteq> None"
proof -
  have "LIST_rep (env_free_list example) (rev (rev [1..<NENV]))"
    unfolding example_def kstate.simps by (rule fold_insert_empty) simp
  then have "LIST_FIRST (env_free_list example) = (case rev (rev [1..<NENV]) of [] \<Rightarrow> None | x # _ \<Rightarrow> Some x)"
    by (rule ll.rep_first)
  moreover have "[1..<NENV] = 1 # [Suc 1..<NENV]"
    by (rule upt_conv_Cons) (simp add: const_defs)
  ultimately show ?thesis
    by (simp only: rev_rev_ident list.case option.simps not_False_eq_True)
qed

section \<open>Properties\<close>

lemma live_id_unique:
  assumes "einv s" and "i < NENV" "j < NENV" and "env_status (envs s i) \<noteq> ENV_FREE" "env_status (envs s j) \<noteq> ENV_FREE"
    and "env_id (envs s i) = env_id (envs s j)"
  shows "i = j"
  using einvD(1) [OF assms(1), of i] einvD(1) [OF assms(1), of j] assms(2-) by (auto simp: env_ok_def)

text \<open>
  C12. \<^verbatim>\<open>env_alloc\<close> either fails for a documented reason and changes nothing, or takes a free slot and
  turns it into a runnable environment whose identifier is positive, selects the slot, differs from
  the slot's previous identifier and from the identifier of every live environment, whose address space
  is empty and whose saved state starts in user mode with interrupts on; all other environments and
  address spaces are untouched and the kernel invariant holds.
\<close>

theorem env_alloc_correct:
  assumes inv: "kinv M {} s"
  shows "env_alloc parent s = Ok (Inl (- E_NO_FREE_ENV)) s \<and> LIST_EMPTY (env_free_list s)
    \<or> env_alloc parent s = Ok (Inl (- E_NO_MEM)) s \<and> LIST_EMPTY (page_free_list s)
    \<or> (\<exists>e s'. env_alloc parent s = Ok (Inr e) s' \<and> kinv M {} s' \<and> e < NENV
         \<and> env_status (envs s e) = ENV_FREE \<and> env_status (envs s' e) = ENV_RUNNABLE
         \<and> (let id = env_id (envs s' e)
            in 0 < sint id \<and> unat (ENVX id) = e \<and> id \<noteq> env_id (envs s e)
               \<and> (\<forall>i < NENV. env_status (envs s i) \<noteq> ENV_FREE \<longrightarrow> env_id (envs s i) \<noteq> id))
         \<and> env_parent_id (envs s' e) = parent
         \<and> tf_cs (env_tf (envs s' e)) AND 3 = 3 \<and> tf_eflags (env_tf (envs s' e)) AND FL_IF \<noteq> 0
         \<and> (\<forall>i. i \<noteq> e \<longrightarrow> envs s' i = envs s i)
         \<and> (\<forall>j va. va_entry s' j va = (if j = e then None else va_entry s j va)))"
  using inv
proof (cases rule: env_alloc_spec [where parent = parent])
  case no_env
  then show ?thesis
    by (simp add: LIST_EMPTY_def LIST_FIRST_def)
next
  case no_mem
  then show ?thesis
    by (simp add: LIST_EMPTY_def LIST_FIRST_def)
next
  case (made e p r q m eq)
  let ?s' = "add_env parent e p r q m eq s" and ?id = "env_generation (env_id (envs s e)) OR of_nat e"
  have envs': "envs ?s' = (envs s)(e := new_env parent e p (envs s e))"
    by (simp add: add_env_def)
  have ok: "env_ok e (envs s e)" and ok': "env_ok e (envs ?s' e)"
    using einvD(1) kinvD(2) [OF inv] kinvD(2) [OF made(4)] made(2) by blast+
  have "unat ?id div 1024 = unat (env_generation (env_id (envs s e))) div 1024"
    unfolding unat_env_id [OF made(2)] using env_generation_bounds(3) [of "env_id (envs s e)"] made(2)
    by (simp add: const_defs mod_eq_0_iff_dvd div_plus_div_distrib_dvd_left)
  then have new: "?id \<noteq> env_id (envs s e)"
    using env_generation_new [of "env_id (envs s e)"] ok by (auto simp: env_ok_def sint_nonneg_iff)
  have uniq: "env_id (envs s i) \<noteq> ?id" if "i < NENV" "env_status (envs s i) \<noteq> ENV_FREE" for i
  proof
    assume id: "env_id (envs s i) = ?id"
    have "i \<noteq> e"
      using that(2) made(3) by auto
    then have "env_id (envs ?s' i) = env_id (envs ?s' e)" "env_status (envs ?s' i) \<noteq> ENV_FREE"
      "env_status (envs ?s' e) \<noteq> ENV_FREE"
      using id that(2) by (simp_all add: envs' const_defs)
    then have "i = e"
      using live_id_unique [OF kinvD(2) [OF made(4)] that(1) made(2)] by blast
    then show False
      using \<open>i \<noteq> e\<close> by blast
  qed
  have pde: "pde_of ?s' j d = pde_of s j d" for j d
    using fun_cong [OF made(5), of "Pd j d"] by simp
  have dir: "pde_of s e d = None" for d
    using ok made(3) by (simp add: pde_of_cases dir_of_def env_ok_def)
  have entry: "va_entry ?s' j va = (if j = e then None else va_entry s j va)" for j va
  proof (cases "j = e")
    case True
    then show ?thesis
      by (simp add: va_entry_def pde dir)
  next
    case False
    have "va_entry ?s' j va = va_entry s j va"
    proof (rule va_entry_cong [OF pde])
      fix q
      assume "pde_of s j (unat (PDX va)) = Some q"
      then have "target s (Pd j (unat (PDX va))) = Some q"
        by simp
      then have "q \<noteq> p"
        using made(7) unfolding refs_def by blast
      then show "mem ?s' q (unat (PTX va)) = mem s q (unat (PTX va))"
        using made(6) by (simp add: add_env_def)
    qed
    with False show ?thesis
      by simp
  qed
  have tf: "tf_cs (env_tf (envs ?s' e)) AND 3 = 3" "tf_eflags (env_tf (envs ?s' e)) AND FL_IF \<noteq> 0"
    by (simp_all add: envs' new_env_def Let_def const_defs)
  have id: "env_id (envs ?s' e) = ?id" and env': "env_status (envs ?s' e) = ENV_RUNNABLE"
    "env_parent_id (envs ?s' e) = parent" "\<forall>i. i \<noteq> e \<longrightarrow> envs ?s' i = envs s i"
    by (simp_all add: envs')
  have id': "0 < sint (env_id (envs ?s' e))" "unat (ENVX (env_id (envs ?s' e))) = e"
    using ok' env'(1) by (simp_all add: env_ok_def const_defs)
  have entry': "\<forall>j va. va_entry ?s' j va = (if j = e then None else va_entry s j va)"
    using entry by blast
  have uniq': "\<forall>i < NENV. env_status (envs s i) \<noteq> ENV_FREE \<longrightarrow> env_id (envs s i) \<noteq> env_id (envs ?s' e)"
    unfolding id using uniq by blast
  show ?thesis
    unfolding Let_def
    by (intro disjI2 exI [of _ e] exI [of _ ?s'] conjI)
      (fact made(1-4) env' id' new [folded id] uniq' entry' tf)+
qed

theorem env_alloc_correct_witness:
  "\<exists>e s'. env_alloc 0x1000 example = Ok (Inr e) s' \<and> kinv {1..<8} {} s' \<and> env_status (envs s' e) = ENV_RUNNABLE"
  using env_alloc_correct [OF example_kinv, of "0x1000"] example_page_free example_env_free
  by (auto simp: LIST_EMPTY_def LIST_FIRST_def)



text \<open>
  C14. \<^verbatim>\<open>sched_yield\<close> is round robin over the environments 1 to 1023, with environment 0 as a fallback: it
  enters the first runnable environment in cyclic order after the previously chosen one; if none of
  them is runnable it enters environment 0, and only when that is not runnable either it idles. It never
  returns to its caller and never blocks on a lock.
\<close>

theorem sched_yield_round_robin:
  assumes "kinv M {} s"
  shows "if \<exists>i. 0 < i \<and> i < NENV \<and> runnable s i then
      \<exists>k e. k < 1023 \<and> e = nth_next (sched_pre s) k \<and> runnable s e
        \<and> (\<forall>j < k. \<not> runnable s (nth_next (sched_pre s) j))
        \<and> sched_yield s = Iret (running e (s\<lparr>sched_pre := e\<rparr>))
        \<and> kinv M {} (running e (s\<lparr>sched_pre := e\<rparr>))
    else if runnable s 0 then \<exists>s'. sched_yield s = Iret (running 0 s') \<and> kinv M {} (running 0 s')
    else \<exists>s'. sched_yield s = Idle s' \<and> kinv M {} s'"
proof -
  note E = sched_yield_eq [OF kinvD(2) [OF assms]]
  note safe = sched_yield_safe [OF assms, unfolded E]
  show ?thesis
  proof (cases "sched_pick s")
    case None
    then show ?thesis
      using safe sched_pick_None [of s] by (auto simp: E Let_def split: if_splits)
  next
    case (Some k)
    have "\<exists>i. 0 < i \<and> i < NENV \<and> runnable s i"
      using sched_pick_None [of s] Some by auto
    moreover have "kinv M {} (running (nth_next (sched_pre s) k) (s\<lparr>sched_pre := nth_next (sched_pre s) k\<rparr>))"
      using safe Some by (simp add: Let_def)
    ultimately show ?thesis
      using sched_pick_Some [OF Some] Some by (simp add: E Let_def) blast
  qed
qed

theorem sched_yield_round_robin_witness:
  "\<exists>s'. sched_yield example = Idle s'"
proof -
  have "\<not> runnable example i" for i
    by (simp add: runnable_def example_def example_env_def free_env_def const_defs)
  then show ?thesis
    using sched_yield_round_robin [OF example_kinv] by auto
qed

text \<open>
  C15. No runnable environment starves: if environment \<open>e\<close> is \<open>k\<close> places after the previously run one in the
  cyclic order and stays runnable, each call of \<^verbatim>\<open>sched_yield\<close> either enters it or brings it strictly
  closer, so it is entered after at most 1023 calls.
\<close>

theorem sched_no_starvation:
  assumes "kinv M {} s" and "nth_next (sched_pre s) k = e" and "k < 1023" and "runnable s e"
  shows "\<exists>s'. sched_yield s = Iret s' \<and> kinv M {} s'
           \<and> (curenv s' = Some e \<or> (\<exists>k'. k' < k \<and> nth_next (sched_pre s') k' = e))"
proof -
  note E = sched_yield_eq [OF kinvD(2) [OF assms(1)]]
  note safe = sched_yield_safe [OF assms(1), unfolded E]
  have "\<exists>i. 0 < i \<and> i < NENV \<and> runnable s i"
    using assms(2,4) nth_next_bound by blast
  then obtain j where j: "sched_pick s = Some j"
    using sched_pick_None [of s] by (cases "sched_pick s") auto
  let ?e = "nth_next (sched_pre s) j"
  have "j \<le> k"
    using sched_pick_Some(3) [OF j, of k] assms(2,4) by (meson not_le)
  moreover have "nth_next ?e i = nth_next (sched_pre s) (Suc (j + i))" for i
    using mod_add_left_eq [of "sched_pre s + j" 1023 "Suc i"] by (simp add: nth_next_def ac_simps)
  then have "nth_next ?e (k - Suc j) = e" if "j < k"
    using assms(2) that by (simp only: add_diff_inverse_nat flip: add_Suc)
  moreover have "sched_yield s = Iret (running ?e (s\<lparr>sched_pre := ?e\<rparr>))"
    by (simp add: E j Let_def)
  moreover have "kinv M {} (running ?e (s\<lparr>sched_pre := ?e\<rparr>))"
    using safe j by (simp add: Let_def)
  moreover have "curenv (running ?e (s\<lparr>sched_pre := ?e\<rparr>)) = Some ?e" "sched_pre (running ?e (s\<lparr>sched_pre := ?e\<rparr>)) = ?e"
    by (simp_all add: running_def)
  ultimately show ?thesis
    using assms(2) by (cases "j = k") (auto intro!: exI [of _ "k - Suc j"])
qed

theorem sched_no_starvation_witness:
  "\<exists>e s s'. env_alloc 0x1000 example = Ok (Inr e) s \<and> runnable s e \<and> sched_yield s = Iret s'"
  using example_kinv
proof (cases rule: env_alloc_spec [where parent = "0x1000"])
  case (made e p r q m eq)
  let ?s = "add_env 0x1000 e p r q m eq example"
  have run: "runnable ?s e"
    by (simp add: runnable_def add_env_def)
  have "0 < e"
    using made(3) by (cases e) (simp_all add: example_def example_env_def const_defs)
  then obtain k where "k < 1023" "nth_next (sched_pre ?s) k = e"
    using nth_next_surj made(2) by blast
  then show ?thesis
    using sched_no_starvation [OF made(4) _ _ run] made(1) run by blast
qed (use example_page_free example_env_free in auto)

text \<open>
  \<^verbatim>\<open>env_init\<close> puts all 1024 slots on the free list in the order of \<^verbatim>\<open>envs[]\<close>, so that the first
  environments created are 0, 1, 2, and leaves every environment lock and the table lock free.
\<close>

theorem env_init_correct:
  assumes "lh_first (env_free_list s) = None"
  shows "LIST_rep (env_free_list (env_init s)) [0..<NENV] \<and> \<not> env_table_lock (env_init s)
    \<and> (\<forall>i < NENV. env_status (envs (env_init s) i) = ENV_FREE \<and> env_id (envs (env_init s) i) = 0
          \<and> \<not> env_lock (envs (env_init s) i))"
proof -
  have init: "env_init s = (fold init_env (rev [0..<NENV]) s)\<lparr>env_table_lock := False\<rparr>"
    unfolding env_init_def unfolding init_env_eq by (simp add: spin_unlock_def)
  have "LIST_rep (env_free_list s) []"
    using assms by (simp add: LIST_rep_def)
  then have "LIST_rep (fold LIST_INSERT_HEAD (rev [0..<NENV]) (env_free_list s)) [0..<NENV]"
    using ll.fold_insert_rep [of "env_free_list s" "[]" "rev [0..<NENV]"] by simp
  then show ?thesis
    using fold_init_env [of "rev [0..<NENV]" s] by (simp add: init)
qed

theorem env_init_correct_witness:
  "LIST_rep (env_free_list (env_init (example\<lparr>env_free_list := empty_list\<rparr>))) [0..<NENV]"
  using env_init_correct [of "example\<lparr>env_free_list := empty_list\<rparr>"] by (simp add: empty_list_def)

end
