(* ===== verification/Usermem.thy ===== *)
theory Usermem
  imports Sched
begin

text \<open>
  The kernel's accesses to the memory of the current environment: address translation through the two levels of its page
  table, byte and word loads, and stores. The lemmas show that loads from mapped pages succeed, and that stores
  to the pages of an address space keep the kernel invariant and every address space, because a page that
  the user can reach is never a page directory or a page table.
\<close>

section \<open>Reading user memory\<close>

text \<open>The address translation of the processor under page directory \<open>pd\<close>, for a kernel-mode read.\<close>

definition xlate :: "kstate \<Rightarrow> nat \<Rightarrow> u32 \<Rightarrow> nat option" where
  "xlate s pd va =
     Option.bind (pte_target (mem s pd (unat (PDX va)))) (\<lambda>pt. pte_target (mem s pt (unat (PTX va))))"

definition ld8 :: "kstate \<Rightarrow> nat \<Rightarrow> u32 \<Rightarrow> u8 option" where
  "ld8 s pd va =
     map_option (\<lambda>p. ucast (drop_bit (8 * (unat va mod 4)) (mem s p (unat (PGOFF va) div 4)))) (xlate s pd va)"

text \<open>A little-endian word at any address, possibly crossing a page boundary.\<close>

definition ld32 :: "kstate \<Rightarrow> nat \<Rightarrow> u32 \<Rightarrow> u32 option" where
  "ld32 s pd va =
     (case (ld8 s pd va, ld8 s pd (va + 1), ld8 s pd (va + 2), ld8 s pd (va + 3)) of
        (Some b0, Some b1, Some b2, Some b3) \<Rightarrow>
          Some (ucast b0 OR push_bit 8 (ucast b1) OR push_bit 16 (ucast b2) OR push_bit 24 (ucast b3))
      | _ \<Rightarrow> None)"

definition lo16 :: "u32 \<Rightarrow> u16" where "lo16 w = ucast w"
definition hi16 :: "u32 \<Rightarrow> u16" where "hi16 w = ucast (drop_bit 16 w)"

fun ld_words :: "kstate \<Rightarrow> nat \<Rightarrow> u32 \<Rightarrow> nat \<Rightarrow> u32 list option" where
  "ld_words s pd va 0 = Some []"
| "ld_words s pd va (Suc n) =
     (case ld32 s pd va of None \<Rightarrow> None
      | Some w \<Rightarrow> map_option (\<lambda>ws. w # ws) (ld_words s pd (va + 4) n))"

text \<open>\<^verbatim>\<open>*tf\<close> for a \<^verbatim>\<open>struct Trapframe *\<close>, 17 words in the order of the structure.\<close>

definition tf_of_words :: "u32 list \<Rightarrow> trapframe" where
  "tf_of_words w =
     \<lparr>tf_regs = \<lparr>reg_edi = w ! 0, reg_esi = w ! 1, reg_ebp = w ! 2, reg_oesp = w ! 3, reg_ebx = w ! 4,
        reg_edx = w ! 5, reg_ecx = w ! 6, reg_eax = w ! 7\<rparr>,
      tf_es = lo16 (w ! 8), tf_padding1 = hi16 (w ! 8), tf_ds = lo16 (w ! 9), tf_padding2 = hi16 (w ! 9),
      tf_trapno = w ! 10, tf_err = w ! 11, tf_eip = w ! 12, tf_cs = lo16 (w ! 13), tf_padding3 = hi16 (w ! 13),
      tf_eflags = w ! 14, tf_esp = w ! 15, tf_ss = lo16 (w ! 16), tf_padding4 = hi16 (w ! 16)\<rparr>"

definition SIZEOF_STRUCT_TRAPFRAME :: u32 where [const_defs]: "SIZEOF_STRUCT_TRAPFRAME = 0x44"

definition ld_tf :: "kstate \<Rightarrow> u32 \<Rightarrow> trapframe option" where
  "ld_tf s va =
     Option.bind (curenv s) (\<lambda>c. Option.bind (env_pgdir (envs s c)) (\<lambda>pd. map_option tf_of_words (ld_words s pd va 17)))"

fun ld_bytes :: "kstate \<Rightarrow> nat \<Rightarrow> u32 \<Rightarrow> nat \<Rightarrow> u8 list option" where
  "ld_bytes s pd va 0 = Some []"
| "ld_bytes s pd va (Suc n) =
     (case ld8 s pd va of None \<Rightarrow> None | Some b \<Rightarrow> map_option (\<lambda>bs. b # bs) (ld_bytes s pd (va + 1) n))"

text \<open>
  Stores by the kernel: with the write-protect bit of the processor set, both levels of the page table must allow
  writing.
\<close>

definition wr_target :: "u32 \<Rightarrow> nat option" where
  "wr_target w = (if w AND PTE_W \<noteq> 0 then pte_target w else None)"

definition xlate_w :: "kstate \<Rightarrow> nat \<Rightarrow> u32 \<Rightarrow> nat option" where
  "xlate_w s pd va =
     Option.bind (wr_target (mem s pd (unat (PDX va)))) (\<lambda>pt. wr_target (mem s pt (unat (PTX va))))"

text \<open>Byte \<open>k\<close> of a word replaced.\<close>

definition set_byte :: "nat \<Rightarrow> u8 \<Rightarrow> u32 \<Rightarrow> u32" where
  "set_byte k b w = (w AND NOT (push_bit (8 * k) 0xFF)) OR push_bit (8 * k) (ucast b)"

definition st8 :: "nat \<Rightarrow> u32 \<Rightarrow> u8 \<Rightarrow> kstate \<Rightarrow> kstate option" where
  "st8 pd va b s =
     map_option (\<lambda>p. let i = unat (PGOFF va) div 4 in wr p i (set_byte (unat va mod 4) b (mem s p i)) s) (xlate_w s pd va)"

fun st_bytes :: "nat \<Rightarrow> u32 \<Rightarrow> u8 list \<Rightarrow> kstate \<Rightarrow> kstate option" where
  "st_bytes pd va [] s = Some s"
| "st_bytes pd va (b # bs) s = Option.bind (st8 pd va b s) (st_bytes pd (va + 1) bs)"

definition bytes_of32 :: "u32 \<Rightarrow> u8 list" where
  "bytes_of32 w = [ucast w, ucast (drop_bit 8 w), ucast (drop_bit 16 w), ucast (drop_bit 24 w)]"

definition st32 :: "nat \<Rightarrow> u32 \<Rightarrow> u32 \<Rightarrow> kstate \<Rightarrow> kstate option" where
  "st32 pd va w s = st_bytes pd va (bytes_of32 w) s"

section \<open>Reading user memory safely\<close>

text \<open>\<open>n\<close> bytes at \<open>va\<close> lie below \<^verbatim>\<open>UTOP\<close> and are mapped in environment \<open>i\<close>.\<close>

definition readable :: "kstate \<Rightarrow> nat \<Rightarrow> u32 \<Rightarrow> nat \<Rightarrow> bool" where
  "readable s i va n \<longleftrightarrow> (\<forall>k < n. va + of_nat k < UTOP \<and> va_entry s i (va + of_nat k) \<noteq> None)"

lemma readableD: "readable s i va n \<Longrightarrow> k < n \<Longrightarrow> va + of_nat k < UTOP \<and> va_entry s i (va + of_nat k) \<noteq> None"
  by (simp add: readable_def)

lemma ld8_readable:
  assumes "dir_of s i = Some pd" and "va < UTOP" and "va_entry s i va \<noteq> None"
  shows "ld8 s pd va \<noteq> None"
proof -
  obtain pt where pt: "pde_of s i (unat (PDX va)) = Some pt" "mem s pt (unat (PTX va)) AND PTE_P \<noteq> 0"
    using assms(3) by (auto simp: va_entry_def Let_def split: option.splits if_splits)
  then have "pte_target (mem s pd (unat (PDX va))) = Some pt"
    using assms(1) PDX_below_UTOP [OF assms(2)] by (simp add: pde_of_cases)
  then show ?thesis
    using pt(2) by (simp add: ld8_def xlate_def pte_target_def)
qed

lemma ld32_readable:
  assumes dir: "dir_of s i = Some pd" and r: "readable s i va 4"
  shows "ld32 s pd va \<noteq> None"
proof -
  have b: "ld8 s pd (va + of_nat k) \<noteq> None" if "k < 4" for k
    using ld8_readable [OF dir] readableD [OF r that] by blast
  show ?thesis
    using b [of 0] b [of 1] b [of 2] b [of 3] by (auto simp: ld32_def split: option.split)
qed

lemma readable_shift:
  assumes "readable s i va (m + n)"
  shows "readable s i va m" and "readable s i (va + of_nat m) n"
proof -
  show "readable s i va m"
    using assms by (simp add: readable_def)
  show "readable s i (va + of_nat m) n"
    unfolding readable_def
  proof (intro allI impI)
    fix k
    assume "k < n"
    then show "va + of_nat m + of_nat k < UTOP \<and> va_entry s i (va + of_nat m + of_nat k) \<noteq> None"
      using readableD [OF assms, of "m + k"] by (simp add: add.assoc)
  qed
qed

lemma ld_words_readable:
  assumes "dir_of s i = Some pd" and "readable s i va (4 * n)"
  shows "ld_words s pd va n \<noteq> None"
  using assms(2)
proof (induction n arbitrary: va)
  case (Suc n)
  have "readable s i va (4 + 4 * n)"
    using Suc.prems by simp
  note r = readable_shift [OF this]
  have "ld_words s pd (va + 4) n \<noteq> None"
    using Suc.IH [OF r(2)] by simp
  then show ?case
    using ld32_readable [OF assms(1) r(1)] by (auto split: option.split)
qed simp

lemma readable_cong: "(\<And>va. va_entry s' i va = va_entry s i va) \<Longrightarrow> readable s' i va n = readable s i va n"
  by (simp add: readable_def)

lemma live_dir:
  assumes "kinv M A s" and "live c s"
  obtains pd where "curenv s = Some c" "env_pgdir (envs s c) = Some pd" "dir_of s c = Some pd"
  using kinv_dir [of M A s c] assms by (auto simp: live_def)

section \<open>Writing user memory safely\<close>

text \<open>
  \<open>ustore s s'\<close>: only memory changes, and no page directory or page table.
\<close>

definition ustore :: "kstate \<Rightarrow> kstate \<Rightarrow> bool" where
  "ustore s s' \<longleftrightarrow> s' = s\<lparr>mem := mem s'\<rparr> \<and> mem s' (boot_pgdir s) = mem s (boot_pgdir s)
     \<and> (\<forall>sl q. \<not> is_Pt sl \<longrightarrow> target s sl = Some q \<longrightarrow> mem s' q = mem s q)"

lemma ustore_refl [simp]: "ustore s s"
  by (simp add: ustore_def)

lemma ustore_state:
  assumes "ustore s s'"
  obtains m where "s' = s\<lparr>mem := m\<rparr>"
  using assms by (auto simp: ustore_def)

lemma ustore_tables:
  assumes "ustore s s'"
  shows "dir_of s' = dir_of s" and "pde_of s' = pde_of s" and "target s' = target s" and "va_entry s' = va_entry s"
    and "pframe s s'"
proof -
  obtain m where m: "s' = s\<lparr>mem := m\<rparr>"
    by (rule ustore_state [OF assms])
  show dir: "dir_of s' = dir_of s"
    by (simp add: m dir_of_def fun_eq_iff)
  have same: "mem s' q = mem s q" if "target s sl = Some q" "\<not> is_Pt sl" for sl q
    using assms that by (auto simp: ustore_def)
  show pde: "pde_of s' = pde_of s"
  proof (intro ext)
    fix i d
    show "pde_of s' i d = pde_of s i d"
      using same [of "Dir i"] by (cases "dir_of s i") (simp_all add: pde_of_cases dir)
  qed
  have pte: "pte_of s' i d t = pte_of s i d t" for i d t
    using same [of "Pd i d"] by (cases "pde_of s i d") (simp_all add: pte_of_cases pde)
  show "target s' = target s"
  proof
    fix sl
    show "target s' sl = target s sl"
      by (cases sl) (simp_all add: dir pde pte)
  qed
  show "va_entry s' = va_entry s"
    by (intro ext va_entry_cong) (use same [of "Pd _ _"] pde in simp_all)
  show "pframe s s'"
    by (rule pframeI [where r = "pp_ref s" and q = "page_free_list s" and m = m and v = "tlb_va s" and l = "hw_log s"]) (simp add: m)
qed

lemma ustore_trans:
  assumes "ustore s s'" and "ustore s' s''"
  shows "ustore s s''"
proof -
  obtain m m' where m: "s' = s\<lparr>mem := m\<rparr>" "s'' = s'\<lparr>mem := m'\<rparr>"
    using ustore_state [OF assms(1)] ustore_state [OF assms(2)] by metis
  then show ?thesis
    using assms ustore_tables(3) [OF assms(1)] by (simp add: ustore_def)
qed

lemma ustore_minv:
  assumes inv: "minv M A H s" and st: "ustore s s'"
  shows "minv M A H s'"
proof (rule minv_frame [OF inv ustore_tables(5) [OF st]])
  show "refinv M A H (target s') (pp_ref s') (page_free_list s')"
  proof (rule ustore_state [OF st])
    fix m
    assume "s' = s\<lparr>mem := m\<rparr>"
    then show ?thesis
      using minvD(1) [OF inv] ustore_tables(3) [OF st] by simp
  qed
  show "mem s' (boot_pgdir s) = mem s (boot_pgdir s)"
    using st by (simp add: ustore_def)
  show "mem s' pd d = mem s pd d" if "dir_of s i = Some pd" for i pd d
    using st that unfolding ustore_def by (metis is_Pt.simps(2) target.simps(1))
qed

lemma ustore_kinv: "kinv M A s \<Longrightarrow> ustore s s' \<Longrightarrow> kinv M A s'"
  using kinv_pframe ustore_tables(5) ustore_minv kinvD(1) by blast

lemma ustore_live: "ustore s s' \<Longrightarrow> live c s' = live c s"
  using pframe_simps(1,6) [OF ustore_tables(5)] by (simp add: live_def)

text \<open>The pages an environment can write to, and the stores there.\<close>

definition writable :: "kstate \<Rightarrow> nat \<Rightarrow> u32 \<Rightarrow> nat \<Rightarrow> bool" where
  "writable s i va n \<longleftrightarrow>
     (\<forall>k < n. va + of_nat k < UTOP \<and> (\<exists>pd. dir_of s i = Some pd \<and> xlate_w s pd (va + of_nat k) \<noteq> None))"

lemma xlate_w_target:
  assumes "dir_of s i = Some pd" and "va < UTOP" and "xlate_w s pd va = Some p"
  shows "target s (Pt i (unat (PDX va)) (unat (PTX va))) = Some p"
proof -
  obtain pt where pt: "pte_target (mem s pd (unat (PDX va))) = Some pt" "pte_target (mem s pt (unat (PTX va))) = Some p"
    using assms(3) by (auto simp: xlate_w_def wr_target_def bind_eq_Some_conv split: if_splits)
  then show ?thesis
    using assms(1) PDX_below_UTOP [OF assms(2)] by (simp add: pte_of_cases pde_of_cases)
qed

lemma ustore_xlate_w:
  assumes st: "ustore s s'" and dir: "dir_of s i = Some pd" and va: "va < UTOP"
  shows "xlate_w s' pd va = xlate_w s pd va"
proof -
  have pd: "mem s' pd = mem s pd"
    using st dir unfolding ustore_def by (metis is_Pt.simps(2) target.simps(1))
  show ?thesis
  proof (cases "wr_target (mem s pd (unat (PDX va)))")
    case (Some pt)
    then have "target s (Pd i (unat (PDX va))) = Some pt"
      using dir PDX_below_UTOP [OF va] by (simp add: pde_of_cases wr_target_def split: if_splits)
    then have "mem s' pt = mem s pt"
      using st unfolding ustore_def by (metis is_Pt.simps(3))
    then show ?thesis
      by (simp add: xlate_w_def pd Some)
  qed (simp add: xlate_w_def pd)
qed

lemma ustore_writable: "ustore s s' \<Longrightarrow> writable s' i va n = writable s i va n"
  using ustore_xlate_w [of s s'] ustore_tables(1) [of s s'] by (auto simp: writable_def)

lemma st8_writable:
  assumes inv: "kinv M A s" and dir: "dir_of s i = Some pd" and va: "va < UTOP" and x: "xlate_w s pd va = Some p"
  shows "\<exists>s'. st8 pd va b s = Some s' \<and> ustore s s'"
proof -
  note slot = xlate_w_target [OF dir va x]
  have "mem (wr p k w s) q = mem s q" if "target s sl = Some q" "\<not> is_Pt sl" for sl q k w
  proof -
    have "p \<noteq> q"
      using minv_exclusive [OF kinvD(1) [OF inv] that(2,1)] slot that(2) is_Pt.simps(1) by metis
    then show ?thesis
      by simp
  qed
  moreover have "p \<noteq> boot_pgdir s"
    using boot_pgdir_not_target [OF kinvD(1) [OF inv]] slot by metis
  ultimately have "ustore s (wr p k w s)" for k w
    by (auto simp: ustore_def wr_def)
  then show ?thesis
    by (simp add: st8_def x Let_def)
qed

lemma st_bytes_writable:
  assumes "kinv M A s" and "dir_of s i = Some pd" and "writable s i va (length bs)"
  shows "\<exists>s'. st_bytes pd va bs s = Some s' \<and> ustore s s'"
  using assms
proof (induction bs arbitrary: va s)
  case (Cons b bs)
  have va: "va < UTOP" "xlate_w s pd va \<noteq> None"
    using Cons.prems(2,3) by (force simp: writable_def)+
  then obtain p where p: "xlate_w s pd va = Some p"
    by blast
  obtain s' where s': "st8 pd va b s = Some s'" "ustore s s'"
    using st8_writable [OF Cons.prems(1,2) va(1) p] by blast
  have "writable s i (va + 1) (length bs)"
    unfolding writable_def
  proof (intro allI impI)
    fix k
    assume "k < length bs"
    then show "va + 1 + of_nat k < UTOP \<and> (\<exists>pd. dir_of s i = Some pd \<and> xlate_w s pd (va + 1 + of_nat k) \<noteq> None)"
      using Cons.prems(3) [unfolded writable_def, rule_format, of "Suc k"] by (simp add: add.assoc)
  qed
  then have "\<exists>s''. st_bytes pd (va + 1) bs s' = Some s'' \<and> ustore s' s''"
    by (intro Cons.IH ustore_kinv [OF Cons.prems(1) s'(2)])
      (use Cons.prems(2) ustore_writable [OF s'(2)] ustore_tables(1) [OF s'(2)] in simp_all)
  then show ?case
    using s' ustore_trans [OF s'(2)] by auto
qed simp

lemma st32_writable:
  assumes "kinv M A s" and "dir_of s i = Some pd" and "writable s i va 4"
  shows "\<exists>s'. st32 pd va w s = Some s' \<and> ustore s s'"
proof -
  have "length (bytes_of32 w) = 4"
    by (simp add: bytes_of32_def)
  then show ?thesis
    unfolding st32_def using st_bytes_writable [OF assms(1,2), of va "bytes_of32 w"] assms(3) by simp
qed

lemma ld_bytes_readable:
  assumes "dir_of s i = Some pd" and "readable s i va n"
  shows "\<exists>bs. ld_bytes s pd va n = Some bs \<and> length bs = n"
  using assms(2)
proof (induction n arbitrary: va)
  case (Suc n)
  have "readable s i (va + 1) n"
    using readable_shift(2) [of s i va 1 n] Suc.prems by simp
  then obtain bs where bs: "ld_bytes s pd (va + 1) n = Some bs" "length bs = n"
    using Suc.IH by blast
  have "ld8 s pd va \<noteq> None"
    using ld8_readable [OF assms(1)] readableD [OF Suc.prems, of 0] by simp
  then show ?case
    using bs by auto
qed simp

section \<open>Reading back what was written\<close>

lemma bit_0xFF: "bit (0xFF :: u32) m \<longleftrightarrow> m < 8" "bit (0xFF :: int) m \<longleftrightarrow> m < 8"
proof -
  have "(0xFF :: u32) = mask 8" "(0xFF :: int) = mask 8"
    by (simp_all add: mask_eq_exp_minus_1)
  then show "bit (0xFF :: u32) m \<longleftrightarrow> m < 8" "bit (0xFF :: int) m \<longleftrightarrow> m < 8"
    by (auto simp only: bit_mask_iff) simp_all
qed

lemma set_byte_bytes:
  assumes "j < 4" and "k < 4"
  shows "(ucast (drop_bit (8 * j) (set_byte k b w)) :: u8) = (if j = k then b else ucast (drop_bit (8 * j) w))"
proof (rule bit_word_eqI)
  fix n
  assume n: "n < LENGTH(8)"
  note bits = set_byte_def bit_and_iff bit_or_iff bit_not_iff bit_push_bit_iff bit_drop_bit_eq bit_unsigned_iff bit_0xFF
  show "bit (ucast (drop_bit (8 * j) (set_byte k b w)) :: u8) n = bit (if j = k then b else ucast (drop_bit (8 * j) w)) n"
  proof (cases "j = k")
    case True
    then show ?thesis
      using n assms by (auto simp: bits)
  next
    case False
    then have "\<not> (8 * k \<le> 8 * j + n \<and> 8 * j + n - 8 * k < 8)"
      using n by simp linarith
    then show ?thesis
      using False n assms by (auto simp: bits dest: bit_imp_le_length)
  qed
qed

lemma xlate_w_xlate: "xlate_w s pd va = Some p \<Longrightarrow> xlate s pd va = Some p"
  by (auto simp: xlate_w_def xlate_def wr_target_def bind_eq_Some_conv split: if_splits)

text \<open>Two addresses of one page have the same translation and different offsets.\<close>

definition same_page :: "u32 \<Rightarrow> u32 \<Rightarrow> bool" where
  "same_page va va' = (unat va div 4096 = unat va' div 4096)"

lemma same_page_index:
  assumes "same_page va va'"
  shows "PDX va' = PDX va" and "PTX va' = PTX va"
    and "unat (PGOFF va') div 4 = unat (PGOFF va) div 4 \<Longrightarrow> unat va' mod 4 = unat va mod 4 \<Longrightarrow> va' = va"
proof -
  have d: "unat va div 4096 = unat va' div 4096"
    using assms by (simp add: same_page_def)
  have "unat x div 2 ^ 22 = unat x div 4096 div 1024" for x :: u32
    using div_mult2_eq [of "unat x" 4096 1024] by simp
  then show "PDX va' = PDX va" "PTX va' = PTX va"
    unfolding word_unat_eq_iff unat_PDX unat_PTX using d by simp_all
  assume "unat (PGOFF va') div 4 = unat (PGOFF va) div 4" "unat va' mod 4 = unat va mod 4"
  then have "unat va' mod 4096 div 4 = unat va mod 4096 div 4" "unat va' mod 4096 mod 4 = unat va mod 4096 mod 4"
    unfolding unat_PGOFF by (simp_all add: mod_mod_cancel)
  then have "unat va' mod 4096 = unat va mod 4096"
    by (rule div_mod_eqI)
  then have "unat va' = unat va"
    by (rule div_mod_eqI [OF d [symmetric]])
  then show "va' = va"
    by (rule word_unat_eq_iff [THEN iffD2])
qed

lemma st8_ld8:
  assumes inv: "kinv M A s" and dir: "dir_of s i = Some pd" and st: "st8 pd va b s = Some s'"
    and va: "va < UTOP" and page: "same_page va va'"
  shows "ld8 s' pd va' = (if va' = va then Some b else ld8 s pd va')"
proof -
  note index = same_page_index [OF page]
  obtain p where p: "xlate_w s pd va = Some p"
    and s': "s' = wr p (unat (PGOFF va) div 4) (set_byte (unat va mod 4) b (mem s p (unat (PGOFF va) div 4))) s"
    using st by (auto simp: st8_def Let_def)
  have u: "ustore s s'"
    using st8_writable [OF inv dir va p, of b] st by auto
  have "xlate_w s' pd va' = Some p" "xlate_w s pd va' = Some p"
    using ustore_xlate_w [OF u dir va] p by (simp_all add: xlate_w_def index(1,2))
  then have x: "xlate s' pd va' = Some p" "xlate s pd va' = Some p"
    by (simp_all add: xlate_w_xlate)
  have m: "mem s' p k = (if k = unat (PGOFF va) div 4 then set_byte (unat va mod 4) b (mem s p k) else mem s p k)" for k
    by (simp add: s')
  show ?thesis
  proof (cases "unat (PGOFF va') div 4 = unat (PGOFF va) div 4")
    case True
    have eq: "(unat va' mod 4 = unat va mod 4) = (va' = va)"
      using index(3) [OF True] by blast
    have "ld8 s' pd va' = Some (if unat va' mod 4 = unat va mod 4 then b
        else ucast (drop_bit (8 * (unat va' mod 4)) (mem s p (unat (PGOFF va) div 4))))"
      by (simp add: ld8_def x True m set_byte_bytes)
    moreover have "ld8 s pd va' = Some (ucast (drop_bit (8 * (unat va' mod 4)) (mem s p (unat (PGOFF va) div 4))))"
      unfolding ld8_def x True by simp
    ultimately show ?thesis
      unfolding eq by simp
  next
    case False
    then have "va' \<noteq> va"
      by blast
    moreover have "ld8 s' pd va' = ld8 s pd va'"
      by (simp add: ld8_def x m False)
    ultimately show ?thesis
      by (simp only: if_False)
  qed
qed

lemma writable_tail: "writable s i va (Suc n) \<Longrightarrow> writable s i (va + 1) n"
  unfolding writable_def
proof (intro allI impI)
  fix k
  assume w: "\<forall>k<Suc n. va + of_nat k < UTOP \<and> (\<exists>pd. dir_of s i = Some pd \<and> xlate_w s pd (va + of_nat k) \<noteq> None)" and "k < n"
  then show "va + 1 + of_nat k < UTOP \<and> (\<exists>pd. dir_of s i = Some pd \<and> xlate_w s pd (va + 1 + of_nat k) \<noteq> None)"
    using w [rule_format, of "Suc k"] by (simp add: add.assoc)
qed

text \<open>\<open>n\<close> bytes at \<open>va\<close> lie in one page.\<close>

definition in_page :: "u32 \<Rightarrow> nat \<Rightarrow> bool" where
  "in_page va n = (\<forall>k < n. same_page va (va + of_nat k))"

lemma in_page_tail: "in_page va (Suc n) \<Longrightarrow> in_page (va + 1) n"
  unfolding in_page_def
proof (intro allI impI)
  fix k
  assume p: "\<forall>k<Suc n. same_page va (va + of_nat k)" and "k < n"
  then show "same_page (va + 1) (va + 1 + of_nat k)"
    using p [rule_format, of "Suc k"] p [rule_format, of 1] by (simp add: same_page_def add.assoc)
qed

lemma st_bytes_ld8:
  assumes "kinv M A s" and "dir_of s i = Some pd" and "writable s i va (length bs)" and "st_bytes pd va bs s = Some s'"
    and "in_page va (length bs)" and "same_page va va'" and "length bs \<le> 4096"
  shows "ld8 s' pd va' = (if unat (va' - va) < length bs then Some (bs ! unat (va' - va)) else ld8 s pd va')"
  using assms
proof (induction bs arbitrary: va s)
  case (Cons b bs)
  have w: "va < UTOP" "writable s i (va + 1) (length bs)"
    using Cons.prems(3) writable_tail by (force simp: writable_def)+
  obtain s1 where s1: "st8 pd va b s = Some s1" "st_bytes pd (va + 1) bs s1 = Some s'"
    using Cons.prems(4) by (auto simp: bind_eq_Some_conv)
  have u: "ustore s s1"
    using st_bytes_writable [OF Cons.prems(1,2), of va "[b]"] Cons.prems(3) s1(1) by (auto simp: writable_def)
  have first: "ld8 s1 pd va' = (if va' = va then Some b else ld8 s pd va')"
    by (rule st8_ld8 [OF Cons.prems(1,2) s1(1) w(1) Cons.prems(6)])
  show ?case
  proof (cases "bs = []")
    case True
    then show ?thesis
      using first s1(2) by (simp add: unat_eq_0 flip: eq_iff_diff_eq_0)
  next
    case False
    then have "same_page (va + 1) va'"
      using Cons.prems(5,6) [unfolded in_page_def same_page_def, simplified] by (auto simp: same_page_def dest: spec [of _ 1])
    then have rest: "ld8 s' pd va' = (if unat (va' - (va + 1)) < length bs then Some (bs ! unat (va' - (va + 1))) else ld8 s1 pd va')"
      using Cons.prems(2,5,7) w(2) s1(2) u
      by (intro Cons.IH ustore_kinv [OF Cons.prems(1) u]) (simp_all add: ustore_tables(1) ustore_writable in_page_tail)
    show ?thesis
    proof (cases "va' = va")
      case True
      then have "unat (va' - (va + 1)) = 2 ^ 32 - 1"
        using unat_uminus [of 1] by simp
      then show ?thesis
        using rest first Cons.prems(7) True by simp
    next
      case False
      then have "va' - va \<noteq> 0"
        by simp
      then have "unat (va' - va) = Suc (unat (va' - (va + 1)))"
        using unat_minus_one [of "va' - va"] by (simp add: diff_diff_eq unat_gt_0)
      then show ?thesis
        using rest first False by simp
    qed
  qed
qed simp

lemma st_bytes_append:
  "st_bytes pd va (xs @ ys) s = Option.bind (st_bytes pd va xs s) (st_bytes pd (va + of_nat (length xs)) ys)"
  by (induction xs arbitrary: va s) (auto simp: add.assoc split: bind_split)

lemma bytes_of32_join:
  "(ucast (ucast w :: u8) OR push_bit 8 (ucast (ucast (drop_bit 8 w) :: u8)) OR push_bit 16 (ucast (ucast (drop_bit 16 w) :: u8))
     OR push_bit 24 (ucast (ucast (drop_bit 24 w) :: u8))) = (w :: u32)"
proof (rule bit_word_eqI)
  fix n
  assume n: "n < LENGTH(32)"
  consider "n < 8" | "8 \<le> n" "n < 16" | "16 \<le> n" "n < 24" | "24 \<le> n" "n < 32"
    using n by force
  then show "bit (ucast (ucast w :: u8) OR push_bit 8 (ucast (ucast (drop_bit 8 w) :: u8)) OR push_bit 16 (ucast (ucast (drop_bit 16 w) :: u8))
     OR push_bit 24 (ucast (ucast (drop_bit 24 w) :: u8)) :: u32) n = bit w n"
    by cases (auto simp: bit_or_iff bit_push_bit_iff bit_drop_bit_eq bit_unsigned_iff)
qed

lemma ld32_bytes:
  assumes "\<And>k. k < 4 \<Longrightarrow> ld8 s pd (va + of_nat k) = Some (bytes_of32 w ! k)"
  shows "ld32 s pd va = Some w"
  using assms [of 0] assms [of 1] assms [of 2] assms [of 3]
  by (simp add: ld32_def bytes_of32_def bytes_of32_join numeral_2_eq_2 numeral_3_eq_3)

lemma length_bytes_of32 [simp]: "length (bytes_of32 w) = 4"
  by (simp add: bytes_of32_def)

lemma ld_words_bytes:
  assumes "\<And>k. k < 4 * length ws \<Longrightarrow> ld8 s pd (va + of_nat k) = Some (concat (map bytes_of32 ws) ! k)"
  shows "ld_words s pd va (length ws) = Some ws"
  using assms
proof (induction ws arbitrary: va)
  case (Cons w ws)
  have "ld32 s pd va = Some w"
  proof (rule ld32_bytes)
    fix k :: nat
    assume "k < 4"
    then show "ld8 s pd (va + of_nat k) = Some (bytes_of32 w ! k)"
      using Cons.prems [of k] by (simp add: nth_append)
  qed
  moreover have "ld_words s pd (va + 4) (length ws) = Some ws"
  proof (rule Cons.IH)
    fix k
    assume "k < 4 * length ws"
    then show "ld8 s pd (va + 4 + of_nat k) = Some (concat (map bytes_of32 ws) ! k)"
      using Cons.prems [of "4 + k"] by (simp add: nth_append add.assoc)
  qed
  ultimately show ?case
    by simp
qed simp

end
