(* ===== verification/Syscall.thy ===== *)
theory Syscall
  imports Usermem
begin

text \<open>
  System calls: \<^verbatim>\<open>kern/syscall.c\<close>, with \<^verbatim>\<open>kern/time.c\<close>. A call returns the C return value as an
  \<open>int\<close>, leaves for another environment, or idles. What the serial port and the keyboard deliver at each poll of
  the loop of \<^verbatim>\<open>sys_cgetc\<close> is an argument of the dispatcher.
\<close>

section \<open>Console, time and environment calls\<close>

text \<open>
  The loop of \<^verbatim>\<open>vprintfmt\<close> (\<^verbatim>\<open>lib/printfmt.c\<close>) for \<^verbatim>\<open>%.*s\<close>, reading the string through the current address
  space. A negative precision means no limit; the first argument bounds the characters by the size of
  the address space, beyond which a string without end repeats.
\<close>

fun cputs_loop :: "nat \<Rightarrow> nat \<Rightarrow> u32 \<Rightarrow> int \<Rightarrow> u8 list \<Rightarrow> kstate \<Rightarrow> (u8 list, kstate) kres" where
  "cputs_loop 0 pd p precision out s = Hang"
| "cputs_loop (Suc n) pd p precision out s =
     (case ld8 s pd p of None \<Rightarrow> Panic ''page fault''
      | Some ch \<Rightarrow>
          if ch \<noteq> 0 \<and> (precision < 0 \<or> precision - 1 \<ge> 0)
          then cputs_loop n pd (p + 1) (if precision < 0 then precision else precision - 1) (out @ [ch]) s
          else Ok out s)"

definition null_text :: "u8 list" where
  "null_text = [0x28, 0x6E, 0x75, 0x6C, 0x6C, 0x29]"

definition sys_cputs :: "u32 \<Rightarrow> u32 \<Rightarrow> kstate \<Rightarrow> (unit, kstate) kres" where
  "sys_cputs p len s =
     kbind (the_curenv s) (\<lambda>c s.
     kbind (user_mem_assert c p len 0 s) (\<lambda>_ s.
     if p = 0 then Ok () (hw (Cputs (if sint len < 0 then null_text else take (nat (sint len)) null_text)) s)
     else
       kbind (the_curenv s) (\<lambda>c s.
       kbind (the_env (env_pgdir (envs s c)) s) (\<lambda>pd s.
       kbind (cputs_loop (2 ^ 32) pd p (sint len) [] s) (\<lambda>out s. Ok () (hw (Cputs out) s))))))"

text \<open>The loop of \<^verbatim>\<open>sys_cgetc\<close>, with the bytes that each poll finds; when the input ends, the call waits.\<close>

fun sys_cgetc :: "(u8 list \<times> u8 list) list \<Rightarrow> kstate \<Rightarrow> (int, kstate) kres" where
  "sys_cgetc [] s = Idle s"
| "sys_cgetc ((serial, kbd) # polls) s =
     (let (c, reset, k) = cons_getc serial kbd (cons s);
          s = s\<lparr>cons := k\<rparr>;
          s = (if reset then hw Reboot s else s)
      in if c = 0 then sys_cgetc polls s else Ok (uint c) s)"

text \<open>\<^verbatim>\<open>reboot\<close> pulses the reset line and does not return.\<close>

definition sys_reboot :: "kstate \<Rightarrow> (unit, kstate) kres" where
  "sys_reboot s = Idle (hw Reboot s)"

definition sys_getenvid :: "kstate \<Rightarrow> (int, kstate) kres" where
  "sys_getenvid s = kbind (the_curenv s) (\<lambda>c s. Ok (sint (env_id (envs s c))) s)"

definition sys_env_destroy :: "u32 \<Rightarrow> kstate \<Rightarrow> (int, kstate) kres" where
  "sys_env_destroy envid s =
     kbind (envid2env envid True s) (\<lambda>r s. case r of Inl r \<Rightarrow> Ok r s
     | Inr eo \<Rightarrow> kbind (the_env eo s) (\<lambda>e s. kbind (env_destroy e s) (\<lambda>_ s. Ok 0 s)))"

text \<open>Setting the running environment runnable and giving up the processor.\<close>

definition sys_yield :: "kstate \<Rightarrow> ('a, kstate) kres" where
  "sys_yield s =
     kbind (the_curenv s) (\<lambda>c s.
     kbind (kassert (env_status (envs s c) = ENV_RUNNING) ''assertion failed: env_status == ENV_RUNNING'' s) (\<lambda>_ s.
     kbind (spin_lock (env_lock_of c) (env_lock_of_update c) s) (\<lambda>_ s.
       let s = upd_env c (\<lambda>x. x\<lparr>env_status := ENV_RUNNABLE\<rparr>) s;
           s = spin_unlock (env_lock_of_update c) s
       in sched_yield s)))"

definition sys_exofork :: "kstate \<Rightarrow> (int, kstate) kres" where
  "sys_exofork s =
     kbind (the_curenv s) (\<lambda>c s.
     kbind (env_alloc (env_id (envs s c)) s) (\<lambda>r s. case r of Inl _ \<Rightarrow> Ok (- E_NO_FREE_ENV) s
     | Inr e \<Rightarrow>
         kbind (spin_lock (env_lock_of e) (env_lock_of_update e) s) (\<lambda>_ s.
         kbind (kassert (env_status (envs s e) = ENV_RUNNABLE) ''assertion failed: env_status == ENV_RUNNABLE'' s) (\<lambda>_ s.
           let s = upd_env e (\<lambda>x. x\<lparr>env_status := ENV_NOT_RUNNABLE\<rparr>) s;
               s = spin_unlock (env_lock_of_update e) s;
               s = upd_env e (\<lambda>x. x\<lparr>env_tf := env_tf (envs s c)\<rparr>) s;
               s = upd_env e (\<lambda>x. x\<lparr>env_tf := (env_tf x)\<lparr>tf_regs := (tf_regs (env_tf x))\<lparr>reg_eax := 0\<rparr>\<rparr>\<rparr>) s
           in Ok (sint (env_id (envs s e))) s))))"

definition sys_env_set_status :: "u32 \<Rightarrow> u32 \<Rightarrow> kstate \<Rightarrow> (int, kstate) kres" where
  "sys_env_set_status envid status s =
     kbind (envid2env envid True s) (\<lambda>r s. case r of Inl r \<Rightarrow> Ok r s
     | Inr eo \<Rightarrow>
         if status \<noteq> ENV_RUNNABLE \<and> status \<noteq> ENV_NOT_RUNNABLE then Ok (- E_INVAL) s
         else kbind (the_env eo s) (\<lambda>e s.
              kbind (spin_lock (env_lock_of e) (env_lock_of_update e) s) (\<lambda>_ s.
                let s = upd_env e (\<lambda>x. x\<lparr>env_status := status\<rparr>) s
                in Ok 0 (spin_unlock (env_lock_of_update e) s))))"

definition sys_env_set_trapframe :: "u32 \<Rightarrow> u32 \<Rightarrow> kstate \<Rightarrow> (int, kstate) kres" where
  "sys_env_set_trapframe envid tf s =
     kbind (envid2env envid True s) (\<lambda>r s. case r of Inl r \<Rightarrow> Ok r s
     | Inr eo \<Rightarrow>
         kbind (the_env eo s) (\<lambda>e s.
         kbind (user_mem_assert e tf SIZEOF_STRUCT_TRAPFRAME 0 s) (\<lambda>_ s.
         kbind (spin_lock (env_lock_of e) (env_lock_of_update e) s) (\<lambda>_ s.
           case ld_tf s tf of None \<Rightarrow> Panic ''page fault''
           | Some f \<Rightarrow>
               let s = upd_env e (\<lambda>x. x\<lparr>env_tf := f\<rparr>) s
               in Ok 0 (spin_unlock (env_lock_of_update e) s)))))"

definition sys_env_set_pgfault_upcall :: "u32 \<Rightarrow> u32 \<Rightarrow> kstate \<Rightarrow> (int, kstate) kres" where
  "sys_env_set_pgfault_upcall envid func s =
     kbind (envid2env envid True s) (\<lambda>r s. case r of Inl r \<Rightarrow> Ok r s
     | Inr eo \<Rightarrow>
         kbind (the_env eo s) (\<lambda>e s.
         kbind (spin_lock (env_lock_of e) (env_lock_of_update e) s) (\<lambda>_ s.
           let s = upd_env e (\<lambda>x. x\<lparr>env_pgfault_upcall := func\<rparr>) s
           in Ok 0 (spin_unlock (env_lock_of_update e) s))))"

section \<open>Memory calls\<close>

definition sys_page_alloc :: "u32 \<Rightarrow> u32 \<Rightarrow> u32 \<Rightarrow> kstate \<Rightarrow> (int, kstate) kres" where
  "sys_page_alloc envid va perm s =
     kbind (envid2env envid True s) (\<lambda>r s. case r of Inl r \<Rightarrow> Ok r s
     | Inr eo \<Rightarrow>
         if perm AND PTE_U = 0 \<or> perm AND PTE_P = 0 \<or> perm AND NOT PTE_USER \<noteq> 0 then Ok (- E_INVAL) s
         else if va \<ge> UTOP \<or> va mod PGSIZE \<noteq> 0 then Ok (- E_INVAL) s
         else kbind (page_alloc s) (\<lambda>r s. case r of Inl r \<Rightarrow> Ok r s
         | Inr p \<Rightarrow>
             kbind (page2kva p s) (\<lambda>kva s.
             let s = memset_page kva s in
             kbind (the_env eo s) (\<lambda>e s.
             kbind (page_insert (env_pgdir (envs s e)) p va perm s) (\<lambda>r s.
             if r < 0 then
               kbind (kassert (pp_ref s p = 0) ''assertion failed: pp_ref == 0'' s) (\<lambda>_ s.
               kbind (page_free p s) (\<lambda>_ s. Ok r s))
             else Ok 0 s)))))"

definition sys_page_map :: "u32 \<Rightarrow> u32 \<Rightarrow> u32 \<Rightarrow> u32 \<Rightarrow> u32 \<Rightarrow> kstate \<Rightarrow> (int, kstate) kres" where
  "sys_page_map srcenvid srcva dstenvid dstva perm s =
     kbind (envid2env srcenvid True s) (\<lambda>r s. case r of Inl r \<Rightarrow> Ok r s
     | Inr eso \<Rightarrow>
     kbind (envid2env dstenvid True s) (\<lambda>r s. case r of Inl r \<Rightarrow> Ok r s
     | Inr edo \<Rightarrow>
         if srcva \<ge> UTOP \<or> srcva mod PGSIZE \<noteq> 0 \<or> dstva \<ge> UTOP \<or> dstva mod PGSIZE \<noteq> 0 then Ok (- E_INVAL) s
         else if perm AND (PTE_U + PTE_P) = 0 \<or> perm AND NOT PTE_USER \<noteq> 0 then Ok (- E_INVAL) s
         else
           kbind (the_env eso s) (\<lambda>es s.
           kbind (page_lookup (env_pgdir (envs s es)) srcva s) (\<lambda>r s. case r of None \<Rightarrow> Ok (- E_INVAL) s
           | Some (p, (pt, i)) \<Rightarrow>
               if perm AND PTE_W \<noteq> 0 \<and> mem s pt i AND PTE_W = 0 then Ok (- E_INVAL) s
               else
                 kbind (the_env edo s) (\<lambda>ed s.
                 kbind (page_insert (env_pgdir (envs s ed)) p dstva perm s) (\<lambda>r s.
                   if r < 0 then Ok r s else Ok 0 s))))))"

definition sys_page_unmap :: "u32 \<Rightarrow> u32 \<Rightarrow> kstate \<Rightarrow> (int, kstate) kres" where
  "sys_page_unmap envid va s =
     kbind (envid2env envid True s) (\<lambda>r s. case r of Inl r \<Rightarrow> Ok r s
     | Inr eo \<Rightarrow>
         if va \<ge> UTOP \<or> va mod PGSIZE \<noteq> 0 then Ok (- E_INVAL) s
         else kbind (the_env eo s) (\<lambda>e s.
              kbind (page_remove (env_pgdir (envs s e)) va s) (\<lambda>_ s. Ok 0 s)))"

section \<open>Inter-process communication\<close>

definition sys_ipc_try_send :: "u32 \<Rightarrow> u32 \<Rightarrow> u32 \<Rightarrow> u32 \<Rightarrow> kstate \<Rightarrow> (int, kstate) kres" where
  "sys_ipc_try_send envid value srcva perm s =
     kbind (envid2env envid False s) (\<lambda>r s. case r of Inl r \<Rightarrow> Ok r s
     | Inr to \<Rightarrow>
       kbind (the_env to s) (\<lambda>target s.
       if \<not> env_ipc_recving (envs s target) then Ok (- E_IPC_NOT_RECV) s
       else
         kbind (spin_lock (env_lock_of target) (env_lock_of_update target) s) (\<lambda>_ s.
         kbind (the_curenv s) (\<lambda>c s.
         let s = upd_env target (\<lambda>x. x\<lparr>env_ipc_recving := False, env_ipc_from := env_id (envs s c),
                   env_ipc_value := value, env_ipc_perm := 0\<rparr>) s;
             unlock = spin_unlock (env_lock_of_update target)
         in if srcva \<noteq> 0 then
              if srcva \<ge> UTOP \<or> srcva mod PGSIZE \<noteq> 0 then Ok (- E_INVAL) (unlock s)
              else if perm AND PTE_U = 0 \<or> perm AND PTE_P = 0 \<or> perm AND NOT PTE_USER \<noteq> 0
              then Ok (- E_INVAL) (unlock s)
              else
                kbind (page_lookup (env_pgdir (envs s c)) srcva s) (\<lambda>r s. case r of None \<Rightarrow> Ok (- E_INVAL) (unlock s)
                | Some (p, _) \<Rightarrow>
                    if env_ipc_dstva (envs s target) \<noteq> 0 then
                      kbind (page_insert (env_pgdir (envs s target)) p (env_ipc_dstva (envs s target)) perm s) (\<lambda>r s.
                        if r < 0 then Ok r (unlock s)
                        else
                          let s = upd_env target (\<lambda>x. x\<lparr>env_ipc_perm := perm, env_status := ENV_RUNNABLE\<rparr>) s
                          in Ok 1 (unlock s))
                    else
                      let s = upd_env target (\<lambda>x. x\<lparr>env_status := ENV_RUNNABLE\<rparr>) s in Ok 0 (unlock s))
            else
              let s = upd_env target (\<lambda>x. x\<lparr>env_status := ENV_RUNNABLE\<rparr>) s in Ok 0 (unlock s)))))"

definition sys_ipc_recv :: "u32 \<Rightarrow> kstate \<Rightarrow> (int, kstate) kres" where
  "sys_ipc_recv dstva s =
     kbind (the_curenv s) (\<lambda>c s.
     kbind (spin_lock (env_lock_of c) (env_lock_of_update c) s) (\<lambda>_ s.
     if dstva \<noteq> 0 \<and> (dstva \<ge> UTOP \<or> dstva mod PGSIZE \<noteq> 0)
     then Ok (- E_INVAL) (spin_unlock (env_lock_of_update c) s)
     else
       let s = (if dstva \<noteq> 0 then upd_env c (\<lambda>x. x\<lparr>env_ipc_dstva := dstva\<rparr>) s else s) in
       kbind (kassert (env_status (envs s c) = ENV_RUNNING) ''assertion failed: env_status == ENV_RUNNING'' s) (\<lambda>_ s.
         let s = upd_env c (\<lambda>x. x\<lparr>env_ipc_recving := True, env_status := ENV_NOT_RUNNABLE\<rparr>) s;
             s = upd_env c (\<lambda>x. x\<lparr>env_tf := (env_tf x)\<lparr>tf_regs := (tf_regs (env_tf x))\<lparr>reg_eax := 0\<rparr>\<rparr>\<rparr>) s;
             s = spin_unlock (env_lock_of_update c) s
         in sched_yield s)))"

section \<open>Time and dispatch\<close>

definition time_tick :: "kstate \<Rightarrow> (unit, kstate) kres" where
  "time_tick s = (if ticks s = NOT 0 then Panic ''time_tick: time overflowed'' else Ok () (s\<lparr>ticks := ticks s + 1\<rparr>))"

definition time_msec :: "kstate \<Rightarrow> u32" where
  "time_msec s = ticks s * 10"

definition sys_time_msec :: "kstate \<Rightarrow> (int, kstate) kres" where
  "sys_time_msec s = Ok (sint (time_msec s)) s"

text \<open>
  The two network calls enter the driver, which copies from and to the caller's memory. A copy of more bytes than the
  page of a transmit block holds overruns it.
\<close>

definition sys_nic_send :: "u32 \<Rightarrow> u32 \<Rightarrow> kstate \<Rightarrow> (int, kstate) kres" where
  "sys_nic_send packet sz s =
     kbind (the_curenv s) (\<lambda>c s.
     kbind (the_env (env_pgdir (envs s c)) s) (\<lambda>pd s.
     let bytes = (if unat sz \<le> BLOCK_ROOM then ld_bytes s pd packet (unat sz) else None)
     in case e100_add_tcb bytes (nic s) of None \<Rightarrow> Panic ''page fault''
        | Some (r, e) \<Rightarrow> Ok r (s\<lparr>nic := e\<rparr>)))"

definition sys_nic_recv :: "u32 \<Rightarrow> u32 \<Rightarrow> kstate \<Rightarrow> (int, kstate) kres" where
  "sys_nic_recv packet szp s =
     kbind (the_curenv s) (\<lambda>c s.
     kbind (user_mem_assert c packet E100_MAX_PKT_SIZE (PTE_P OR PTE_W) s) (\<lambda>_ s.
     kbind (the_curenv s) (\<lambda>c s.
     kbind (the_env (env_pgdir (envs s c)) s) (\<lambda>pd s.
     case e100_rem_rfd (nic s) of None \<Rightarrow> Panic ''page fault''
     | Some (r, bytes, e) \<Rightarrow>
         (if r < 0 then Ok r (s\<lparr>nic := e\<rparr>)
          else case st32 pd szp (of_nat (length bytes)) s of None \<Rightarrow> Panic ''page fault''
          | Some s \<Rightarrow>
              (case st_bytes pd packet bytes s of None \<Rightarrow> Panic ''page fault''
               | Some s \<Rightarrow> Ok r (s\<lparr>nic := e\<rparr>)))))))"

datatype sysno = SYS_cputs | SYS_cgetc | SYS_reboot | SYS_getenvid | SYS_env_destroy | SYS_page_alloc
  | SYS_page_map | SYS_page_unmap | SYS_exofork | SYS_env_set_status | SYS_env_set_trapframe
  | SYS_env_set_pgfault_upcall | SYS_yield | SYS_ipc_try_send | SYS_ipc_recv | SYS_time_msec
  | SYS_nic_send | SYS_nic_recv

definition syscall_numbers :: "sysno list" where
  "syscall_numbers = [SYS_cputs, SYS_cgetc, SYS_reboot, SYS_getenvid, SYS_env_destroy, SYS_page_alloc,
     SYS_page_map, SYS_page_unmap, SYS_exofork, SYS_env_set_status, SYS_env_set_trapframe,
     SYS_env_set_pgfault_upcall, SYS_yield, SYS_ipc_try_send, SYS_ipc_recv, SYS_time_msec,
     SYS_nic_send, SYS_nic_recv]"

definition sysno_of :: "u32 \<Rightarrow> sysno option" where
  "sysno_of n = (if unat n < length syscall_numbers then Some (syscall_numbers ! unat n) else None)"

text \<open>\<^verbatim>\<open>syscall\<close>; the case of \<^verbatim>\<open>SYS_yield\<close> would fall through to the next one if it returned.\<close>

definition syscall :: "(u8 list \<times> u8 list) list \<Rightarrow> u32 \<Rightarrow> u32 \<Rightarrow> u32 \<Rightarrow> u32 \<Rightarrow> u32 \<Rightarrow> u32 \<Rightarrow> kstate \<Rightarrow> (int, kstate) kres" where
  "syscall polls syscallno a1 a2 a3 a4 a5 s =
     (case sysno_of syscallno of
        None \<Rightarrow> Panic ''Unknown system call!''
      | Some no \<Rightarrow>
        (case no of
           SYS_cputs \<Rightarrow> kbind (sys_cputs a1 a2 s) (\<lambda>_ s. Ok 0 s)
         | SYS_cgetc \<Rightarrow> sys_cgetc polls s
         | SYS_reboot \<Rightarrow> kbind (sys_reboot s) (\<lambda>_ s. Ok 0 s)
         | SYS_env_destroy \<Rightarrow> sys_env_destroy a1 s
         | SYS_getenvid \<Rightarrow> sys_getenvid s
         | SYS_yield \<Rightarrow> kbind (sys_yield s :: (unit, kstate) kres) (\<lambda>_ s. sys_page_alloc a1 a2 a3 s)
         | SYS_page_alloc \<Rightarrow> sys_page_alloc a1 a2 a3 s
         | SYS_page_map \<Rightarrow> sys_page_map a1 a2 a3 a4 a5 s
         | SYS_page_unmap \<Rightarrow> sys_page_unmap a1 a2 s
         | SYS_exofork \<Rightarrow> sys_exofork s
         | SYS_env_set_status \<Rightarrow> sys_env_set_status a1 a2 s
         | SYS_env_set_trapframe \<Rightarrow> sys_env_set_trapframe a1 a2 s
         | SYS_env_set_pgfault_upcall \<Rightarrow> sys_env_set_pgfault_upcall a1 a2 s
         | SYS_ipc_try_send \<Rightarrow> sys_ipc_try_send a1 a2 a3 a4 s
         | SYS_ipc_recv \<Rightarrow> sys_ipc_recv a1 s
         | SYS_time_msec \<Rightarrow> sys_time_msec s
         | SYS_nic_send \<Rightarrow> sys_nic_send a1 a2 s
         | SYS_nic_recv \<Rightarrow> sys_nic_recv a1 a2 s))"

section \<open>Looking up environments\<close>

lemma envid2env_spec:
  assumes inv: "kinv M A s" and cur: "live c s"
  obtains (bad) "envid2env envid checkperm s = Ok (Inl (- E_BAD_ENV)) s"
  | (found) e where "envid2env envid checkperm s = Ok (Inr (Some e)) s" "e < NENV"
      "env_status (envs s e) \<noteq> ENV_FREE"
      "envid = 0 \<and> e = c \<or> envid \<noteq> 0 \<and> env_id (envs s e) = envid \<and>
         (checkperm \<longrightarrow> e = c \<or> env_parent_id (envs s e) = env_id (envs s c))"
proof (cases "envid = 0")
  case True
  then show ?thesis
    using cur by (intro found [of c]) (simp_all add: envid2env_def live_def)
next
  case False
  let ?e = "unat (ENVX envid)"
  let ?no = "env_status (envs s ?e) = ENV_FREE \<or> env_id (envs s ?e) \<noteq> envid
    \<or> checkperm \<and> ?e \<noteq> c \<and> env_parent_id (envs s ?e) \<noteq> env_id (envs s c)"
  have "?e < NENV"
    unfolding ENVX_def NENV_mask take_bit_eq_mask [symmetric] unat_take_bit by (simp add: const_defs)
  moreover have "envid2env envid checkperm s = Ok (if ?no then Inl (- E_BAD_ENV) else Inr (Some ?e)) s"
    using cur False by (auto simp: envid2env_def live_def Let_def the_curenv_def)
  ultimately show ?thesis
    using that False by (cases ?no) auto
qed

section \<open>Changing one environment\<close>

lemma upd_env_upd_env [simp]: "upd_env i f (upd_env i g s) = upd_env i (\<lambda>x. f (g x)) s"
  by (simp add: upd_env_def)

lemma upd_env_id: "f (envs s i) = envs s i \<Longrightarrow> upd_env i f s = s"
  by (simp add: upd_env_def)

lemma upd_env_cong: "f (envs s i) = g (envs s i) \<Longrightarrow> upd_env i f s = upd_env i g s"
  by (simp add: upd_env_def)

lemma kinv_unlocked: "kinv M A s \<Longrightarrow> i < NENV \<Longrightarrow> \<not> env_lock (envs s i)"
  using einvD(1) [OF kinvD(2)] by (simp add: env_ok_def)

lemma kinv_upd_env:
  assumes inv: "kinv M A s" and i: "i < NENV" and ok: "env_ok i (f (envs s i))"
    and dir: "env_pgdir (f (envs s i)) = env_pgdir (envs s i)"
  shows "kinv M A (upd_env i f s)"
proof -
  note E = einvD [OF kinvD(2) [OF inv]]
  have "env_status (f (envs s i)) = ENV_FREE \<longleftrightarrow> env_status (envs s i) = ENV_FREE"
    using ok E(1) [OF i] dir by (simp add: env_ok_def)
  then have "{j. j < NENV \<and> env_status (envs (upd_env i f s) j) = ENV_FREE} = {j. j < NENV \<and> env_status (envs s j) = ENV_FREE}"
    by auto
  then have "einv (upd_env i f s)"
    using E ok by (simp add: einv_def)
  then show ?thesis
    using kinvD [OF inv] minv_cong [of "upd_env i f s" s] dir by (simp add: kinv_def dev_inv_def)
qed

text \<open>
  \<open>harmless f\<close>: \<open>f\<close> keeps what the invariant says of a live environment.
\<close>

definition harmless :: "(env \<Rightarrow> env) \<Rightarrow> bool" where
  "harmless f \<longleftrightarrow> (\<forall>i x. env_ok i x \<longrightarrow> env_status x \<noteq> ENV_FREE \<longrightarrow>
     env_ok i (f x) \<and> env_pgdir (f x) = env_pgdir x)"

lemma harmless_upd_env:
  assumes "kinv M A s" and "live c s" and "i < NENV" and "env_status (envs s i) \<noteq> ENV_FREE" and "harmless f"
  shows "kinv M A (upd_env i f s)" and "live c (upd_env i f s)"
proof -
  have ok: "env_ok i (envs s i)"
    using einvD(1) [OF kinvD(2)] assms by blast
  then have f: "env_ok i (f (envs s i))" "env_pgdir (f (envs s i)) = env_pgdir (envs s i)"
    using assms(4,5) by (simp_all add: harmless_def)
  show "kinv M A (upd_env i f s)"
    by (rule kinv_upd_env [where A = A]) (use assms f in simp_all)
  show "live c (upd_env i f s)"
    using assms(2,4) f ok by (auto simp: live_def env_ok_def)
qed

lemma spin_unlock_env: "spin_unlock (env_lock_of_update e) s = upd_env e (env_lock_update (\<lambda>_. False)) s"
  by (simp add: spin_unlock_def env_lock_of_update_def)

lemmas env_locking = spin_lock_env spin_unlock_env

section \<open>Checking user memory\<close>

text \<open>Thanks to the shared kernel mappings a walk succeeds at every address, not only below \<^verbatim>\<open>UTOP\<close>.\<close>

lemma pgdir_walk_total:
  assumes inv: "minv M A H s" and pd: "dir_of s i = Some pd"
  shows "\<exists>r. pgdir_walk (Some pd) va False s = Ok r s"
proof (cases "pte_target (mem s pd (unat (PDX va)))")
  case None
  then show ?thesis
    by (simp add: pgdir_walk_def Let_def pte_target_def split: if_splits)
next
  case (Some pt)
  have "pd \<in> M"
    using minv_managed [OF inv, of "Dir i"] pd by simp
  have "pt < npage s"
  proof (cases "unat (PDX va) < NPDE")
    case True
    then have "target s (Pd i (unat (PDX va))) = Some pt"
      using Some pd by (simp add: pde_of_cases)
    then show ?thesis
      by (rule minv_npage [OF inv])
  next
    case False
    have "unat (PDX va) < 1024"
      using unat_u32_less [of va] by (simp add: unat_PDX)
    then have w: "mem s pd (unat (PDX va)) = kern_pde s pd (unat (PDX va))"
      using minvD(6) [OF inv] pd False by (simp add: kmap_def)
    have "PPN (PTE_P OR PTE_W) = 0" "PPN (PTE_P OR PTE_U) = 0"
      by (simp_all add: PPN_def const_defs)
    then have self: "pte_target (page2pa pd OR PTE_P OR PTE_W) = Some pd" "pte_target (page2pa pd OR PTE_P OR PTE_U) = Some pd"
      using pte_target_make [OF minv_ppn [OF inv \<open>pd \<in> M\<close>], of PTE_W] pte_target_make [OF minv_ppn [OF inv \<open>pd \<in> M\<close>], of PTE_U]
      by (simp_all add: PPN_def const_defs or.commute or.left_commute)
    have boot: "pte_target (mem s (boot_pgdir s) (unat (PDX va))) = Some pt \<Longrightarrow> pt < npage s"
      using minvD(6) [OF inv] False unfolding kmap_def not_less by blast
    show ?thesis
      using Some self minvD(2) [OF inv \<open>pd \<in> M\<close>] boot by (auto simp: w kern_pde_def split: if_splits)
  qed
  then show ?thesis
    using Some by (auto simp: pgdir_walk_def Let_def KADDR_def pte_target_def split: if_splits)
qed

lemma user_mem_check_total:
  assumes inv: "minv M A H s" and dir: "i < NENV" "env_pgdir (envs s i) = Some pd"
  shows "\<exists>a. user_mem_check i va len perm s = Ok 0 s \<or> user_mem_check i va len perm s = Ok (- E_FAULT) (s\<lparr>user_mem_check_addr := a\<rparr>)"
proof -
  have "dir_of s i = Some pd"
    using dir by (simp add: dir_of_def)
  then obtain r where walk: "pgdir_walk (Some pd) va False s = Ok r s"
    using pgdir_walk_total [OF inv] by blast
  obtain m where m: "m < 2 ^ 20" "ROUNDUP (va + len) PGSIZE = ROUNDDOWN va PGSIZE + of_nat m * PGSIZE"
    by (rule page_distance)
  show ?thesis
    using user_mem_check_loop_eq [OF walk, of 0 m perm "ROUNDDOWN va PGSIZE"] m(1) dir
    unfolding user_mem_check_def Let_def m(2) by auto
qed

lemma kinv_mem_check_addr: "kinv M A s \<Longrightarrow> kinv M A (s\<lparr>user_mem_check_addr := a\<rparr>)"
  using minv_cong [of "s\<lparr>user_mem_check_addr := a\<rparr>" s] unfolding kinv_def by (simp add: einv_def dev_inv_def)

lemma user_mem_assert_safe:
  assumes inv: "kinv M {} s" and cur: "live c s" and e: "e < NENV" "env_status (envs s e) \<noteq> ENV_FREE"
  shows "returns (\<lambda>_ s'. kinv M {} s' \<and> live c s' \<and> (\<forall>i. i \<noteq> e \<longrightarrow> envs s' i = envs s i) \<and> others_kept e s s'
              \<and> (s' = s \<or> e \<noteq> c))
           (\<lambda>s'. e = c \<and> kinv M {} s') (user_mem_assert e va len perm s)"
proof -
  obtain pd where pd: "env_pgdir (envs s e) = Some pd"
    by (rule kinv_dir [OF inv e])
  then obtain a where "user_mem_check e va len (perm OR PTE_U) s = Ok 0 s
      \<or> user_mem_check e va len (perm OR PTE_U) s = Ok (- E_FAULT) (s\<lparr>user_mem_check_addr := a\<rparr>)"
    using user_mem_check_total [OF kinvD(1) [OF inv] e(1)] by blast
  then show ?thesis
  proof
    assume "user_mem_check e va len (perm OR PTE_U) s = Ok 0 s"
    then show ?thesis
      using inv cur by (simp add: user_mem_assert_def others_kept_def)
  next
    let ?s = "s\<lparr>user_mem_check_addr := a\<rparr>"
    assume "user_mem_check e va len (perm OR PTE_U) s = Ok (- E_FAULT) ?s"
    then have run: "user_mem_assert e va len perm s = env_destroy e ?s"
      using cur by (simp add: user_mem_assert_def the_curenv_def live_def const_defs)
    have T: "target ?s = target s"
      by (rule target_cong) simp_all
    have va: "va_entry ?s j v = va_entry s j v" for j v
      using fun_cong [OF T, of "Pd j (unat (PDX v))"] by (intro va_entry_cong) simp_all
    have cur': "live c ?s"
      using cur by (simp add: live_def)
    show ?thesis
      unfolding run
      by (rule returns_mono [OF env_destroy_safe [OF kinv_mem_check_addr [OF inv] cur' e(1)]])
        (auto simp: live_def others_kept_def va)
  qed
qed

section \<open>Calls that only touch environments\<close>

text \<open>
  What every system call guarantees: it neither panics nor deadlocks, the kernel invariant holds when
  it returns to the caller (which is still alive) and when it leaves for another environment or idles.
\<close>

definition sys_safe :: "nat set \<Rightarrow> nat \<Rightarrow> ('a, kstate) kres \<Rightarrow> bool" where
  "sys_safe M c m \<longleftrightarrow> returns (\<lambda>_ s'. kinv M {} s' \<and> live c s') (\<lambda>s'. kinv M {} s') m"

lemma sys_safe_simps [simp]:
  "sys_safe M c (Ok r s) \<longleftrightarrow> kinv M {} s \<and> live c s" "sys_safe M c (Idle s) \<longleftrightarrow> kinv M {} s"
  "sys_safe M c (Iret s) \<longleftrightarrow> kinv M {} s" "\<not> sys_safe M c (Panic m)" "\<not> sys_safe M c Hang"
  by (simp_all add: sys_safe_def)

lemma sys_safe_bind:
  assumes "sys_safe M c m" and "\<And>r s. kinv M {} s \<Longrightarrow> live c s \<Longrightarrow> sys_safe M c (f r s)"
  shows "sys_safe M c (kbind m f)"
  using assms by (cases m) simp_all

lemma sys_safe_returns:
  assumes "returns P R m" and "\<And>r s. P r s \<Longrightarrow> sys_safe M c (f r s)" and "\<And>s. R s \<Longrightarrow> kinv M {} s"
  shows "sys_safe M c (kbind m f)"
  using assms by (cases m) simp_all

lemma sys_safe_yield: "kinv M {} s \<Longrightarrow> sys_safe M c (sched_yield s)"
  unfolding sys_safe_def by (rule returns_mono [OF sched_yield_safe]) simp_all

lemma harmless_simps [simp]:
  "harmless (\<lambda>x. x\<lparr>env_tf := h x\<rparr>)" "harmless (\<lambda>x. x\<lparr>env_pgfault_upcall := u\<rparr>)"
  "status = ENV_RUNNABLE \<or> status = ENV_NOT_RUNNABLE \<Longrightarrow> harmless (\<lambda>x. x\<lparr>env_status := status\<rparr>)"
  "harmless f \<Longrightarrow> harmless g \<Longrightarrow> harmless (\<lambda>x. f (g x))"
  by (auto simp: harmless_def env_ok_def const_defs)

lemma sys_env_destroy_safe:
  assumes inv: "kinv M {} s" and cur: "live c s"
  shows "sys_safe M c (sys_env_destroy envid s)"
  using inv cur
proof (cases rule: envid2env_spec [where envid = envid and checkperm = True])
  case bad
  then show ?thesis
    using inv cur by (simp add: sys_env_destroy_def)
next
  case (found e)
  have "sys_safe M c (env_destroy e s)"
    unfolding sys_safe_def by (rule returns_mono [OF env_destroy_safe [OF inv cur found(2)]]) simp_all
  then have "sys_safe M c (kbind (env_destroy e s) (\<lambda>_ s. Ok (0 :: int) s))"
    by (rule sys_safe_bind) simp
  then show ?thesis
    using found(1) by (simp add: sys_env_destroy_def the_env_def)
qed

lemma sys_env_set_status_eq:
  assumes inv: "kinv M {} s" and cur: "live c s"
  obtains (bad) "sys_env_set_status envid status s = Ok (- E_BAD_ENV) s"
  | (inval) "sys_env_set_status envid status s = Ok (- E_INVAL) s"
  | (set) e where "e < NENV" "env_status (envs s e) \<noteq> ENV_FREE" "status = ENV_RUNNABLE \<or> status = ENV_NOT_RUNNABLE"
      "sys_env_set_status envid status s = Ok 0 (upd_env e (\<lambda>x. x\<lparr>env_status := status\<rparr>) s)"
  using inv cur
proof (cases rule: envid2env_spec [where envid = envid and checkperm = True])
  case bad
  then show ?thesis
    using that(1) by (simp add: sys_env_set_status_def)
next
  case (found e)
  have free: "\<not> env_lock (envs s e)"
    using kinv_unlocked [OF inv found(2)] .
  show ?thesis
  proof (cases "status = ENV_RUNNABLE \<or> status = ENV_NOT_RUNNABLE")
    case True
    have "sys_env_set_status envid status s = Ok 0 (upd_env e (\<lambda>x. x\<lparr>env_status := status\<rparr>) s)"
      using True free found(1)
      by (auto simp: sys_env_set_status_def the_env_def env_locking intro!: upd_env_cong)
    then show ?thesis
      using that(3) found True by blast
  next
    case False
    then show ?thesis
      using that(2) found(1) by (simp add: sys_env_set_status_def)
  qed
qed

lemma sys_env_set_status_safe:
  assumes "kinv M {} s" and "live c s"
  shows "sys_safe M c (sys_env_set_status envid status s)"
  using assms
proof (cases rule: sys_env_set_status_eq [where envid = envid and status = status])
  case (set e)
  then show ?thesis
    using harmless_upd_env [OF assms set(1,2)] by simp
qed (use assms in simp_all)

lemma sys_env_set_pgfault_upcall_safe:
  assumes inv: "kinv M {} s" and cur: "live c s"
  shows "sys_safe M c (sys_env_set_pgfault_upcall envid func s)"
  using inv cur
proof (cases rule: envid2env_spec [where envid = envid and checkperm = True])
  case bad
  then show ?thesis
    using inv cur by (simp add: sys_env_set_pgfault_upcall_def)
next
  case (found e)
  have "sys_env_set_pgfault_upcall envid func s = Ok 0 (upd_env e (\<lambda>x. x\<lparr>env_pgfault_upcall := func\<rparr>) s)"
    using kinv_unlocked [OF inv found(2)] found(1)
    by (auto simp: sys_env_set_pgfault_upcall_def the_env_def env_locking intro!: upd_env_cong)
  then show ?thesis
    using harmless_upd_env [OF inv cur found(2,3)] by simp
qed

lemma sys_yield_eq:
  assumes inv: "kinv M {} s" and cur: "current c s"
  defines "s1 \<equiv> upd_env c (\<lambda>x. x\<lparr>env_status := ENV_RUNNABLE\<rparr>) s"
  shows "(sys_yield s :: ('a, kstate) kres) = sched_yield s1" and "kinv M {} s1"
proof -
  have c: "c < NENV" "curenv s = Some c" "env_status (envs s c) = ENV_RUNNING"
    using cur by (simp_all add: current_def)
  show "kinv M {} s1"
    unfolding s1_def using harmless_upd_env(1) [OF inv current_live [OF cur] c(1)] c(3) by (simp add: const_defs)
  show "(sys_yield s :: ('a, kstate) kres) = sched_yield s1"
    unfolding s1_def using kinv_unlocked [OF inv c(1)] c
    by (auto simp: sys_yield_def the_curenv_def env_locking intro!: arg_cong [of _ _ sched_yield] upd_env_cong)
qed

lemma sys_yield_safe:
  assumes "kinv M {} s" and "current c s"
  shows "sys_safe M c (sys_yield s :: ('a, kstate) kres)"
  unfolding sys_yield_eq(1) [OF assms] by (rule sys_safe_yield [OF sys_yield_eq(2) [OF assms]])

lemma env_ok_ipc:
  "env_ok i x \<Longrightarrow> env_ok i (x\<lparr>env_ipc_recving := b\<rparr>)" "env_ok i x \<Longrightarrow> env_ok i (x\<lparr>env_ipc_value := v\<rparr>)"
  "env_ok i x \<Longrightarrow> env_ok i (x\<lparr>env_ipc_from := f\<rparr>)" "env_ok i x \<Longrightarrow> env_ok i (x\<lparr>env_ipc_perm := p\<rparr>)"
  "env_ok i x \<Longrightarrow> env_ok i (x\<lparr>env_tf := tf\<rparr>)" "env_ok i x \<Longrightarrow> va < UTOP \<Longrightarrow> env_ok i (x\<lparr>env_ipc_dstva := va\<rparr>)"
  "env_ok i x \<Longrightarrow> env_status x \<noteq> ENV_FREE \<Longrightarrow> st \<noteq> ENV_FREE \<Longrightarrow> st \<le> ENV_RUNNING \<Longrightarrow> env_ok i (x\<lparr>env_status := st\<rparr>)"
  by (simp_all add: env_ok_def)

definition set_eax :: "u32 \<Rightarrow> env \<Rightarrow> env" where
  "set_eax v x = x\<lparr>env_tf := (env_tf x)\<lparr>tf_regs := (tf_regs (env_tf x))\<lparr>reg_eax := v\<rparr>\<rparr>\<rparr>"

text \<open>The state in which \<^verbatim>\<open>sys_ipc_recv\<close> gives up the processor.\<close>

definition receiving :: "u32 \<Rightarrow> env \<Rightarrow> env" where
  "receiving dstva x =
     (set_eax 0 x)\<lparr>env_ipc_dstva := (if dstva = 0 then env_ipc_dstva x else dstva), env_ipc_recving := True,
        env_status := ENV_NOT_RUNNABLE\<rparr>"

lemma sys_ipc_recv_eq:
  assumes inv: "kinv M {} s" and cur: "current c s"
  shows "sys_ipc_recv dstva s =
    (if dstva \<noteq> 0 \<and> (dstva \<ge> UTOP \<or> dstva mod PGSIZE \<noteq> 0) then Ok (- E_INVAL) s
     else sched_yield (upd_env c (receiving dstva) s))"
proof -
  have c: "c < NENV" "curenv s = Some c" "env_status (envs s c) = ENV_RUNNING"
    using cur by (simp_all add: current_def)
  note free = kinv_unlocked [OF inv c(1)]
  let ?tf = "(env_tf (envs s c))\<lparr>tf_regs := (tf_regs (env_tf (envs s c)))\<lparr>reg_eax := 0\<rparr>\<rparr>"
  have "upd_env c (\<lambda>x. x\<lparr>env_lock := True, env_lock := False\<rparr>) s = s"
    using free by (intro upd_env_id) simp
  moreover have "upd_env c (receiving dstva) s =
      upd_env c (\<lambda>x. let x = x\<lparr>env_lock := True, env_ipc_dstva := dstva, env_ipc_recving := True, env_status := ENV_NOT_RUNNABLE\<rparr>
         in x\<lparr>env_tf := (env_tf x)\<lparr>tf_regs := (tf_regs (env_tf x))\<lparr>reg_eax := 0\<rparr>\<rparr>, env_lock := False\<rparr>) s" if "dstva \<noteq> 0"
    using free that by (intro upd_env_cong) (simp add: receiving_def set_eax_def)
  moreover have "upd_env c (receiving 0) s =
      upd_env c (\<lambda>x. let x = x\<lparr>env_lock := True, env_ipc_recving := True, env_status := ENV_NOT_RUNNABLE\<rparr>
         in x\<lparr>env_tf := (env_tf x)\<lparr>tf_regs := (tf_regs (env_tf x))\<lparr>reg_eax := 0\<rparr>\<rparr>, env_lock := False\<rparr>) s"
    using free by (intro upd_env_cong) (simp add: receiving_def set_eax_def)
  ultimately show ?thesis
    using free c by (cases "dstva = 0") (simp_all add: sys_ipc_recv_def the_curenv_def env_locking Let_def)
qed

lemma kinv_receiving:
  assumes inv: "kinv M {} s" and cur: "current c s" and va: "dstva < UTOP"
  shows "kinv M {} (upd_env c (receiving dstva) s)"
proof (rule kinv_upd_env [OF inv])
  show "c < NENV"
    using cur by (simp add: current_def)
  then have "env_ok c (envs s c)"
    using einvD(1) [OF kinvD(2) [OF inv]] by simp
  then show "env_ok c (receiving dstva (envs s c))"
    using cur va by (auto simp: receiving_def set_eax_def env_ok_def current_def const_defs)
qed (simp add: receiving_def set_eax_def)

lemma sys_ipc_recv_safe:
  assumes inv: "kinv M {} s" and cur: "current c s"
  shows "sys_safe M c (sys_ipc_recv dstva s)"
proof -
  have "0 < UTOP"
    by (simp add: const_defs)
  then show ?thesis
    using inv current_live [OF cur] sys_safe_yield [OF kinv_receiving [OF inv cur, of dstva]]
    by (auto simp: sys_ipc_recv_eq [OF inv cur] not_le)
qed

text \<open>The child of \<^verbatim>\<open>sys_exofork\<close>: a copy of the caller's registers that returns 0, not runnable yet.\<close>

lemma sys_exofork_eq:
  assumes inv: "kinv M {} s" and cur: "current c s"
  obtains (fail) "sys_exofork s = Ok (- E_NO_FREE_ENV) s" "LIST_FIRST (env_free_list s) = None \<or> LIST_FIRST (page_free_list s) = None"
  | (made) e p r q m eq s' where "s' = upd_env e (\<lambda>x. set_eax 0 (x\<lparr>env_status := ENV_NOT_RUNNABLE, env_tf := env_tf (envs s c)\<rparr>))
        (add_env (env_id (envs s c)) e p r q m eq s)"
      "sys_exofork s = Ok (sint (env_id (envs s' e))) s'" "kinv M {} s'" "live c s'" "e < NENV" "e \<noteq> c"
      "env_status (envs s e) = ENV_FREE"
      "target s' = (target s)(Dir e := Some p)" "\<And>x. x \<noteq> p \<Longrightarrow> m x = mem s x" "refs (target s) p = {}"
proof -
  have c: "c < NENV" "curenv s = Some c" "env_status (envs s c) = ENV_RUNNING"
    using cur by (simp_all add: current_def)
  show ?thesis
    using inv
  proof (cases rule: env_alloc_spec [where parent = "env_id (envs s c)"])
    case no_env
    then show ?thesis
      using c that(1) by (simp add: sys_exofork_def the_curenv_def)
  next
    case no_mem
    then show ?thesis
      using c that(1) by (simp add: sys_exofork_def the_curenv_def)
  next
    case (made e p r q m eq)
    let ?s1 = "add_env (env_id (envs s c)) e p r q m eq s"
    let ?f = "\<lambda>x. set_eax 0 (x\<lparr>env_status := ENV_NOT_RUNNABLE, env_tf := env_tf (envs s c)\<rparr>)"
    have e: "e \<noteq> c" "env_status (envs ?s1 e) = ENV_RUNNABLE" "envs ?s1 c = envs s c" "curenv ?s1 = Some c"
      using made(3) c by (auto simp: add_env_def const_defs)
    note free = kinv_unlocked [OF made(4,2)]
    have "live c ?s1"
      using e c by (simp add: live_def const_defs)
    moreover have "harmless ?f"
      by (auto simp: harmless_def set_eax_def env_ok_def const_defs)
    ultimately have inv': "kinv M {} (upd_env e ?f ?s1)" "live c (upd_env e ?f ?s1)"
      using harmless_upd_env [OF made(4) _ made(2)] e(2) by (simp_all add: const_defs)
    have run: "sys_exofork s = Ok (sint (env_id (envs (upd_env e ?f ?s1) e))) (upd_env e ?f ?s1)"
      using made(1) e free c
      by (simp add: sys_exofork_def the_curenv_def env_locking set_eax_def) (rule upd_env_cong, simp)
    have "target (upd_env e ?f ?s1) = target ?s1"
      by (rule target_cong) (simp_all add: set_eax_def)
    then show ?thesis
      using that(2) [OF refl run inv' made(2) e(1) made(3) _ made(6,7)] made(5) by simp
  qed
qed

lemma sys_exofork_safe:
  assumes inv: "kinv M {} s" and cur: "current c s"
  shows "sys_safe M c (sys_exofork s)"
  using inv cur by (cases rule: sys_exofork_eq) (simp_all add: inv current_live [OF cur])

section \<open>Calls on address spaces\<close>

lemma PPN_user_perm:
  assumes "perm AND NOT PTE_USER = 0"
  shows "PPN perm = 0"
proof -
  have "\<not> bit perm n" if "12 \<le> n" for n
  proof
    assume "bit perm n"
    moreover have "\<not> bit PTE_USER n"
      using that bit_small [of PTE_USER 12 n] by (auto simp: const_defs)
    ultimately have "bit (perm AND NOT PTE_USER) n"
      using bit_imp_le_length [of perm n] by (simp add: bit_simps)
    then show False
      using assms by simp
  qed
  then show ?thesis
    by (auto simp: PPN_def bit_eq_iff bit_simps PTXSHIFT_def)
qed

lemma live_pframe: "pframe s s' \<Longrightarrow> live c s' = live c s"
  by (simp add: live_def pframe_simps)

lemma va_entry_mem_unref:
  assumes "\<And>q. refs (target s) q \<noteq> {} \<Longrightarrow> mem s' q = mem s q" and "dir_of s' = dir_of s"
  shows "va_entry s' i va = va_entry s i va"
proof -
  have T: "target s' = target s"
    using assms by (rule target_mem_other)
  have "mem s' q = mem s q" if "pde_of s i (unat (PDX va)) = Some q" for q
  proof (rule assms(1))
    have "Pd i (unat (PDX va)) \<in> refs (target s) q"
      using that by (simp add: refs_def)
    then show "refs (target s) q \<noteq> {}"
      by blast
  qed
  then show ?thesis
    using fun_cong [OF T, of "Pd i (unat (PDX va))"] by (intro va_entry_cong) simp_all
qed

lemma va_entry_free_list [simp]: "va_entry (s\<lparr>page_free_list := q\<rparr>) = va_entry s"
  by (rule va_entry_same) simp_all

text \<open>Taking a page and clearing it.\<close>

lemma alloc_zeroed:
  assumes inv: "kinv M {} s"
  obtains (none) "page_alloc s = Ok (Inl (- E_NO_MEM)) s"
  | (some) p s0 where "page_alloc s = Ok (Inr p) s0" "page2kva p s0 = Ok p s0" "minv M {p} {} (memset_page p s0)"
      "pframe s (memset_page p s0)" "refs (target s) p = {}" "pp_ref s p = 0" "pp_ref s0 = pp_ref s"
      "\<And>j va. va_entry (memset_page p s0) j va = va_entry s j va"
      "\<And>j va w. va_entry s j va = Some w \<Longrightarrow> mem (memset_page p s0) (unat (PPN w)) = mem s (unat (PPN w))"
  using kinvD(1,3) [OF inv]
proof (cases rule: page_alloc_spec)
  case (some p q)
  let ?s0 = "s\<lparr>page_free_list := q\<rparr>"
  have "minv M {p} {} (memset_page p ?s0)"
    using minv_memset(1) [OF some(2)] by simp
  moreover have "va_entry (memset_page p ?s0) j va = va_entry s j va" for j va
    by (rule va_entry_mem_unref) (use some(6) in \<open>auto simp: dir_of_def\<close>)
  moreover have "mem (memset_page p ?s0) (unat (PPN w)) = mem s (unat (PPN w))" if "va_entry s j va = Some w" for j va w
    using va_entry_refs(1) [OF kinvD(1) [OF inv] that] some(6) by auto
  ultimately show ?thesis
    using that(2) [of p ?s0] some page2kva_eq [OF some(2,3)] pframe_trans [OF pframe_free_list pframe_memset] by simp
qed (use none in blast)

text \<open>
  Allocating a page at \<open>va\<close> for a live environment: without memory everything is as before, up to the
  contents of free pages.
\<close>

lemma page_alloc_insert:
  assumes inv: "kinv M {} s" and cur: "live c s" and e: "e < NENV" "env_status (envs s e) \<noteq> ENV_FREE"
    and va: "va < UTOP" "PPN perm = 0"
  defines "m \<equiv> kbind (page_alloc s) (\<lambda>r s. case r of Inl r \<Rightarrow> Ok r s
         | Inr p \<Rightarrow>
             kbind (page2kva p s) (\<lambda>kva s.
             let s = memset_page kva s in
             kbind (the_env (Some e) s) (\<lambda>e s.
             kbind (page_insert (env_pgdir (envs s e)) p va perm s) (\<lambda>r s.
             if r < 0 then
               kbind (kassert (pp_ref s p = 0) ''assertion failed: pp_ref == 0'' s) (\<lambda>_ s.
               kbind (page_free p s) (\<lambda>_ s. Ok r s))
             else Ok 0 s))))"
  obtains (no_mem) s' where "m = Ok (- E_NO_MEM) s'" "kinv M {} s'" "pframe s s'"
      "\<And>j va'. va_entry s' j va' = va_entry s j va'"
  | (mapped) p s' where "m = Ok 0 s'" "kinv M {} s'" "pframe s s'" "refs (target s) p = {}"
      "\<And>j va'. va_entry s' j va' = (if j = e \<and> VPN va' = VPN va then Some (page2pa p OR perm OR PTE_P) else va_entry s j va')"
      "\<And>i. mem s' p i = 0"
      "\<And>j va' w. va_entry s j va' = Some w \<Longrightarrow> mem s' (unat (PPN w)) = mem s (unat (PPN w))"
  using inv
proof (cases rule: alloc_zeroed)
  case none
  then show ?thesis
    using no_mem [of s] inv by (simp add: m_def)
next
  case (some p s0)
  let ?s1 = "memset_page p s0"
  obtain pd where pd: "env_pgdir (envs s e) = Some pd"
    by (rule kinv_dir [OF inv e])
  have ready: "tlb_ready ?s1" "env_pgdir (envs ?s1 e) = Some pd" "\<not> page_table_lock ?s1"
    using live_ready [OF inv cur] pframe_simps [OF some(4)] pd kinvD(3) [OF inv] by simp_all
  have p: "p \<in> {p} \<or> (\<exists>j va' w. va_entry ?s1 j va' = Some w \<and> unat (PPN w) = p)"
    by simp
  show ?thesis
    using some(3) ready(1) e(1) ready(2) va p
  proof (cases rule: insert_va)
    case fail
    let ?s2 = "?s1\<lparr>page_free_list := LIST_INSERT_HEAD p (page_free_list ?s1)\<rparr>"
    have free: "page_free p ?s1 = Ok () ?s2" "minv M {} {} ?s2"
      using page_free_spec [OF some(3) ready(3)] by simp_all
    have fr: "pframe s ?s2"
      using pframe_trans [OF some(4) pframe_free_list] .
    have "m = Ok (- E_NO_MEM) ?s2"
      using some(1,2,6,7) fail(1) free(1) ready(2) by (simp add: m_def the_env_def const_defs)
    then show ?thesis
      using no_mem [OF _ kinv_pframe [OF inv fr free(2)] fr] some(8) by simp
  next
    case (mapped s')
    note fr = pframe_trans [OF some(4) mapped(3)]
    have "m = Ok 0 s'"
      using some(1,2) mapped(1) ready(2) by (simp add: m_def the_env_def)
    moreover have "kinv M {} s'"
      using kinv_pframe [OF inv fr] mapped(2) by simp
    ultimately show ?thesis
      using that(2) [OF _ _ fr some(5)] mapped(4-6) some(8,9) by simp
  qed
qed

lemma sys_page_alloc_spec:
  assumes inv: "kinv M {} s" and cur: "live c s"
  obtains (bad) "sys_page_alloc envid va perm s = Ok (- E_BAD_ENV) s"
  | (inval) "sys_page_alloc envid va perm s = Ok (- E_INVAL) s"
      "perm AND PTE_U = 0 \<or> perm AND PTE_P = 0 \<or> perm AND NOT PTE_USER \<noteq> 0 \<or> va \<ge> UTOP \<or> va mod PGSIZE \<noteq> 0"
  | (no_mem) s' where "sys_page_alloc envid va perm s = Ok (- E_NO_MEM) s'" "kinv M {} s'" "pframe s s'"
      "\<And>j va'. va_entry s' j va' = va_entry s j va'"
  | (mapped) e p s' where "sys_page_alloc envid va perm s = Ok 0 s'" "kinv M {} s'" "pframe s s'"
      "envid2env envid True s = Ok (Inr (Some e)) s" "refs (target s) p = {}" "va < UTOP" "va mod PGSIZE = 0"
      "\<And>j va'. va_entry s' j va' = (if j = e \<and> VPN va' = VPN va then Some (page2pa p OR perm OR PTE_P) else va_entry s j va')"
      "\<And>i. mem s' p i = 0"
      "\<And>j va' w. va_entry s j va' = Some w \<Longrightarrow> mem s' (unat (PPN w)) = mem s (unat (PPN w))"
  using inv cur
proof (cases rule: envid2env_spec [where envid = envid and checkperm = True])
  case bad
  then show ?thesis
    using that(1) by (simp add: sys_page_alloc_def)
next
  case (found e)
  show ?thesis
  proof (cases "perm AND PTE_U = 0 \<or> perm AND PTE_P = 0 \<or> perm AND NOT PTE_USER \<noteq> 0 \<or> va \<ge> UTOP \<or> va mod PGSIZE \<noteq> 0")
    case True
    then show ?thesis
      using that(2) found(1) by (auto simp: sys_page_alloc_def)
  next
    case False
    then have va: "va < UTOP" "PPN perm = 0"
      using PPN_user_perm by auto
    show ?thesis
      using inv cur found(2,3) va
    proof (cases rule: page_alloc_insert)
      case (no_mem s')
      then show ?thesis
        using that(3) [of s'] False found(1) unfolding sys_page_alloc_def by simp
    next
      case (mapped p s')
      then show ?thesis
        using that(4) [of s' e p] False found(1) va unfolding sys_page_alloc_def by simp
    qed
  qed
qed

lemma sys_page_alloc_safe:
  assumes "kinv M {} s" and "live c s"
  shows "sys_safe M c (sys_page_alloc envid va perm s)"
  using assms by (cases rule: sys_page_alloc_spec [where envid = envid and va = va and perm = perm])
    (use assms live_pframe in auto)

text \<open>Looking up the page at a user address.\<close>

lemma lookup_va:
  assumes inv: "minv M A H s" and dir: "i < NENV" "env_pgdir (envs s i) = Some pd" and va: "va < UTOP"
  obtains (unmapped) "page_lookup (Some pd) va s = Ok None s" "va_entry s i va = None"
  | (found) pt j w where "page_lookup (Some pd) va s = Ok (Some (unat (PPN w), (pt, j))) s" "va_entry s i va = Some w" "mem s pt j = w"
proof -
  have pd: "dir_of s i = Some pd"
    using dir by (simp add: dir_of_def)
  note find = page_lookup_find [OF inv pd PDX_below_UTOP [OF va]]
  show ?thesis
  proof (cases "va_entry s i va")
    case None
    then have "pte_of s i (unat (PDX va)) (unat (PTX va)) = None"
      by (simp add: va_entry_None_iff)
    then show ?thesis
      using find None by (intro unmapped) (simp_all split: option.split)
  next
    case (Some w)
    then obtain pt where pt: "pde_of s i (unat (PDX va)) = Some pt" "mem s pt (unat (PTX va)) = w"
      by (auto simp: va_entry_def Let_def split: option.splits if_splits)
    moreover have "pte_of s i (unat (PDX va)) (unat (PTX va)) = Some (unat (PPN w))"
      using va_entry_pte [of s i va] Some by simp
    ultimately show ?thesis
      using find Some found [of w pt "unat (PTX va)"] by simp
  qed
qed

lemma sys_page_unmap_spec:
  assumes inv: "kinv M {} s" and cur: "live c s"
  obtains (bad) "sys_page_unmap envid va s = Ok (- E_BAD_ENV) s"
  | (inval) "sys_page_unmap envid va s = Ok (- E_INVAL) s" "va \<ge> UTOP \<or> va mod PGSIZE \<noteq> 0"
  | (unmapped) e s' where "sys_page_unmap envid va s = Ok 0 s'" "kinv M {} s'" "pframe s s'"
      "envid2env envid True s = Ok (Inr (Some e)) s"
      "\<And>j va'. va_entry s' j va' = (if j = e \<and> VPN va' = VPN va then None else va_entry s j va')"
  using inv cur
proof (cases rule: envid2env_spec [where envid = envid and checkperm = True])
  case bad
  then show ?thesis
    using that(1) by (simp add: sys_page_unmap_def)
next
  case (found e)
  obtain pd where pd: "env_pgdir (envs s e) = Some pd"
    by (rule kinv_dir [OF inv found(2,3)])
  show ?thesis
  proof (cases "va \<ge> UTOP \<or> va mod PGSIZE \<noteq> 0")
    case True
    then show ?thesis
      using that(2) found(1) by (simp add: sys_page_unmap_def)
  next
    case False
    then have va: "va < UTOP"
      by (simp add: not_le)
    obtain s' where s': "page_remove (Some pd) va s = Ok () s'" "minv M {} {} s'" "pframe s s'"
      "\<And>j va'. va_entry s' j va' = (if j = e \<and> VPN va' = VPN va then None else va_entry s j va')"
      by (rule remove_va [OF kinvD(1) [OF inv] live_ready [OF inv cur] found(2) pd va], rule that)
    have "sys_page_unmap envid va s = Ok 0 s'"
      using False found(1) pd s'(1) by (simp add: sys_page_unmap_def the_env_def)
    then show ?thesis
      by (rule that(3) [OF _ kinv_pframe [OF inv s'(3,2)] s'(3) found(1) s'(4)])
  qed
qed

lemma sys_page_unmap_safe:
  assumes "kinv M {} s" and "live c s"
  shows "sys_safe M c (sys_page_unmap envid va s)"
  using assms by (cases rule: sys_page_unmap_spec [where envid = envid and va = va])
    (use assms live_pframe in auto)

lemma envid2env_pair:
  assumes inv: "kinv M A s" and cur: "live c s"
  obtains (bad_src) "envid2env srcid True s = Ok (Inl (- E_BAD_ENV)) s"
  | (bad_dst) es where "envid2env srcid True s = Ok (Inr (Some es)) s" "envid2env dstid True s = Ok (Inl (- E_BAD_ENV)) s"
  | (found) es ed where "envid2env srcid True s = Ok (Inr (Some es)) s" "es < NENV" "env_status (envs s es) \<noteq> ENV_FREE"
        "envid2env dstid True s = Ok (Inr (Some ed)) s" "ed < NENV" "env_status (envs s ed) \<noteq> ENV_FREE"
  using inv cur
proof (cases rule: envid2env_spec [where envid = srcid and checkperm = True])
  case bad
  then show ?thesis
    by (rule bad_src)
next
  case src: (found es)
  show ?thesis
    using inv cur
  proof (cases rule: envid2env_spec [where envid = dstid and checkperm = True])
    case bad
    then show ?thesis
      using src(1) by (intro bad_dst)
  next
    case (found ed)
    show ?thesis
      by (rule that(3) [OF src(1-3) found(1-3)])
  qed
qed

text \<open>What is left of \<^verbatim>\<open>sys_page_map\<close> after its checks.\<close>

lemma sys_page_map_checks:
  assumes inv: "kinv M {} s" and cur: "live c s"
  obtains (bad) "sys_page_map srcid srcva dstid dstva perm s = Ok (- E_BAD_ENV) s"
  | (inval) "sys_page_map srcid srcva dstid dstva perm s = Ok (- E_INVAL) s"
  | (go) es ed w pd where "sys_page_map srcid srcva dstid dstva perm s =
        kbind (page_insert (Some pd) (unat (PPN w)) dstva perm s) (\<lambda>r s. if r < 0 then Ok r s else Ok 0 s)"
      "envid2env srcid True s = Ok (Inr (Some es)) s" "envid2env dstid True s = Ok (Inr (Some ed)) s"
      "ed < NENV" "env_pgdir (envs s ed) = Some pd" "dstva < UTOP"
      "va_entry s es srcva = Some w" "perm AND PTE_W \<noteq> 0 \<longrightarrow> w AND PTE_W \<noteq> 0" "perm AND NOT PTE_USER = 0"
proof -
  note run = sys_page_map_def [of srcid srcva dstid dstva perm s]
  show ?thesis
    using inv cur
  proof (cases rule: envid2env_pair [where srcid = srcid and dstid = dstid])
    case bad_src
    then show ?thesis
      by (intro that(1)) (simp add: run)
  next
    case (bad_dst es)
    then show ?thesis
      by (intro that(1)) (simp add: run)
  next
    case (found es ed)
    let ?a = "srcva \<ge> UTOP \<or> srcva mod PGSIZE \<noteq> 0 \<or> dstva \<ge> UTOP \<or> dstva mod PGSIZE \<noteq> 0"
    let ?b = "perm AND (PTE_U + PTE_P) = 0 \<or> perm AND NOT PTE_USER \<noteq> 0"
    obtain ps where ps: "env_pgdir (envs s es) = Some ps"
      by (rule kinv_dir [OF inv found(2,3)])
    obtain pd where pd: "env_pgdir (envs s ed) = Some pd"
      by (rule kinv_dir [OF inv found(5,6)])
    consider (a) ?a | (b) "\<not> ?a" ?b | (ok) "\<not> ?a" "\<not> ?b"
      by metis
    then show ?thesis
    proof cases
      case ok
      then have "srcva < UTOP" and dst: "dstva < UTOP"
        by (simp_all add: not_le)
      with kinvD(1) [OF inv] found(2) ps show ?thesis
      proof (cases rule: lookup_va)
        case unmapped
        then show ?thesis
          using ok found(1,4) ps by (intro that(2)) (simp add: run the_env_def)
      next
        case L: (found pt j w)
        show ?thesis
        proof (cases "perm AND PTE_W \<noteq> 0 \<and> w AND PTE_W = 0")
          case True
          then show ?thesis
            using ok found(1,4) ps L by (intro that(2)) (simp add: run the_env_def)
        next
          case False
          have eq: "sys_page_map srcid srcva dstid dstva perm s =
              kbind (page_insert (Some pd) (unat (PPN w)) dstva perm s) (\<lambda>r s. if r < 0 then Ok r s else Ok 0 s)"
            using False ok found(1,4) ps pd L by (cases "perm AND PTE_W = 0") (simp_all add: run the_env_def)
          have "perm AND PTE_W \<noteq> 0 \<longrightarrow> w AND PTE_W \<noteq> 0" "perm AND NOT PTE_USER = 0"
            using False ok(2) by (blast, simp)
          then show ?thesis
            by (rule that(3) [OF eq found(1,4,5) pd dst L(2)])
        qed
      qed
    next
      case a
      then show ?thesis
        using found by (intro that(2)) (simp add: run)
    next
      case b
      then show ?thesis
        using found by (intro that(2)) (simp add: run)
    qed
  qed
qed

lemma sys_page_map_spec:
  assumes inv: "kinv M {} s" and cur: "live c s"
  obtains (bad) "sys_page_map srcid srcva dstid dstva perm s = Ok (- E_BAD_ENV) s"
  | (inval) "sys_page_map srcid srcva dstid dstva perm s = Ok (- E_INVAL) s"
  | (no_mem) "sys_page_map srcid srcva dstid dstva perm s = Ok (- E_NO_MEM) s" "LIST_EMPTY (page_free_list s)"
  | (mapped) es ed w s' where "sys_page_map srcid srcva dstid dstva perm s = Ok 0 s'" "kinv M {} s'" "pframe s s'"
      "envid2env srcid True s = Ok (Inr (Some es)) s" "envid2env dstid True s = Ok (Inr (Some ed)) s"
      "va_entry s es srcva = Some w" "perm AND PTE_W \<noteq> 0 \<longrightarrow> w AND PTE_W \<noteq> 0" "perm AND NOT PTE_USER = 0"
      "\<And>j va'. va_entry s' j va' =
         (if j = ed \<and> VPN va' = VPN dstva then Some (page2pa (unat (PPN w)) OR perm OR PTE_P) else va_entry s j va')"
      "\<And>j va' w. va_entry s j va' = Some w \<Longrightarrow> mem s' (unat (PPN w)) = mem s (unat (PPN w))"
      "\<And>j d. pde_of s j d \<noteq> None \<Longrightarrow> pde_of s' j d \<noteq> None"
  using inv cur
proof (cases rule: sys_page_map_checks [where srcid = srcid and srcva = srcva and dstid = dstid and dstva = dstva and perm = perm])
  case (go es ed w pd)
  have p: "unat (PPN w) \<in> {} \<or> (\<exists>j va' w'. va_entry s j va' = Some w' \<and> unat (PPN w') = unat (PPN w))"
    using go(7) by blast
  show ?thesis
    using kinvD(1) [OF inv] live_ready [OF inv cur] go(4-6) PPN_user_perm [OF go(9)] p
  proof (cases rule: insert_va)
    case fail
    then show ?thesis
      using go(1) by (intro that(3)) (simp_all add: const_defs)
  next
    case (mapped s')
    have kinv: "kinv M {} s'"
      using kinv_pframe [OF inv mapped(3)] mapped(2) by simp
    have run: "sys_page_map srcid srcva dstid dstva perm s = Ok 0 s'"
      using go(1) mapped(1) by simp
    show ?thesis
      by (rule that(4) [OF run kinv mapped(3) go(2,3,7-9) mapped(4,6,7)])
  qed
qed (use that(1,2) in simp_all)

lemma sys_page_map_safe:
  assumes "kinv M {} s" and "live c s"
  shows "sys_safe M c (sys_page_map srcid srcva dstid dstva perm s)"
  using assms by (cases rule: sys_page_map_spec [where srcid = srcid and srcva = srcva and dstid = dstid and dstva = dstva and perm = perm])
    (use assms live_pframe in auto)

section \<open>Sending\<close>

text \<open>What \<^verbatim>\<open>sys_ipc_try_send\<close> stores in the receiver before it checks its arguments, and when it wakes it.\<close>

definition delivered :: "u32 \<Rightarrow> u32 \<Rightarrow> env \<Rightarrow> env" where
  "delivered from value x =
     x\<lparr>env_ipc_recving := False, env_ipc_from := from, env_ipc_value := value, env_ipc_perm := 0\<rparr>"

definition woken :: "u32 \<Rightarrow> env \<Rightarrow> env" where
  "woken perm x = x\<lparr>env_ipc_perm := perm, env_status := ENV_RUNNABLE\<rparr>"

lemma delivered_simps [simp]:
  "env_pgdir (delivered f v x) = env_pgdir x" "env_ipc_dstva (delivered f v x) = env_ipc_dstva x"
  "env_lock (delivered f v x) = env_lock x" "env_ipc_perm (delivered f v x) = 0"
  "env_pgdir (woken p x) = env_pgdir x" "env_lock (woken p x) = env_lock x"
  "delivered f v (x\<lparr>env_lock := b\<rparr>) = (delivered f v x)\<lparr>env_lock := b\<rparr>"
  "woken p (x\<lparr>env_lock := b\<rparr>) = (woken p x)\<lparr>env_lock := b\<rparr>"
  by (simp_all add: delivered_def woken_def)

lemma harmless_ipc [simp]:
  "harmless (delivered f v)" "harmless (\<lambda>x. woken p (delivered f v x))"
  by (auto simp: harmless_def delivered_def woken_def env_ok_def const_defs)

lemma minv_upd_env:
  "env_pgdir (f (envs s i)) = env_pgdir (envs s i) \<Longrightarrow> minv M A H (upd_env i f s) = minv M A H s"
  by (rule minv_cong) simp_all

lemma va_entry_upd_env:
  "env_pgdir (f (envs s i)) = env_pgdir (envs s i) \<Longrightarrow> va_entry (upd_env i f s) = va_entry s"
  by (rule va_entry_same) simp_all

lemma tlb_ready_upd_env [simp]: "tlb_ready (upd_env i f s) = tlb_ready s"
  by (simp add: tlb_ready_def)

text \<open>The two checks of the source address and the permissions.\<close>

definition ipc_args_bad :: "u32 \<Rightarrow> u32 \<Rightarrow> bool" where
  "ipc_args_bad srcva perm \<longleftrightarrow> srcva \<ge> UTOP \<or> srcva mod PGSIZE \<noteq> 0
     \<or> perm AND PTE_U = 0 \<or> perm AND PTE_P = 0 \<or> perm AND NOT PTE_USER \<noteq> 0"

text \<open>The state while the receiver \<open>t\<close> is locked and its fields are filled in.\<close>

definition sending :: "nat \<Rightarrow> nat \<Rightarrow> u32 \<Rightarrow> kstate \<Rightarrow> kstate" where
  "sending t c value s = upd_env t (\<lambda>x. (delivered (env_id (envs s c)) value x)\<lparr>env_lock := True\<rparr>) s"

text \<open>Everything before the page is mapped.\<close>

lemma sys_ipc_try_send_checks:
  assumes inv: "kinv M {} s" and cur: "live c s"
    and id: "envid2env envid False s = Ok (Inr (Some t)) s" and t: "t < NENV" "env_status (envs s t) \<noteq> ENV_FREE"
    and recv: "env_ipc_recving (envs s t)"
  shows "srcva = 0 \<Longrightarrow> sys_ipc_try_send envid v srcva perm s =
           Ok 0 (upd_env t (\<lambda>x. woken 0 (delivered (env_id (envs s c)) v x)) s)"
    and "srcva \<noteq> 0 \<Longrightarrow> ipc_args_bad srcva perm \<Longrightarrow> sys_ipc_try_send envid v srcva perm s =
           Ok (- E_INVAL) (upd_env t (delivered (env_id (envs s c)) v) s)"
    and "srcva \<noteq> 0 \<Longrightarrow> \<not> ipc_args_bad srcva perm \<Longrightarrow> sys_ipc_try_send envid v srcva perm s =
       (let unlock = spin_unlock (env_lock_of_update t) in
        kbind (page_lookup (env_pgdir (envs s c)) srcva (sending t c v s)) (\<lambda>r s'. case r of None \<Rightarrow> Ok (- E_INVAL) (unlock s')
        | Some (p, _) \<Rightarrow>
            if env_ipc_dstva (envs s' t) \<noteq> 0 then
              kbind (page_insert (env_pgdir (envs s' t)) p (env_ipc_dstva (envs s' t)) perm s') (\<lambda>r s'.
                if r < 0 then Ok r (unlock s') else Ok 1 (unlock (upd_env t (woken perm) s')))
            else Ok 0 (unlock (upd_env t (\<lambda>x. x\<lparr>env_status := ENV_RUNNABLE\<rparr>) s'))))"
proof -
  have c: "curenv s = Some c"
    using cur by (simp add: live_def)
  note free = kinv_unlocked [OF inv t(1)]
  let ?s = "upd_env t (env_lock_update (\<lambda>_. True)) s"
  have "env_id (envs ?s c) = env_id (envs s c)"
    by simp
  then have start: "upd_env t (\<lambda>x. x\<lparr>env_ipc_recving := False, env_ipc_from := env_id (envs ?s c), env_ipc_value := v,
      env_ipc_perm := 0\<rparr>) ?s = sending t c v s"
    by (auto simp: sending_def delivered_def intro!: upd_env_cong)
  have cur': "the_curenv ?s = Ok c ?s"
    using c by (simp add: the_curenv_def)
  have go: "sys_ipc_try_send envid v srcva perm s =
      (let s = sending t c v s; unlock = spin_unlock (env_lock_of_update t)
       in if srcva \<noteq> 0 then
            if srcva \<ge> UTOP \<or> srcva mod PGSIZE \<noteq> 0 then Ok (- E_INVAL) (unlock s)
            else if perm AND PTE_U = 0 \<or> perm AND PTE_P = 0 \<or> perm AND NOT PTE_USER \<noteq> 0
            then Ok (- E_INVAL) (unlock s)
            else
              kbind (page_lookup (env_pgdir (envs s c)) srcva s) (\<lambda>r s. case r of None \<Rightarrow> Ok (- E_INVAL) (unlock s)
              | Some (p, _) \<Rightarrow>
                  if env_ipc_dstva (envs s t) \<noteq> 0 then
                    kbind (page_insert (env_pgdir (envs s t)) p (env_ipc_dstva (envs s t)) perm s) (\<lambda>r s.
                      if r < 0 then Ok r (unlock s)
                      else let s = upd_env t (\<lambda>x. x\<lparr>env_ipc_perm := perm, env_status := ENV_RUNNABLE\<rparr>) s in Ok 1 (unlock s))
                  else let s = upd_env t (\<lambda>x. x\<lparr>env_status := ENV_RUNNABLE\<rparr>) s in Ok 0 (unlock s))
          else let s = upd_env t (\<lambda>x. x\<lparr>env_status := ENV_RUNNABLE\<rparr>) s in Ok 0 (unlock s))"
    unfolding sys_ipc_try_send_def id kbind.simps sum.case the_env_def option.case spin_lock_env [OF free] cur' start
    using recv by (simp only: not_True_eq_False if_False)
  have pd: "env_pgdir (envs (sending t c v s) c) = env_pgdir (envs s c)"
    by (simp add: sending_def)
  have un: "spin_unlock (env_lock_of_update t) (sending t c v s) = upd_env t (delivered (env_id (envs s c)) v) s"
    using free by (auto simp: spin_unlock_env sending_def intro!: upd_env_cong)
  have wake: "spin_unlock (env_lock_of_update t) (upd_env t (\<lambda>x. x\<lparr>env_status := ENV_RUNNABLE\<rparr>) (sending t c v s)) =
      upd_env t (\<lambda>x. woken 0 (delivered (env_id (envs s c)) v x)) s"
    using free by (auto simp: spin_unlock_env sending_def delivered_def woken_def intro!: upd_env_cong)
  show "srcva = 0 \<Longrightarrow> sys_ipc_try_send envid v srcva perm s =
           Ok 0 (upd_env t (\<lambda>x. woken 0 (delivered (env_id (envs s c)) v x)) s)"
    unfolding go by (simp add: wake Let_def del: upd_env_upd_env)
  show "srcva \<noteq> 0 \<Longrightarrow> ipc_args_bad srcva perm \<Longrightarrow> sys_ipc_try_send envid v srcva perm s =
           Ok (- E_INVAL) (upd_env t (delivered (env_id (envs s c)) v) s)"
    unfolding go ipc_args_bad_def
    by (cases "srcva \<ge> UTOP \<or> srcva mod PGSIZE \<noteq> 0") (simp_all add: un Let_def)
  show "srcva \<noteq> 0 \<Longrightarrow> \<not> ipc_args_bad srcva perm \<Longrightarrow> sys_ipc_try_send envid v srcva perm s =
       (let unlock = spin_unlock (env_lock_of_update t) in
        kbind (page_lookup (env_pgdir (envs s c)) srcva (sending t c v s)) (\<lambda>r s'. case r of None \<Rightarrow> Ok (- E_INVAL) (unlock s')
        | Some (p, _) \<Rightarrow>
            if env_ipc_dstva (envs s' t) \<noteq> 0 then
              kbind (page_insert (env_pgdir (envs s' t)) p (env_ipc_dstva (envs s' t)) perm s') (\<lambda>r s'.
                if r < 0 then Ok r (unlock s') else Ok 1 (unlock (upd_env t (woken perm) s')))
            else Ok 0 (unlock (upd_env t (\<lambda>x. x\<lparr>env_status := ENV_RUNNABLE\<rparr>) s'))))"
    unfolding go ipc_args_bad_def Let_def woken_def [abs_def] by (simp add: pd)
qed

text \<open>Both environments keep their address spaces while the receiver is locked.\<close>

lemma sending_simps:
  assumes inv: "kinv M {} s" and cur: "live c s" and t: "t < NENV"
  shows "minv M {} {} (sending t c v s)" and "tlb_ready (sending t c v s)" and "va_entry (sending t c v s) = va_entry s"
    and "env_pgdir (envs (sending t c v s) i) = env_pgdir (envs s i)"
  using kinvD(1) [OF inv] live_ready [OF inv cur]
  by (simp_all add: sending_def minv_upd_env va_entry_upd_env)

lemma unlock_sending:
  assumes "\<not> env_lock (envs s t)"
  shows "spin_unlock (env_lock_of_update t) (sending t c v s) = upd_env t (delivered (env_id (envs s c)) v) s"
    and "spin_unlock (env_lock_of_update t) (upd_env t (\<lambda>x. x\<lparr>env_status := ENV_RUNNABLE\<rparr>) (sending t c v s)) =
         upd_env t (\<lambda>x. woken 0 (delivered (env_id (envs s c)) v x)) s"
  using assms by (auto simp: spin_unlock_env sending_def delivered_def woken_def intro!: upd_env_cong)

lemma env_unlock_id: "\<not> env_lock x \<Longrightarrow> x\<lparr>env_lock := False\<rparr> = x"
  by (cases x) simp

text \<open>Mapping the page into the receiver, then waking it.\<close>

lemma ipc_mapped_kinv:
  fixes perm :: u32
  assumes inv: "kinv M {} s" and cur: "live c s" and t: "t < NENV" "env_status (envs s t) \<noteq> ENV_FREE"
    and s2: "pframe (sending t c v s) s2" "minv M {} {} s2"
  defines "s' \<equiv> spin_unlock (env_lock_of_update t) (upd_env t (woken perm) s2)"
  shows "kinv M {} s'" and "live c s'" and "envs s' = (envs s)(t := woken perm (delivered (env_id (envs s c)) v (envs s t)))"
    and "va_entry s' = va_entry s2" and "mem s' = mem s2"
proof -
  let ?u = "upd_env t (\<lambda>x. woken perm (delivered (env_id (envs s c)) v x)) s"
  note P = pframe_simps [OF s2(1)]
  note free = kinv_unlocked [OF inv t(1)]
  have s': "s' = upd_env t (\<lambda>x. (woken perm x)\<lparr>env_lock := False\<rparr>) s2"
    by (simp add: s'_def spin_unlock_env)
  show envs: "envs s' = (envs s)(t := woken perm (delivered (env_id (envs s c)) v (envs s t)))"
    using free P(1) by (simp add: s' sending_def env_unlock_id)
  have u: "kinv M {} ?u" "live c ?u"
    by (rule harmless_upd_env [OF inv cur t]; simp)+
  have same: "envs s' = envs ?u" "env_table_lock s' = env_table_lock ?u" "sched_pre s' = sched_pre ?u"
    "env_free_list s' = env_free_list ?u" "curenv s' = curenv ?u" "page_table_lock s' = page_table_lock ?u" "tlb_lock s' = tlb_lock ?u"
    "cons s' = cons ?u" "nic s' = nic ?u"
    using envs P by (simp_all add: s' sending_def)
  have "einv s'"
    using einv_cong [OF same(1-4)] kinvD(2) [OF u(1)] by simp
  moreover have "minv M {} {} s'"
    using s2(2) by (simp add: s' minv_upd_env)
  ultimately show "kinv M {} s'"
    using kinvD(3-5) [OF u(1)] same by (simp add: kinv_def dev_inv_def)
  show "live c s'"
    using u(2) same by (simp add: live_def)
  show "va_entry s' = va_entry s2" "mem s' = mem s2"
    by (simp_all add: s' va_entry_upd_env)
qed

lemma sys_ipc_try_send_spec:
  assumes inv: "kinv M {} s" and cur: "live c s"
  obtains (bad) "sys_ipc_try_send envid v srcva perm s = Ok (- E_BAD_ENV) s"
  | (not_recv) t where "envid2env envid False s = Ok (Inr (Some t)) s" "\<not> env_ipc_recving (envs s t)"
      "sys_ipc_try_send envid v srcva perm s = Ok (- E_IPC_NOT_RECV) s"
  | (err) t r where "envid2env envid False s = Ok (Inr (Some t)) s" "t < NENV" "env_status (envs s t) \<noteq> ENV_FREE"
      "env_ipc_recving (envs s t)"
      "sys_ipc_try_send envid v srcva perm s = Ok r (upd_env t (delivered (env_id (envs s c)) v) s)"
      "r = - E_INVAL \<or> r = - E_NO_MEM"
  | (sent) t where "envid2env envid False s = Ok (Inr (Some t)) s" "t < NENV" "env_status (envs s t) \<noteq> ENV_FREE"
      "env_ipc_recving (envs s t)" "srcva = 0 \<or> env_ipc_dstva (envs s t) = 0"
      "sys_ipc_try_send envid v srcva perm s = Ok 0 (upd_env t (\<lambda>x. woken 0 (delivered (env_id (envs s c)) v x)) s)"
  | (mapped) t w s' where "envid2env envid False s = Ok (Inr (Some t)) s" "t < NENV" "env_ipc_recving (envs s t)"
      "sys_ipc_try_send envid v srcva perm s = Ok 1 s'" "kinv M {} s'" "live c s'" "va_entry s c srcva = Some w"
      "envs s' = (envs s)(t := woken perm (delivered (env_id (envs s c)) v (envs s t)))"
      "\<And>j va'. va_entry s' j va' =
         (if j = t \<and> VPN va' = VPN (env_ipc_dstva (envs s t)) then Some (page2pa (unat (PPN w)) OR perm OR PTE_P) else va_entry s j va')"
  using inv cur
proof (cases rule: envid2env_spec [where envid = envid and checkperm = False])
  case bad
  then show ?thesis
    using that(1) by (simp add: sys_ipc_try_send_def)
next
  case (found t)
  note chk = sys_ipc_try_send_checks [OF inv cur found(1-3), where v = v and srcva = srcva and perm = perm]
  consider (idle) "\<not> env_ipc_recving (envs s t)" | (none) "env_ipc_recving (envs s t)" "srcva = 0"
    | (args) "env_ipc_recving (envs s t)" "srcva \<noteq> 0" "ipc_args_bad srcva perm"
    | (page) "env_ipc_recving (envs s t)" "srcva \<noteq> 0" "\<not> ipc_args_bad srcva perm"
    by blast
  then show ?thesis
  proof cases
    case idle
    then show ?thesis
      using that(2) [OF found(1)] found(1) by (simp add: sys_ipc_try_send_def the_env_def)
  next
    case none
    then show ?thesis
      using that(4) [OF found(1-3)] chk(1) by simp
  next
    case args
    then show ?thesis
      using that(3) [OF found(1-3)] chk(2) by simp
  next
    case page
    note eq = chk(3) [OF page, unfolded Let_def]
    note S = sending_simps [OF inv cur found(2), of v]
    note un = unlock_sending [OF kinv_unlocked [OF inv found(2)], of c v]
    have c: "c < NENV" "env_status (envs s c) \<noteq> ENV_FREE"
      using cur by (simp_all add: live_def)
    obtain ps where ps: "env_pgdir (envs s c) = Some ps"
      by (rule kinv_dir [OF inv c])
    obtain pt where pt: "env_pgdir (envs s t) = Some pt"
      by (rule kinv_dir [OF inv found(2,3)])
    have va: "srcva < UTOP" "PPN perm = 0"
      using page(3) PPN_user_perm by (auto simp: ipc_args_bad_def not_le)
    have dst: "env_ipc_dstva (envs s t) < UTOP"
      using einvD(1) [OF kinvD(2) [OF inv] found(2)] by (simp add: env_ok_def)
    have dst': "env_ipc_dstva (envs (sending t c v s) t) = env_ipc_dstva (envs s t)"
      by (simp add: sending_def)
    show ?thesis
      using S(1) c(1) ps [folded S(4)] va(1)
    proof (cases rule: lookup_va)
      case unmapped
      then show ?thesis
        using that(3) [OF found(1-3) page(1)] eq ps un by (simp add: S(4))
    next
      case L: (found q j w)
      show ?thesis
      proof (cases "env_ipc_dstva (envs s t) = 0")
        case True
        then show ?thesis
          using that(4) [OF found(1-3) page(1)] eq ps un L(1) dst' by (simp add: S(4))
      next
        case False
        have p: "unat (PPN w) \<in> {} \<or> (\<exists>j va' w'. va_entry (sending t c v s) j va' = Some w' \<and> unat (PPN w') = unat (PPN w))"
          using L(2) by blast
        show ?thesis
          using S(1,2) found(2) pt [folded S(4)] dst va(2) p
        proof (cases rule: insert_va)
          case fail
          then show ?thesis
            using that(3) [OF found(1-3) page(1)] eq ps pt un L(1) dst' False by (simp add: S(4) const_defs)
        next
          case (mapped s2)
          have inv2: "minv M {} {} s2"
            using mapped(2) by simp
          note K = ipc_mapped_kinv [OF inv cur found(2,3) mapped(3) inv2, of perm]
          have run: "sys_ipc_try_send envid v srcva perm s = Ok 1 (spin_unlock (env_lock_of_update t) (upd_env t (woken perm) s2))"
            using eq ps pt L(1) mapped(1) dst' False by (simp add: S(4))
          have w: "va_entry s c srcva = Some w"
            using L(2) by (simp add: S(3))
          show ?thesis
            using that(5) [OF found(1,2) page(1) run K(1,2) w K(3)] mapped(4) by (simp add: K(4) S(3))
        qed
      qed
    qed
  qed
qed

lemma sys_ipc_try_send_safe:
  assumes "kinv M {} s" and "live c s"
  shows "sys_safe M c (sys_ipc_try_send envid v srcva perm s)"
  using assms
proof (cases rule: sys_ipc_try_send_spec [where envid = envid and v = v and srcva = srcva and perm = perm])
  case (err t r)
  then show ?thesis
    using harmless_upd_env [OF assms err(2,3)] by simp
next
  case (sent t)
  then show ?thesis
    using harmless_upd_env [OF assms sent(2,3)] by simp
qed (use assms in simp_all)

section \<open>Calls that read the caller's memory\<close>

lemma ld_tf_readable:
  assumes inv: "kinv M {} s" and cur: "live c s" and r: "readable s c va 68"
  shows "ld_tf s va \<noteq> None"
proof -
  obtain pd where "curenv s = Some c" "env_pgdir (envs s c) = Some pd" "dir_of s c = Some pd"
    by (rule live_dir [OF inv cur])
  then show ?thesis
    using ld_words_readable [of s c pd va 17] r by (simp add: ld_tf_def)
qed

lemma ld_words_mem: "mem s' = mem s \<Longrightarrow> ld_words s' pd va n = ld_words s pd va n"
proof (induction n arbitrary: va)
  case (Suc n)
  have "ld8 s' pd a = ld8 s pd a" for a
    using Suc.prems by (simp add: ld8_def xlate_def)
  then have "ld32 s' pd va = ld32 s pd va"
    unfolding ld32_def by presburger
  then show ?case
    using Suc by (cases "ld32 s pd va") simp_all
qed simp

lemma ld_tf_upd_env:
  assumes "env_pgdir (f (envs s e)) = env_pgdir (envs s e)"
  shows "ld_tf (upd_env e f s) va = ld_tf s va"
proof -
  have "ld_words (upd_env e f s) pd va n = ld_words s pd va n" for pd n
    by (rule ld_words_mem) simp
  moreover have "env_pgdir (envs (upd_env e f s) c) = env_pgdir (envs s c)" for c
    using assms by simp
  ultimately show ?thesis
    unfolding ld_tf_def by simp
qed

text \<open>The part of \<^verbatim>\<open>sys_env_set_trapframe\<close> after the memory check, in which the environment may have been freed.\<close>

lemma set_trapframe_tail:
  assumes inv: "kinv M {} s" and cur: "live c s" and e: "e < NENV" and r: "readable s c tf 68"
  shows "sys_safe M c (kbind (spin_lock (env_lock_of e) (env_lock_of_update e) s) (\<lambda>_ s.
           case ld_tf s tf of None \<Rightarrow> Panic ''page fault''
           | Some f \<Rightarrow>
               let s = upd_env e (\<lambda>x. x\<lparr>env_tf := f\<rparr>) s
               in Ok (0 :: int) (spin_unlock (env_lock_of_update e) s)))"
    (is "sys_safe M c ?m")
proof -
  obtain f where f: "ld_tf s tf = Some f"
    using ld_tf_readable [OF inv cur r] by blast
  let ?s' = "upd_env e (\<lambda>x. x\<lparr>env_tf := f\<rparr>) s"
  have "?m = Ok 0 ?s'"
    using kinv_unlocked [OF inv e] f by (auto simp: env_locking ld_tf_upd_env intro!: upd_env_cong)
  moreover have "kinv M {} ?s'"
    by (rule kinv_upd_env [OF inv e])
      (use einvD(1) [OF kinvD(2) [OF inv] e] in \<open>simp_all add: env_ok_def\<close>)
  moreover have "live c ?s'"
    using cur by (auto simp: live_def)
  ultimately show ?thesis
    by simp
qed

lemma sys_env_set_trapframe_safe:
  assumes inv: "kinv M {} s" and cur: "live c s" and r: "readable s c tf 68"
  shows "sys_safe M c (sys_env_set_trapframe envid tf s)"
  using inv cur
proof (cases rule: envid2env_spec [where envid = envid and checkperm = True])
  case bad
  then show ?thesis
    using inv cur by (simp add: sys_env_set_trapframe_def)
next
  case (found e)
  have kept: "readable s' c tf 68" if "others_kept e s s'" "s' = s \<or> e \<noteq> c" for s'
    using that r by (auto simp: others_kept_def readable_def)
  show ?thesis
    unfolding sys_env_set_trapframe_def found(1) kbind.simps sum.case the_env_def option.case
  proof (rule sys_safe_returns [OF user_mem_assert_safe [OF inv cur found(2,3)]], goal_cases)
    case (1 r s')
    then show ?case
      by (intro set_trapframe_tail [OF _ _ found(2)] kept) simp_all
  qed simp
qed

lemma cputs_loop_readable:
  assumes dir: "dir_of s i = Some pd" and "readable s i p (Suc n)" and "n < fuel"
  shows "\<exists>out'. cputs_loop fuel pd p (int n) out s = Ok out' s"
  using assms(2,3)
proof (induction n arbitrary: p out fuel)
  case 0
  obtain ch where "ld8 s pd p = Some ch"
    using ld8_readable [OF dir, of p] readableD [OF 0(1), of 0] by auto
  then show ?case
    using 0(2) by (cases fuel) auto
next
  case (Suc n)
  obtain ch where ch: "ld8 s pd p = Some ch"
    using ld8_readable [OF dir, of p] readableD [OF Suc.prems(1), of 0] by auto
  have "readable s i (p + 1) (Suc n)"
    using readable_shift(2) [of s i p 1 "Suc n"] Suc.prems(1) by simp
  then obtain f where "fuel = Suc f" "\<exists>out'. cputs_loop f pd (p + 1) (int n) (out @ [ch]) s = Ok out' s"
    using Suc.IH [of "p + 1" "fuel - 1"] Suc.prems(2) by (cases fuel) auto
  then show ?case
    using ch by simp
qed

lemma cputs_loop_state: "cputs_loop fuel pd p precision out s = Ok out' s' \<Longrightarrow> s' = s"
  by (induction fuel arbitrary: p precision out) (auto split: option.splits if_splits)

lemma kinv_hw: "kinv M A s \<Longrightarrow> kinv M A (hw ev s)"
  using minv_quiet [OF _ quiet_hw] einv_cong [of "hw ev s" s] by (simp add: kinv_def dev_inv_def)

lemma live_hw [simp]: "live c (hw ev s) = live c s"
  by (simp add: live_def)

lemma sys_cputs_safe:
  assumes inv: "kinv M {} s" and cur: "live c s"
    and r: "p = 0 \<or> 0 \<le> sint len \<and> readable s c p (Suc (nat (sint len)))"
  shows "sys_safe M c (sys_cputs p len s)"
proof -
  have c: "curenv s = Some c" "c < NENV" "env_status (envs s c) \<noteq> ENV_FREE"
    using cur by (simp_all add: live_def)
  show ?thesis
    unfolding sys_cputs_def the_curenv_def c(1) option.case kbind.simps
  proof (rule sys_safe_returns [OF user_mem_assert_safe [OF inv cur c(2,3)]], goal_cases)
    case (1 u s')
    then have s': "s' = s"
      by simp
    show ?case
    proof (cases "p = 0")
      case True
      then show ?thesis
        using inv cur kinv_hw by (simp add: s')
    next
      case False
      then have R: "0 \<le> sint len" "readable s c p (Suc (nat (sint len)))"
        using r by simp_all
      obtain pd where pd: "env_pgdir (envs s c) = Some pd" "dir_of s c = Some pd"
        by (rule live_dir [OF inv cur])
      have "sint len < 2 ^ 31"
        using sint_lt [of len] by simp
      then have "nat (sint len) < 2 ^ 32"
        by simp
      then obtain out where "cputs_loop (2 ^ 32) pd p (sint len) [] s = Ok out s"
        using cputs_loop_readable [OF pd(2) R(2), of "2 ^ 32" "[]"] R(1) by (metis nat_0_le)
      then show ?thesis
        using False inv cur kinv_hw c(1) pd(1) by (simp add: s' the_env_def)
    qed
  qed simp
qed

section \<open>The dispatcher\<close>

text \<open>
  What the calls rely on from their callers: the arguments that the kernel reads or writes through the caller's address
  space are mapped, and a packet fits in a page.
\<close>

definition args_mapped :: "kstate \<Rightarrow> nat \<Rightarrow> sysno \<Rightarrow> u32 \<Rightarrow> u32 \<Rightarrow> bool" where
  "args_mapped s c no a1 a2 \<longleftrightarrow>
     (no = SYS_cputs \<longrightarrow> a1 = 0 \<or> 0 \<le> sint a2 \<and> readable s c a1 (Suc (nat (sint a2))))
     \<and> (no = SYS_env_set_trapframe \<longrightarrow> readable s c a2 68)
     \<and> (no = SYS_nic_send \<longrightarrow> unat a2 \<le> BLOCK_ROOM \<and> readable s c a1 (unat a2))
     \<and> (no = SYS_nic_recv \<longrightarrow> writable s c a1 (unat E100_MAX_PKT_SIZE) \<and> writable s c a2 4)"

lemma kinv_dev:
  assumes "kinv M A s" and "cons_inv k" and "tx_inv e" and "rx_inv e"
  shows "kinv M A (s\<lparr>cons := k\<rparr>)" and "kinv M A (s\<lparr>nic := e\<rparr>)"
  using assms minv_cong [of "s\<lparr>cons := k\<rparr>" s] minv_cong [of "s\<lparr>nic := e\<rparr>" s]
  unfolding kinv_def by (simp_all add: einv_def dev_inv_def)

lemma live_dev [simp]: "live c (s\<lparr>cons := k\<rparr>) = live c s" "live c (s\<lparr>nic := e\<rparr>) = live c s"
  by (simp_all add: live_def)

lemma va_entry_dev [simp]: "va_entry (s\<lparr>cons := k\<rparr>) = va_entry s" "va_entry (s\<lparr>nic := e\<rparr>) = va_entry s"
  by (rule va_entry_same; simp)+

lemma sys_cgetc_safe: "kinv M {} s \<Longrightarrow> live c s \<Longrightarrow> sys_safe M c (sys_cgetc polls s)"
proof (induction polls s rule: sys_cgetc.induct)
  case (2 serial kbd polls s)
  obtain ch reset k where get: "cons_getc serial kbd (cons s) = (ch, reset, k)"
    by (cases "cons_getc serial kbd (cons s)") auto
  have "cons_inv k" "tx_inv (nic s)" "rx_inv (nic s)"
    using cons_getc_inv [of "cons s" serial kbd] kinvD(5) [OF 2(2)] get by (simp_all add: dev_inv_def)
  then have inv: "kinv M {} (s\<lparr>cons := k\<rparr>)"
    by (rule kinv_dev(1) [OF 2(2)])
  let ?s = "if reset then hw Reboot (s\<lparr>cons := k\<rparr>) else s\<lparr>cons := k\<rparr>"
  have s: "kinv M {} ?s" "live c ?s"
    using inv kinv_hw 2(3) by simp_all
  show ?case
    using 2(1) [OF get [symmetric] refl refl refl refl _ s] s by (auto simp: get Let_def)
qed simp

text \<open>A sent packet is taken from the caller, who must have mapped it.\<close>

lemma sys_nic_send_step:
  assumes inv: "kinv M {} s" and cur: "live c s" and arg: "unat sz \<le> BLOCK_ROOM" "readable s c packet (unat sz)"
  obtains r e where "sys_nic_send packet sz s = Ok r (s\<lparr>nic := e\<rparr>)" and "kinv M {} (s\<lparr>nic := e\<rparr>)"
proof -
  obtain pd where pd: "curenv s = Some c" "env_pgdir (envs s c) = Some pd" "dir_of s c = Some pd"
    by (rule live_dir [OF inv cur])
  obtain bs where bs: "ld_bytes s pd packet (unat sz) = Some bs" "length bs = unat sz"
    using ld_bytes_readable [OF pd(3) arg(2)] by blast
  have D: "cons_inv (cons s)" "tx_inv (nic s)" "rx_inv (nic s)"
    using kinvD(5) [OF inv] by (simp_all add: dev_inv_def)
  have "\<exists>r e. e100_add_tcb (Some bs) (nic s) = Some (r, e) \<and> tx_inv e \<and> rx_inv e"
  proof (cases "CBL_IS_FULL (nic s)")
    case True
    then show ?thesis
      using D by (simp add: e100_add_tcb_def)
  next
    case False
    then show ?thesis
      by (rule e100_add_tcb_room [OF D(2), of bs]) (use arg(1) bs(2) D(3) in auto)
  qed
  then obtain r e where e: "e100_add_tcb (Some bs) (nic s) = Some (r, e)" "tx_inv e" "rx_inv e"
    by blast
  have "sys_nic_send packet sz s = Ok r (s\<lparr>nic := e\<rparr>)"
    using arg(1) by (simp add: sys_nic_send_def the_curenv_def the_env_def pd bs(1) e(1) Let_def)
  then show thesis
    by (rule that) (rule kinv_dev(2) [OF inv D(1) e(2,3)])
qed

text \<open>A received frame is stored where the caller asked, and the page tables stay as they are.\<close>

lemma sys_nic_recv_tail:
  assumes inv: "kinv M {} s" and cur: "live c s"
    and arg: "writable s c packet (unat E100_MAX_PKT_SIZE)" "writable s c szp 4" and pd: "dir_of s c = Some pd"
  obtains r s' where "(case e100_rem_rfd (nic s) of None \<Rightarrow> Panic ''page fault''
     | Some (r, bytes, e) \<Rightarrow>
         (if r < 0 then Ok r (s\<lparr>nic := e\<rparr>)
          else case st32 pd szp (of_nat (length bytes)) s of None \<Rightarrow> Panic ''page fault''
          | Some s \<Rightarrow>
              (case st_bytes pd packet bytes s of None \<Rightarrow> Panic ''page fault''
               | Some s \<Rightarrow> Ok r (s\<lparr>nic := e\<rparr>)))) = Ok r s'"
    and "kinv M {} s'" and "live c s'" and "envs s' = envs s" and "va_entry s' = va_entry s"
proof -
  have D: "cons_inv (cons s)" "tx_inv (nic s)" "rx_inv (nic s)"
    using kinvD(5) [OF inv] by (simp_all add: dev_inv_def)
  from D(3) show thesis
  proof (cases rule: e100_rem_rfd_spec)
    case none
    then show thesis
      using inv cur by (intro that [of "- 1" s]) simp_all
  next
    case (some f fs e)
    obtain s1 where s1: "st32 pd szp (of_nat (length f)) s = Some s1" "ustore s s1"
      using st32_writable [OF inv pd arg(2)] by blast
    have "writable s1 c packet (length f)"
      unfolding ustore_writable [OF s1(2)] using arg(1) some(5) by (simp add: writable_def)
    then obtain s2 where s2: "st_bytes pd packet f s1 = Some s2" "ustore s1 s2"
      using st_bytes_writable [OF ustore_kinv [OF inv s1(2)]] pd ustore_tables(1) [OF s1(2)] by metis
    note st = ustore_trans [OF s1(2) s2(2)]
    show thesis
    proof (rule that [of 0 "s2\<lparr>nic := e\<rparr>"])
      show "kinv M {} (s2\<lparr>nic := e\<rparr>)"
        by (rule kinv_dev(2) [OF ustore_kinv [OF inv st] D(1)]) (use some(3,6) D(2) in simp_all)
    qed (use some(2) s1(1) s2(1) cur ustore_live [OF st] pframe_simps(1) [OF ustore_tables(5) [OF st]] ustore_tables(4) [OF st] in simp_all)
  qed
qed

lemma sys_nic_recv_step:
  assumes inv: "kinv M {} s" and cur: "live c s" and arg: "writable s c packet (unat E100_MAX_PKT_SIZE)" "writable s c szp 4"
  shows "returns (\<lambda>_ s'. kinv M {} s' \<and> live c s' \<and> envs s' = envs s \<and> va_entry s' = va_entry s) (\<lambda>s'. kinv M {} s')
    (sys_nic_recv packet szp s)"
proof -
  have c: "curenv s = Some c" "c < NENV" "env_status (envs s c) \<noteq> ENV_FREE"
    using cur by (simp_all add: live_def)
  obtain pd where pd: "env_pgdir (envs s c) = Some pd" "dir_of s c = Some pd"
    by (rule live_dir [OF inv cur])
  have "returns (\<lambda>_ s'. s' = s) (\<lambda>s'. kinv M {} s') (user_mem_assert c packet E100_MAX_PKT_SIZE (PTE_P OR PTE_W) s)"
    by (rule returns_mono [OF user_mem_assert_safe [OF inv cur c(2,3)]]) auto
  then show ?thesis
    unfolding sys_nic_recv_def the_curenv_def c(1) option.case kbind.simps
  proof (rule returns_kbindI)
    fix r s'
    assume eq: "s' = s"
    show "returns (\<lambda>_ s'. kinv M {} s' \<and> live c s' \<and> envs s' = envs s \<and> va_entry s' = va_entry s) (\<lambda>s'. kinv M {} s')
      (kbind (case curenv s' of None \<Rightarrow> Panic ''null curenv'' | Some e \<Rightarrow> Ok e s') (\<lambda>c s.
         kbind (the_env (env_pgdir (envs s c)) s) (\<lambda>pd s. case e100_rem_rfd (nic s) of None \<Rightarrow> Panic ''page fault''
         | Some (r, bytes, e) \<Rightarrow>
             (if r < 0 then Ok r (s\<lparr>nic := e\<rparr>)
              else case st32 pd szp (of_nat (length bytes)) s of None \<Rightarrow> Panic ''page fault''
              | Some s \<Rightarrow>
                  (case st_bytes pd packet bytes s of None \<Rightarrow> Panic ''page fault''
                   | Some s \<Rightarrow> Ok r (s\<lparr>nic := e\<rparr>))))))"
      unfolding eq by (rule sys_nic_recv_tail [OF inv cur arg pd(2)]) (simp add: c(1) pd(1) the_env_def)
  qed
qed

lemma sys_yield_noreturn:
  assumes "kinv M {} s" and "current c s"
  shows "returns (\<lambda>_ _. False) (\<lambda>s'. kinv M {} s') (sys_yield s :: ('a, kstate) kres)"
  unfolding sys_yield_eq(1) [OF assms] by (rule sched_yield_safe [OF sys_yield_eq(2) [OF assms]])

section \<open>What a call may change\<close>

text \<open>
  \<open>keeps c s s'\<close>: every environment that is neither the caller \<open>c\<close>, nor one of its children, nor waiting for a
  message, nor free, has the same descriptor and the same address space in \<open>s'\<close>.
\<close>

definition bystander :: "nat \<Rightarrow> kstate \<Rightarrow> nat \<Rightarrow> bool" where
  "bystander c s j \<longleftrightarrow> j \<noteq> c \<and> env_status (envs s j) \<noteq> ENV_FREE \<and> env_parent_id (envs s j) \<noteq> env_id (envs s c)
     \<and> \<not> env_ipc_recving (envs s j)"

definition keeps :: "nat \<Rightarrow> kstate \<Rightarrow> kstate \<Rightarrow> bool" where
  "keeps c s s' \<longleftrightarrow> (\<forall>j. bystander c s j \<longrightarrow> envs s' j = envs s j \<and> (\<forall>va. va_entry s' j va = va_entry s j va))"

lemma keeps_refl [simp]: "keeps c s s"
  by (simp add: keeps_def)

lemma keeps_upd_env: "\<not> bystander c s e \<Longrightarrow> env_pgdir (f (envs s e)) = env_pgdir (envs s e) \<Longrightarrow> keeps c s (upd_env e f s)"
  by (auto simp: keeps_def va_entry_upd_env)

lemma keeps_frame:
  assumes "\<not> bystander c s e" and "pframe s s'" and "\<And>j va'. va_entry s' j va' = (if j = e \<and> P va' then g va' else va_entry s j va')"
  shows "keeps c s s'"
  using assms(1,3) pframe_simps(1) [OF assms(2)] by (auto simp: keeps_def)

lemma keeps_destroy:
  assumes "\<not> bystander c s e" and "others_kept e s s'" and "\<forall>i. i \<noteq> e \<longrightarrow> envs s' i = envs s i"
  shows "keeps c s s'"
  using assms by (auto simp: keeps_def others_kept_def)

lemma found_not_bystander:
  assumes "kinv M A s" and "live c s" and "envid2env envid True s = Ok (Inr (Some e)) s"
  shows "\<not> bystander c s e"
  using assms(1,2)
  by (cases rule: envid2env_spec [where envid = envid and checkperm = True]) (use assms(3) in \<open>auto simp: bystander_def\<close>)

end
