(* ===== verification/Cstring.thy ===== *)
theory Cstring
  imports Prelude "HOL-Library.Monad_Syntax"
begin

text \<open>
  The string library, \<^verbatim>\<open>lib/string.c\<close>, which the kernel and the user programs share. Memory is a function from 32-bit
  addresses to bytes. Both the assembly versions of \<^verbatim>\<open>memset\<close> and \<^verbatim>\<open>memmove\<close>, which are the ones compiled, and the
  portable ones are modelled; the string instructions of the processor are the functions \<open>stosb\<close> to \<open>movsl_down\<close>.
  A loop that runs until it finds a terminator is a partial function: with no terminator in the address space it does
  not return.
\<close>

type_synonym cmem = "u32 \<Rightarrow> u8"

section \<open>Blocks of bytes\<close>

text \<open>The string instructions: \<open>n\<close> repetitions with the destination and source registers.\<close>

fun stosb :: "nat \<Rightarrow> u32 \<Rightarrow> u8 \<Rightarrow> cmem \<Rightarrow> cmem" where
  "stosb 0 d c m = m"
| "stosb (Suc n) d c m = stosb n (d + 1) c (m(d := c))"

text \<open>A little-endian word stored and loaded.\<close>

definition st_word :: "u32 \<Rightarrow> u32 \<Rightarrow> cmem \<Rightarrow> cmem" where
  "st_word d w m = m(d := ucast w, d + 1 := ucast (drop_bit 8 w), d + 2 := ucast (drop_bit 16 w), d + 3 := ucast (drop_bit 24 w))"

definition ld_word :: "cmem \<Rightarrow> u32 \<Rightarrow> u32" where
  "ld_word m s = ucast (m s) OR push_bit 8 (ucast (m (s + 1))) OR push_bit 16 (ucast (m (s + 2))) OR push_bit 24 (ucast (m (s + 3)))"

fun stosl :: "nat \<Rightarrow> u32 \<Rightarrow> u32 \<Rightarrow> cmem \<Rightarrow> cmem" where
  "stosl 0 d w m = m"
| "stosl (Suc n) d w m = stosl n (d + 4) w (st_word d w m)"

fun movsb :: "nat \<Rightarrow> u32 \<Rightarrow> u32 \<Rightarrow> cmem \<Rightarrow> cmem" where
  "movsb 0 d s m = m"
| "movsb (Suc n) d s m = movsb n (d + 1) (s + 1) (m(d := m s))"

fun movsb_down :: "nat \<Rightarrow> u32 \<Rightarrow> u32 \<Rightarrow> cmem \<Rightarrow> cmem" where
  "movsb_down 0 d s m = m"
| "movsb_down (Suc n) d s m = movsb_down n (d - 1) (s - 1) (m(d := m s))"

fun movsl :: "nat \<Rightarrow> u32 \<Rightarrow> u32 \<Rightarrow> cmem \<Rightarrow> cmem" where
  "movsl 0 d s m = m"
| "movsl (Suc n) d s m = movsl n (d + 4) (s + 4) (st_word d (ld_word m s) m)"

fun movsl_down :: "nat \<Rightarrow> u32 \<Rightarrow> u32 \<Rightarrow> cmem \<Rightarrow> cmem" where
  "movsl_down 0 d s m = m"
| "movsl_down (Suc n) d s m = movsl_down n (d - 4) (s - 4) (st_word d (ld_word m s) m)"

text \<open>\<^verbatim>\<open>memset\<close> and \<^verbatim>\<open>memmove\<close> with \<^verbatim>\<open>ASM\<close> set, as the sources have it.\<close>

definition memset :: "u32 \<Rightarrow> u32 \<Rightarrow> u32 \<Rightarrow> cmem \<Rightarrow> cmem" where
  "memset v c n m =
     (if n = 0 then m
      else if v mod 4 = 0 \<and> n mod 4 = 0 then
        let c = c AND 0xFF;
            c = push_bit 24 c OR push_bit 16 c OR push_bit 8 c OR c
        in stosl (unat (n div 4)) v c m
      else stosb (unat n) v (ucast c) m)"

definition memmove :: "u32 \<Rightarrow> u32 \<Rightarrow> u32 \<Rightarrow> cmem \<Rightarrow> cmem" where
  "memmove dst src n m =
     (let s = src; d = dst
      in if s < d \<and> s + n > d then
           let s = s + n; d = d + n
           in if s mod 4 = 0 \<and> d mod 4 = 0 \<and> n mod 4 = 0
              then movsl_down (unat (n div 4)) (d - 4) (s - 4) m
              else movsb_down (unat n) (d - 1) (s - 1) m
         else
           if s mod 4 = 0 \<and> d mod 4 = 0 \<and> n mod 4 = 0
           then movsl (unat (n div 4)) d s m
           else movsb (unat n) d s m)"

text \<open>The portable versions, compiled without \<^verbatim>\<open>ASM\<close>; the counter of \<^verbatim>\<open>memset\<close> is a signed integer.\<close>

fun memset_loop :: "nat \<Rightarrow> u32 \<Rightarrow> u8 \<Rightarrow> cmem \<Rightarrow> cmem" where
  "memset_loop 0 p c m = m"
| "memset_loop (Suc k) p c m = memset_loop k (p + 1) c (m(p := c))"

definition memset_c :: "u32 \<Rightarrow> u32 \<Rightarrow> u32 \<Rightarrow> cmem \<Rightarrow> cmem" where
  "memset_c v c n m = memset_loop (nat (sint n)) v (ucast c) m"

fun copy_up :: "nat \<Rightarrow> u32 \<Rightarrow> u32 \<Rightarrow> cmem \<Rightarrow> cmem" where
  "copy_up 0 d s m = m"
| "copy_up (Suc n) d s m = copy_up n (d + 1) (s + 1) (m(d := m s))"

fun copy_down :: "nat \<Rightarrow> u32 \<Rightarrow> u32 \<Rightarrow> cmem \<Rightarrow> cmem" where
  "copy_down 0 d s m = m"
| "copy_down (Suc n) d s m = (let d = d - 1; s = s - 1 in copy_down n d s (m(d := m s)))"

definition memmove_c :: "u32 \<Rightarrow> u32 \<Rightarrow> u32 \<Rightarrow> cmem \<Rightarrow> cmem" where
  "memmove_c dst src n m =
     (if src < dst \<and> src + n > dst then copy_down (unat n) (dst + n) (src + n) m else copy_up (unat n) dst src m)"

definition memcpy :: "u32 \<Rightarrow> u32 \<Rightarrow> u32 \<Rightarrow> cmem \<Rightarrow> cmem" where
  "memcpy dst src n m = memmove dst src n m"

fun memcmp_loop :: "nat \<Rightarrow> u32 \<Rightarrow> u32 \<Rightarrow> cmem \<Rightarrow> int" where
  "memcmp_loop 0 s1 s2 m = 0"
| "memcmp_loop (Suc n) s1 s2 m = (if m s1 \<noteq> m s2 then uint (m s1) - uint (m s2) else memcmp_loop n (s1 + 1) (s2 + 1) m)"

definition memcmp :: "u32 \<Rightarrow> u32 \<Rightarrow> u32 \<Rightarrow> cmem \<Rightarrow> int" where
  "memcmp v1 v2 n m = memcmp_loop (unat n) v1 v2 m"

function memfind_loop :: "u32 \<Rightarrow> u32 \<Rightarrow> u8 \<Rightarrow> cmem \<Rightarrow> u32" where
  "memfind_loop s ends c m = (if s < ends then if m s = c then s else memfind_loop (s + 1) ends c m else s)"
  by pat_completeness auto

termination
proof (relation "measure (\<lambda>(s, ends, c, m). unat (ends - s))")
  fix s ends :: u32 and c and m :: cmem
  assume less: "s < ends"
  then have "ends - s \<noteq> 0"
    by auto
  then have "unat (ends - s - 1) < unat (ends - s)"
    by (metis diff_less unat_gt_0 unat_minus_one zero_less_one)
  then show "((s + 1, ends, c, m), (s, ends, c, m)) \<in> measure (\<lambda>(s, ends, c, m). unat (ends - s))"
    by (simp add: diff_diff_eq)
qed simp

declare memfind_loop.simps [simp del]

definition memfind :: "u32 \<Rightarrow> u32 \<Rightarrow> u32 \<Rightarrow> cmem \<Rightarrow> u32" where
  "memfind s c n m = memfind_loop s (s + n) (ucast c) m"

section \<open>Strings\<close>

partial_function (option) strlen_loop :: "cmem \<Rightarrow> u32 \<Rightarrow> u32 \<Rightarrow> u32 option" where
  "strlen_loop m s n = (if m s \<noteq> 0 then strlen_loop m (s + 1) (n + 1) else Some n)"

definition strlen :: "u32 \<Rightarrow> cmem \<Rightarrow> u32 option" where
  "strlen s m = strlen_loop m s 0"

fun strnlen_loop :: "nat \<Rightarrow> u32 \<Rightarrow> u32 \<Rightarrow> cmem \<Rightarrow> u32" where
  "strnlen_loop 0 s n m = n"
| "strnlen_loop (Suc sz) s n m = (if m s \<noteq> 0 then strnlen_loop sz (s + 1) (n + 1) m else n)"

definition strnlen :: "u32 \<Rightarrow> u32 \<Rightarrow> cmem \<Rightarrow> u32" where
  "strnlen s sz m = strnlen_loop (unat sz) s 0 m"

partial_function (option) strcpy :: "u32 \<Rightarrow> u32 \<Rightarrow> cmem \<Rightarrow> cmem option" where
  "strcpy dst src m = (let c = m src; m = m(dst := c) in if c \<noteq> 0 then strcpy (dst + 1) (src + 1) m else Some m)"

fun strncpy_loop :: "nat \<Rightarrow> u32 \<Rightarrow> u32 \<Rightarrow> cmem \<Rightarrow> cmem" where
  "strncpy_loop 0 dst src m = m"
| "strncpy_loop (Suc n) dst src m =
     (let m = m(dst := m src) in strncpy_loop n (dst + 1) (if m src \<noteq> 0 then src + 1 else src) m)"

definition strncpy :: "u32 \<Rightarrow> u32 \<Rightarrow> u32 \<Rightarrow> cmem \<Rightarrow> cmem" where
  "strncpy dst src sz m = strncpy_loop (unat sz) dst src m"

text \<open>The inner loop of \<^verbatim>\<open>strlcpy\<close> after the first decrement of the size.\<close>

fun strlcpy_loop :: "nat \<Rightarrow> u32 \<Rightarrow> u32 \<Rightarrow> cmem \<Rightarrow> u32 \<times> cmem" where
  "strlcpy_loop 0 dst src m = (dst, m)"
| "strlcpy_loop (Suc n) dst src m = (if m src \<noteq> 0 then strlcpy_loop n (dst + 1) (src + 1) (m(dst := m src)) else (dst, m))"

definition strlcpy :: "u32 \<Rightarrow> u32 \<Rightarrow> u32 \<Rightarrow> cmem \<Rightarrow> u32 \<times> cmem" where
  "strlcpy dst src sz m =
     (let (dst', m) = (if sz > 0 then let (d, m) = strlcpy_loop (unat sz - 1) dst src m in (d, m(d := 0)) else (dst, m))
      in (dst' - dst, m))"

partial_function (option) strcmp :: "u32 \<Rightarrow> u32 \<Rightarrow> cmem \<Rightarrow> int option" where
  "strcmp p q m = (if m p \<noteq> 0 \<and> m p = m q then strcmp (p + 1) (q + 1) m else Some (uint (m p) - uint (m q)))"

fun strncmp_loop :: "nat \<Rightarrow> u32 \<Rightarrow> u32 \<Rightarrow> cmem \<Rightarrow> int" where
  "strncmp_loop 0 p q m = 0"
| "strncmp_loop (Suc n) p q m = (if m p \<noteq> 0 \<and> m p = m q then strncmp_loop n (p + 1) (q + 1) m else uint (m p) - uint (m q))"

definition strncmp :: "u32 \<Rightarrow> u32 \<Rightarrow> u32 \<Rightarrow> cmem \<Rightarrow> int" where
  "strncmp p q n m = strncmp_loop (unat n) p q m"

partial_function (option) strchr :: "u32 \<Rightarrow> u8 \<Rightarrow> cmem \<Rightarrow> u32 option" where
  "strchr s c m = (if m s = 0 then Some 0 else if m s = c then Some s else strchr (s + 1) c m)"

partial_function (option) strfind :: "u32 \<Rightarrow> u8 \<Rightarrow> cmem \<Rightarrow> u32 option" where
  "strfind s c m = (if m s = 0 then Some s else if m s = c then Some s else strfind (s + 1) c m)"

section \<open>Numbers\<close>

definition digit :: "u8 \<Rightarrow> u32 option" where
  "digit c =
     (if 0x30 \<le> c \<and> c \<le> 0x39 then Some (ucast c - 0x30)
      else if 0x61 \<le> c \<and> c \<le> 0x7A then Some (ucast c - 0x61 + 10)
      else if 0x41 \<le> c \<and> c \<le> 0x5A then Some (ucast c - 0x41 + 10)
      else None)"

partial_function (option) skip_blank :: "u32 \<Rightarrow> cmem \<Rightarrow> u32 option" where
  "skip_blank s m = (if m s = 0x20 \<or> m s = 0x09 then skip_blank (s + 1) m else Some s)"

text \<open>The loop over the digits; the value is a 32-bit \<^verbatim>\<open>long\<close> and wraps around.\<close>

partial_function (option) strtol_digits :: "u32 \<Rightarrow> u32 \<Rightarrow> u32 \<Rightarrow> cmem \<Rightarrow> (u32 \<times> u32) option" where
  "strtol_digits s base val m =
     (case digit (m s) of None \<Rightarrow> Some (val, s)
      | Some dig \<Rightarrow> if sint dig \<ge> sint base then Some (val, s) else strtol_digits (s + 1) base (val * base + dig) m)"

text \<open>The value and the end pointer.\<close>

definition strtol :: "u32 \<Rightarrow> u32 \<Rightarrow> cmem \<Rightarrow> (u32 \<times> u32) option" where
  "strtol s base m =
     do {
       s \<leftarrow> skip_blank s m;
       let (s, neg) = (if m s = 0x2B then (s + 1, False) else if m s = 0x2D then (s + 1, True) else (s, False));
       let (s, base) =
         (if (base = 0 \<or> base = 16) \<and> m s = 0x30 \<and> m (s + 1) = 0x78 then (s + 2, 16)
          else if base = 0 \<and> m s = 0x30 then (s + 1, 8)
          else if base = 0 then (s, 10)
          else (s, base));
       (val, s) \<leftarrow> strtol_digits s base 0 m;
       Some (if neg then - val else val, s)
     }"

section \<open>Copying\<close>

lemma u32_pred:
  assumes "x \<noteq> (0 :: u32)"
  shows "unat (x - 1) = unat x - 1" and "0 < unat x"
  using assms unat_minus_one [of x] unat_gt_0 [of x] by simp_all

lemma movsb_spec:
  assumes "d = s \<or> n \<le> unat (d - s)" and "n \<le> 2 ^ 32"
  shows "movsb n d s m a = (if unat (a - d) < n then m (s + (a - d)) else m a)"
  using assms
proof (induction n arbitrary: d s m)
  case (Suc n)
  let ?m = "m(d := m s)"
  have IH: "movsb n (d + 1) (s + 1) ?m a = (if unat (a - (d + 1)) < n then ?m (s + 1 + (a - (d + 1))) else ?m a)"
    using Suc.prems by (intro Suc.IH) auto
  have s: "s + 1 + (a - (d + 1)) = s + (a - d)" "a - (d + 1) = a - d - 1"
    by (simp_all add: algebra_simps)
  show ?case
  proof (cases "a = d")
    case True
    have "unat (- 1 :: u32) = 2 ^ 32 - 1"
      by (simp add: unsigned_minus_1_eq_mask mask_eq_exp_minus_1)
    then show ?thesis
      using True IH Suc.prems(2) by (simp add: s)
  next
    case False
    then have ad: "unat (a - d - 1) = unat (a - d) - 1" "0 < unat (a - d)"
      using u32_pred [of "a - d"] by simp_all
    have "s + (a - d) \<noteq> d" if "unat (a - d) < Suc n"
    proof
      assume "s + (a - d) = d"
      then have "a - d = d - s"
        by (simp add: eq_diff_eq add.commute)
      then show False
        using Suc.prems(1) that ad(2) False by auto
    qed
    moreover have "unat (a - d) - 1 < n \<longleftrightarrow> unat (a - d) < Suc n"
      using ad(2) by linarith
    ultimately show ?thesis
      using IH False ad by (simp add: s)
  qed
qed simp

lemma movsb_down_spec:
  assumes "d = s \<or> n \<le> unat (s - d)" and "n \<le> 2 ^ 32"
  shows "movsb_down n d s m a = (if unat (d - a) < n then m (s - (d - a)) else m a)"
  using assms
proof (induction n arbitrary: d s m)
  case (Suc n)
  let ?m = "m(d := m s)"
  have IH: "movsb_down n (d - 1) (s - 1) ?m a = (if unat (d - 1 - a) < n then ?m (s - 1 - (d - 1 - a)) else ?m a)"
    using Suc.prems by (intro Suc.IH) auto
  have s: "s - 1 - (d - 1 - a) = s - (d - a)" "d - 1 - a = d - a - 1"
    by (simp_all add: algebra_simps)
  show ?case
  proof (cases "a = d")
    case True
    have "unat (- 1 :: u32) = 2 ^ 32 - 1"
      by (simp add: unsigned_minus_1_eq_mask mask_eq_exp_minus_1)
    then show ?thesis
      using True IH Suc.prems(2) by (simp add: s)
  next
    case False
    then have ad: "unat (d - a - 1) = unat (d - a) - 1" "0 < unat (d - a)"
      using u32_pred [of "d - a"] by simp_all
    have "s - (d - a) \<noteq> d" if "unat (d - a) < Suc n"
    proof
      assume "s - (d - a) = d"
      then have "d - a = s - d"
        by (metis add_diff_cancel_left' diff_add_cancel)
      then show False
        using Suc.prems(1) that ad(2) False by auto
    qed
    moreover have "unat (d - a) - 1 < n \<longleftrightarrow> unat (d - a) < Suc n"
      using ad(2) by linarith
    ultimately show ?thesis
      using False ad unfolding movsb_down.simps IH s by (simp add: algebra_simps)
  qed
qed simp

text \<open>The byte instructions are the loops of the portable version.\<close>

lemma movsb_eq_copy: "movsb n d s m = copy_up n d s m"
  by (induction n arbitrary: d s m) simp_all

lemma movsb_down_eq_copy: "movsb_down n (d - 1) (s - 1) m = copy_down n d s m"
proof (induction n arbitrary: d s m)
  case (Suc n)
  show ?case
    unfolding movsb_down.simps copy_down.simps Let_def by (rule Suc.IH)
qed simp

lemma stosb_eq_loop: "stosb n d c m = memset_loop n d c m"
  by (induction n arbitrary: d m) simp_all

text \<open>A word instruction on aligned addresses does the same as four byte instructions.\<close>

lemma word_bytes:
  fixes b0 b1 b2 b3 :: u8
  defines "w \<equiv> ucast b0 OR push_bit 8 (ucast b1) OR push_bit 16 (ucast b2) OR push_bit 24 (ucast b3) :: u32"
  shows "ucast w = b0" "ucast (drop_bit 8 w) = b1" "ucast (drop_bit 16 w) = b2" "ucast (drop_bit 24 w) = b3"
  unfolding w_def by (rule bit_word_eqI; auto simp: bit_simps dest: bit_imp_le_length)+

lemma st_ld_word:
  "st_word d (ld_word m s) m' = m'(d := m s, d + 1 := m (s + 1), d + 2 := m (s + 2), d + 3 := m (s + 3))"
  unfolding st_word_def ld_word_def word_bytes ..

lemma movsb_add: "movsb (k + n) d s m = movsb n (d + of_nat k) (s + of_nat k) (movsb k d s m)"
  by (induction k arbitrary: d s m) (simp_all add: add.assoc)

lemma movsb_down_add: "movsb_down (k + n) d s m = movsb_down n (d - of_nat k) (s - of_nat k) (movsb_down k d s m)"
  by (induction k arbitrary: d s m) (simp_all add: diff_diff_eq)

lemma unat_mod_4: "(x :: u32) mod 4 = 0 \<longleftrightarrow> unat x mod 4 = 0"
  using unat_mod [of x 4] by (simp add: unat_eq_0 [symmetric])

lemma unat_of_nat_u32: "of_nat (unat x) = (x :: u32)"
  by simp

lemma below_4:
  assumes "unat (x :: u32) < 4"
  shows "x = 0 \<or> x = 1 \<or> x = 2 \<or> x = 3"
proof -
  obtain k where "k < 4" "x = of_nat k"
    using assms unat_of_nat_u32 by metis
  then show ?thesis
    by (auto simp: less_Suc_eq numeral_eq_Suc)
qed

lemma aligned_distance:
  fixes d s :: u32
  assumes "d mod 4 = 0" and "s mod 4 = 0"
  shows "d = s \<or> 4 \<le> unat (d - s)"
proof (rule disjCI)
  assume far: "\<not> 4 \<le> unat (d - s)"
  have "4 dvd unat d" "4 dvd unat s"
    using assms by (simp_all add: unat_mod_4 mod_eq_0_iff_dvd)
  then have "4 dvd unat (d - s)"
    by (simp add: unat_sub_if')
  with far have "unat (d - s) = 0"
    by (meson dvd_imp_le not_gr_zero)
  then show "d = s"
    by (simp add: unat_eq_0)
qed

lemma word_step_up:
  assumes "d mod 4 = 0" and "s mod 4 = 0"
  shows "st_word d (ld_word m s) m = movsb 4 d s m"
proof
  fix a
  have "st_word d (ld_word m s) m a = (if unat (a - d) < 4 then m (s + (a - d)) else m a)"
  proof (cases "unat (a - d) < 4")
    case True
    then consider "a = d" | "a = d + 1" | "a = d + 2" | "a = d + 3"
      using below_4 [OF True] by (auto simp: diff_eq_eq add.commute)
    then show ?thesis
      using True by cases (simp_all add: st_ld_word)
  next
    case False
    then have "a \<noteq> d" "a \<noteq> d + 1" "a \<noteq> d + 2" "a \<noteq> d + 3"
      by auto
    then show ?thesis
      using False by (simp add: st_ld_word)
  qed
  then show "st_word d (ld_word m s) m a = movsb 4 d s m a"
    using movsb_spec [of d s 4 m a] aligned_distance [OF assms] by simp
qed

lemma word_step_down:
  assumes "d mod 4 = 0" and "s mod 4 = 0"
  shows "st_word d (ld_word m s) m = movsb_down 4 (d + 3) (s + 3) m"
proof
  fix a
  have "movsb_down 4 (d + 3) (s + 3) m a = (if unat (d + 3 - a) < 4 then m (s + 3 - (d + 3 - a)) else m a)"
    by (rule movsb_down_spec) (use aligned_distance [OF assms(2,1)] in auto)
  also have "\<dots> = st_word d (ld_word m s) m a"
  proof (cases "unat (d + 3 - a) < 4")
    case True
    then consider "a = d + 3" | "a = d + 2" | "a = d + 1" | "a = d"
      using below_4 [OF True] by (auto simp: algebra_simps)
    then show ?thesis
      using True by cases (simp_all add: st_ld_word add.commute [of 2 s] add.commute [of 1 s])
  next
    case False
    then have "a \<noteq> d" "a \<noteq> d + 1" "a \<noteq> d + 2" "a \<noteq> d + 3"
      by auto
    then show ?thesis
      using False by (simp add: st_ld_word)
  qed
  finally show "st_word d (ld_word m s) m a = movsb_down 4 (d + 3) (s + 3) m a" ..
qed

lemma aligned_next:
  fixes d :: u32
  assumes "d mod 4 = 0"
  shows "(d + 4) mod 4 = 0" and "(d - 4) mod 4 = 0"
proof -
  have "unat d mod 4 = 0"
    using assms by (simp add: unat_mod_4)
  moreover have "x mod 2 ^ 32 mod 4 = x mod (4 :: nat)" for x
    by (rule mod_mod_cancel) simp
  ultimately show "(d + 4) mod 4 = 0" "(d - 4) mod 4 = 0"
    by (simp_all add: unat_mod_4 unat_word_ariths unat_sub_if' mod_eq_0_iff_dvd)
qed

lemma movsl_eq: "d mod 4 = 0 \<Longrightarrow> s mod 4 = 0 \<Longrightarrow> movsl n d s m = movsb (4 * n) d s m"
proof (induction n arbitrary: d s m)
  case (Suc n)
  then show ?case
    using movsb_add [of 4 "4 * n" d s m] by (simp add: aligned_next word_step_up)
qed simp

lemma movsl_down_eq: "d mod 4 = 0 \<Longrightarrow> s mod 4 = 0 \<Longrightarrow> movsl_down n d s m = movsb_down (4 * n) (d + 3) (s + 3) m"
proof (induction n arbitrary: d s m)
  case (Suc n)
  then have "movsl_down (Suc n) d s m = movsb_down (4 * n) (d - 4 + 3) (s - 4 + 3) (movsb_down 4 (d + 3) (s + 3) m)"
    by (simp add: aligned_next word_step_down)
  then show ?case
    using movsb_down_add [of 4 "4 * n" "d + 3" "s + 3" m] by (simp add: algebra_simps)
qed simp

lemma stosb_spec: "n \<le> 2 ^ 32 \<Longrightarrow> stosb n d c m a = (if unat (a - d) < n then c else m a)"
proof (induction n arbitrary: d m)
  case (Suc n)
  have s: "a - (d + 1) = a - d - 1"
    by (simp add: algebra_simps)
  show ?case
  proof (cases "a = d")
    case True
    have "unat (- 1 :: u32) = 2 ^ 32 - 1"
      by (simp add: unsigned_minus_1_eq_mask mask_eq_exp_minus_1)
    then show ?thesis
      using Suc True by (simp add: s)
  next
    case False
    then have ad: "unat (a - d - 1) = unat (a - d) - 1" "0 < unat (a - d)"
      using u32_pred [of "a - d"] by simp_all
    have "unat (a - d) - 1 < n \<longleftrightarrow> unat (a - d) < Suc n"
      using ad(2) by linarith
    then show ?thesis
      using Suc False ad by (simp add: s)
  qed
qed simp

lemma stosb_add: "stosb (k + n) d c m = stosb n (d + of_nat k) c (stosb k d c m)"
  by (induction k arbitrary: d m) (simp_all add: add.assoc)

lemma replicated_bytes:
  fixes c :: u32
  defines "w \<equiv> push_bit 24 (c AND 0xFF) OR push_bit 16 (c AND 0xFF) OR push_bit 8 (c AND 0xFF) OR (c AND 0xFF)"
  shows "(ucast w :: u8) = ucast c" "(ucast (drop_bit 8 w) :: u8) = ucast c"
    "(ucast (drop_bit 16 w) :: u8) = ucast c" "(ucast (drop_bit 24 w) :: u8) = ucast c"
proof -
  have m: "(0xFF :: u32) = mask 8"
    by (simp add: mask_eq_exp_minus_1)
  have "c AND 0xFF = ucast (ucast c :: u8)"
    unfolding m by (rule bit_word_eqI) (auto simp: bit_simps)
  then have "w = ucast (ucast c :: u8) OR push_bit 8 (ucast (ucast c :: u8)) OR push_bit 16 (ucast (ucast c :: u8)) OR push_bit 24 (ucast (ucast c :: u8))"
    by (simp add: w_def ac_simps)
  then show "(ucast w :: u8) = ucast c" "(ucast (drop_bit 8 w) :: u8) = ucast c"
    "(ucast (drop_bit 16 w) :: u8) = ucast c" "(ucast (drop_bit 24 w) :: u8) = ucast c"
    by (simp_all only: word_bytes)
qed

lemma stosl_eq:
  assumes "(ucast w :: u8) = c" "(ucast (drop_bit 8 w) :: u8) = c" "(ucast (drop_bit 16 w) :: u8) = c" "(ucast (drop_bit 24 w) :: u8) = c"
  shows "stosl n d w m = stosb (4 * n) d c m"
proof (induction n arbitrary: d m)
  case (Suc n)
  have "stosb 4 d c m = m(d := c, d + 1 := c, d + 2 := c, d + 3 := c)"
    by (simp add: numeral_eq_Suc add.assoc)
  then have "st_word d w m = stosb 4 d c m"
    by (simp add: st_word_def assms)
  then show ?case
    using Suc stosb_add [of 4 "4 * n" d c m] by simp
qed simp

section \<open>Properties of the block functions\<close>

lemma word_count: "(n :: u32) mod 4 = 0 \<Longrightarrow> 4 * unat (n div 4) = unat n"
  by (simp add: unat_mod_4 unat_div mult.commute [of 4] dvd_div_mult_self mod_eq_0_iff_dvd del: dvd_imp_mod_0)

lemma memmove_bytes:
  "memmove dst src n m =
     (if src < dst \<and> src + n > dst then movsb_down (unat n) (dst + n - 1) (src + n - 1) m else movsb (unat n) dst src m)"
proof -
  have "movsl_down (unat (n div 4)) (d - 4) (s - 4) m = movsb_down (unat n) (d - 1) (s - 1) m"
    if "s mod 4 = 0" "d mod 4 = 0" "n mod 4 = 0" for s d
    using movsl_down_eq [OF aligned_next(2) [OF that(2)] aligned_next(2) [OF that(1)], of "unat (n div 4)" m]
    by (simp add: word_count [OF that(3)] algebra_simps)
  moreover have "movsl (unat (n div 4)) d s m = movsb (unat n) d s m"
    if "s mod 4 = 0" "d mod 4 = 0" "n mod 4 = 0" for s d
    using movsl_eq [OF that(2,1)] word_count [OF that(3)] by simp
  ultimately show ?thesis
    unfolding memmove_def Let_def by simp
qed

lemma memset_bytes: "memset v c n m = stosb (unat n) v (ucast c) m"
proof (cases "v mod 4 = 0 \<and> n mod 4 = 0 \<and> n \<noteq> 0")
  case True
  have "stosl k v (push_bit 24 (c AND 0xFF) OR push_bit 16 (c AND 0xFF) OR push_bit 8 (c AND 0xFF) OR (c AND 0xFF)) m
      = stosb (4 * k) v (ucast c) m" for k
    by (rule stosl_eq; rule replicated_bytes)
  then show ?thesis
    using True unfolding memset_def Let_def by (simp only: word_count if_False if_True simp_thms)
next
  case False
  then show ?thesis
    unfolding memset_def Let_def by auto
qed

text \<open>
  C28. The assembly versions of \<^verbatim>\<open>memmove\<close> and \<^verbatim>\<open>memset\<close>, which copy and fill whole words when the addresses and the length
  are multiples of four, do the same as the portable byte loops, for all arguments (for \<^verbatim>\<open>memset\<close>, whose portable version
  counts in a signed integer, below 2 GB).
\<close>

theorem asm_versions_equivalent:
  "memmove dst src n m = memmove_c dst src n m \<and> (unat k < 2 ^ 31 \<longrightarrow> memset v c k m = memset_c v c k m)"
proof (intro conjI impI)
  show "memmove dst src n m = memmove_c dst src n m"
    by (simp add: memmove_bytes memmove_c_def movsb_eq_copy movsb_down_eq_copy)
next
  assume "unat k < 2 ^ 31"
  then have k: "nat (sint k) = unat k"
    by (simp add: sint_eq_unat)
  then show "memset v c k m = memset_c v c k m"
    by (simp add: memset_bytes memset_c_def stosb_eq_loop)
qed

theorem asm_versions_equivalent_witness:
  "unat (8 :: u32) < 2 ^ 31 \<and> memset 16 7 8 (\<lambda>_. 0) = memset_c 16 7 8 (\<lambda>_. 0)"
  using asm_versions_equivalent [of 0 0 0 "\<lambda>_. 0" 8 16 7] by simp

lemma reversed_range:
  assumes "n \<noteq> (0 :: u32)"
  shows "unat (d + n - 1 - a) < unat n \<longleftrightarrow> unat (a - d) < unat n"
proof -
  have e: "d + n - 1 - a = (n - 1) - (a - d)"
    by (simp add: algebra_simps)
  show ?thesis
    unfolding e unat_sub_if' [of "n - 1"] u32_pred(1) [OF assms]
    using u32_pred(2) [OF assms] unat_u32_less [of "a - d"] by auto
qed

text \<open>
  C29. \<^verbatim>\<open>memmove\<close> copies correctly also between overlapping ranges, in both directions: when neither range runs over the end
  of the address space, every byte of the destination is the byte that the source had before the call, and no
  other byte changes. \<^verbatim>\<open>memset\<close> fills exactly its range.
\<close>

theorem memmove_correct:
  assumes src: "unat src + unat n \<le> 2 ^ 32" and dst: "unat dst + unat n \<le> 2 ^ 32"
  shows "memmove dst src n m a = (if unat (a - dst) < unat n then m (src + (a - dst)) else m a)
    \<and> memset dst c n m a = (if unat (a - dst) < unat n then ucast c else m a)"
proof
  have n: "unat n \<le> 2 ^ 32"
    using src by linarith
  show "memset dst c n m a = (if unat (a - dst) < unat n then ucast c else m a)"
    by (simp add: memset_bytes stosb_spec [OF n])
  show "memmove dst src n m a = (if unat (a - dst) < unat n then m (src + (a - dst)) else m a)"
  proof (cases "src < dst \<and> src + n > dst")
    case True
    then have less: "unat src < unat dst" and nz: "n \<noteq> 0"
      by (auto simp: word_less_nat_alt)
    have "movsb_down (unat n) (dst + n - 1) (src + n - 1) m a =
        (if unat (dst + n - 1 - a) < unat n then m (src + n - 1 - (dst + n - 1 - a)) else m a)"
      by (rule movsb_down_spec) (use dst n less in \<open>auto simp: unat_sub_if'\<close>)
    moreover have "src + n - 1 - (dst + n - 1 - a) = src + (a - dst)"
      by (simp add: algebra_simps)
    ultimately show ?thesis
      using True reversed_range [OF nz] by (simp add: memmove_bytes)
  next
    case False
    have "dst = src \<or> unat n \<le> unat (dst - src)"
    proof (cases "src < dst")
      case True
      then have "unat src < unat dst" "unat (src + n) \<le> unat dst"
        using False by (simp_all add: word_less_nat_alt not_less)
      then have "unat n \<le> unat (dst - src)"
        using dst by (simp add: unat_word_ariths unat_sub_if')
      then show ?thesis ..
    next
      case False
      then have "dst = src \<or> unat dst < unat src"
        by (metis linorder_neqE_nat unsigned_word_eqI word_less_nat_alt)
      then show ?thesis
        using src by (auto simp: unat_sub_if')
    qed
    then have "movsb (unat n) dst src m a = (if unat (a - dst) < unat n then m (src + (a - dst)) else m a)"
      by (rule movsb_spec [OF _ n])
    then show ?thesis
      using False unfolding memmove_bytes by (simp only: if_False)
  qed
qed

theorem memmove_correct_witness:
  "memmove 0x12 0x10 8 (\<lambda>a. ucast a) 0x14 = 0x12 \<and> memset 0x12 7 8 (\<lambda>a. ucast a) 0x14 = 7"
  using memmove_correct [of "0x10" 8 "0x12" "\<lambda>a. ucast a" "0x14" 7] by simp

section \<open>Strings in memory\<close>

text \<open>The bytes \<open>bs\<close> followed by the terminator are stored at \<open>a\<close>.\<close>

fun cstring :: "cmem \<Rightarrow> u32 \<Rightarrow> u8 list \<Rightarrow> bool" where
  "cstring m a [] \<longleftrightarrow> m a = 0"
| "cstring m a (b # bs) \<longleftrightarrow> b \<noteq> 0 \<and> m a = b \<and> cstring m (a + 1) bs"

declare strlen_loop.simps [code] strcpy.simps [code] strcmp.simps [code] strchr.simps [code] strfind.simps [code]
  skip_blank.simps [code] strtol_digits.simps [code]

lemma strlen_loop_cstring: "cstring m a bs \<Longrightarrow> strlen_loop m a n = Some (n + of_nat (length bs))"
proof (induction bs arbitrary: a n)
  case (Cons b bs)
  then show ?case
    by (subst strlen_loop.simps) (simp add: add.assoc)
qed (subst strlen_loop.simps, simp)

lemma strnlen_cstring:
  "cstring m a bs \<Longrightarrow> strnlen_loop k a n m = n + of_nat (min k (length bs))"
proof (induction bs arbitrary: a n k)
  case Nil
  then show ?case by (cases k) simp_all
next
  case (Cons b bs)
  then show ?case by (cases k) (simp_all add: add.assoc)
qed

lemma cstring_shift:
  assumes "\<And>i. i \<le> length bs \<Longrightarrow> m' (b + of_nat i) = m (a + of_nat i)"
  shows "cstring m' b bs = cstring m a bs"
  using assms
proof (induction bs arbitrary: a b)
  case Nil
  then show ?case by force
next
  case (Cons c bs)
  have "m' (b + 1 + of_nat i) = m (a + 1 + of_nat i)" if "i \<le> length bs" for i
    using Cons.prems [of "Suc i"] that by (simp add: add.assoc)
  then show ?case
    using Cons.IH [of "b + 1" "a + 1"] Cons.prems [of 0] by simp
qed

lemma cstring_nth:
  "cstring m a bs \<longleftrightarrow> (\<forall>i < length bs. bs ! i \<noteq> 0 \<and> m (a + of_nat i) = bs ! i) \<and> m (a + of_nat (length bs)) = 0"
proof (induction bs arbitrary: a)
  case (Cons b bs)
  have "(\<forall>i < length (b # bs). (b # bs) ! i \<noteq> 0 \<and> m (a + of_nat i) = (b # bs) ! i) \<longleftrightarrow>
      b \<noteq> 0 \<and> m a = b \<and> (\<forall>i < length bs. bs ! i \<noteq> 0 \<and> m (a + 1 + of_nat i) = bs ! i)"
    by (auto simp: All_less_Suc2 add.assoc)
  then show ?case
    by (simp add: Cons.IH add.assoc)
qed simp

lemma unat_of_nat_small: "i < 2 ^ 32 \<Longrightarrow> unat (of_nat i :: u32) = i"
  by (simp add: unat_of_nat)

lemma not_clobbered:
  fixes dst src :: u32
  assumes "dst = src \<or> n < unat (dst - src)" and "i < n" and "n < 2 ^ 32"
  shows "src + 1 + of_nat i \<noteq> dst"
proof
  assume "src + 1 + of_nat i = dst"
  then have "dst - src = of_nat (Suc i)"
    by (auto simp: algebra_simps)
  moreover from this have "unat (dst - src) = Suc i"
    using assms(2,3) unat_of_nat_small [of "Suc i"] by simp
  ultimately show False
    using assms by auto
qed

lemma strcpy_movsb:
  assumes "cstring m src bs" and "dst = src \<or> length bs < unat (dst - src)" and "length bs < 2 ^ 32"
  shows "strcpy dst src m = Some (movsb (Suc (length bs)) dst src m)"
  using assms
proof (induction bs arbitrary: dst src m)
  case Nil
  then show ?case
    by (subst strcpy.simps) simp
next
  case (Cons b bs)
  let ?m = "m(dst := m src)"
  have "cstring ?m (src + 1) bs"
    using Cons.prems(1) not_clobbered [OF Cons.prems(2)] Cons.prems(3)
    by (subst cstring_shift [of bs ?m "src + 1" m "src + 1"]) auto
  then have "strcpy (dst + 1) (src + 1) ?m = Some (movsb (Suc (length bs)) (dst + 1) (src + 1) ?m)"
    by (rule Cons.IH) (use Cons.prems in auto)
  then show ?case
    using Cons.prems(1) by (subst strcpy.simps) (simp add: Let_def)
qed

lemma strlcpy_movsb:
  assumes "cstring m src bs" and "dst = src \<or> length bs < unat (dst - src)" and "length bs < 2 ^ 32"
  shows "strlcpy_loop n dst src m = (dst + of_nat (min n (length bs)), movsb (min n (length bs)) dst src m)"
  using assms
proof (induction bs arbitrary: dst src m n)
  case Nil
  then show ?case
    by (cases n) simp_all
next
  case (Cons b bs)
  let ?m = "m(dst := m src)"
  have "cstring ?m (src + 1) bs"
    using Cons.prems(1) not_clobbered [OF Cons.prems(2)] Cons.prems(3)
    by (subst cstring_shift [of bs ?m "src + 1" m "src + 1"]) auto
  then have "strlcpy_loop k (dst + 1) (src + 1) ?m =
      (dst + 1 + of_nat (min k (length bs)), movsb (min k (length bs)) (dst + 1) (src + 1) ?m)" for k
    by (rule Cons.IH) (use Cons.prems in auto)
  then show ?case
    using Cons.prems(1) by (cases n) (simp_all add: add.assoc)
qed

lemma uint_u8: "x \<noteq> 0 \<Longrightarrow> 0 < uint (x :: u8)" "uint (x :: u8) = uint y \<longleftrightarrow> x = y" "uint x < uint y \<longleftrightarrow> x < y"
  by (auto simp: word_less_def less_le uint_0_iff intro: unsigned_word_eqI)

lemma strcmp_cstring:
  assumes "cstring m p bs" and "cstring m q cs"
  shows "\<exists>r. strcmp p q m = Some r \<and> (r = 0 \<longleftrightarrow> bs = cs) \<and> (r < 0 \<longleftrightarrow> (bs, cs) \<in> lexord {(x, y). x < y})"
  using assms
proof (induction bs arbitrary: p q cs)
  case Nil
  then show ?case
    by (subst strcmp.simps) (cases cs; auto simp: uint_u8 uint_0_iff)
next
  case (Cons b bs)
  show ?case
  proof (cases cs)
    case Nil
    then show ?thesis
      using Cons.prems by (subst strcmp.simps) (auto simp: uint_u8 uint_0_iff)
  next
    case (Cons c cs')
    show ?thesis
    proof (cases "b = c")
      case True
      then show ?thesis
        using Cons.IH [of "p + 1" "q + 1" cs'] Cons.prems \<open>cs = c # cs'\<close> by (subst strcmp.simps) simp
    next
      case False
      then show ?thesis
        using Cons.prems \<open>cs = c # cs'\<close> by (subst strcmp.simps) (simp add: uint_u8)
    qed
  qed
qed

lemma strfind_cstring: "cstring m a bs \<Longrightarrow> strfind a c m = Some (a + of_nat (length (takeWhile (\<lambda>x. x \<noteq> c) bs)))"
proof (induction bs arbitrary: a)
  case (Cons b bs)
  then show ?case
    by (subst strfind.simps) (simp add: add.assoc)
qed (subst strfind.simps, simp)

lemma strchr_cstring:
  "cstring m a bs \<Longrightarrow> strchr a c m = Some (if c \<in> set bs then a + of_nat (length (takeWhile (\<lambda>x. x \<noteq> c) bs)) else 0)"
proof (induction bs arbitrary: a)
  case (Cons b bs)
  then show ?case
    by (subst strchr.simps) (auto simp: add.assoc)
qed (subst strchr.simps, simp)

lemma movsb_string:
  assumes "k < 2 ^ 32" and "dst = src \<or> k < unat (dst - src)" and "i \<le> k"
  shows "movsb (Suc k) dst src m (dst + of_nat i) = m (src + of_nat i)"
  using movsb_spec [of dst src "Suc k" m "dst + of_nat i"] assms unat_of_nat_small [of i] by auto

text \<open>
  C30. The string functions on terminated strings: \<^verbatim>\<open>strlen\<close> and \<^verbatim>\<open>strnlen\<close> return the length, \<^verbatim>\<open>strcmp\<close> returns 0 exactly for
  equal strings and a negative number exactly when the first string is lexicographically smaller, \<^verbatim>\<open>strchr\<close> and
  \<^verbatim>\<open>strfind\<close> return the first occurrence of a character, and all of them return.
\<close>

theorem string_scans_correct:
  assumes p: "cstring m p bs" and q: "cstring m q cs"
  shows "strlen p m = Some (of_nat (length bs)) \<and> strnlen p n m = of_nat (min (unat n) (length bs))
    \<and> (\<exists>r. strcmp p q m = Some r \<and> (r = 0 \<longleftrightarrow> bs = cs) \<and> (r < 0 \<longleftrightarrow> (bs, cs) \<in> lexord {(x, y). x < y}))
    \<and> strchr p c m = Some (if c \<in> set bs then p + of_nat (length (takeWhile (\<lambda>x. x \<noteq> c) bs)) else 0)
    \<and> strfind p c m = Some (p + of_nat (length (takeWhile (\<lambda>x. x \<noteq> c) bs)))"
  using strlen_loop_cstring [OF p, of 0] strnlen_cstring [OF p, of "unat n" 0] strcmp_cstring [OF p q]
    strchr_cstring [OF p] strfind_cstring [OF p]
  by (simp add: strlen_def strnlen_def)

text \<open>A memory that holds one string, at address 0.\<close>

definition str_mem :: "u8 list \<Rightarrow> cmem" where
  "str_mem bs = (\<lambda>a. if unat a < length bs then bs ! unat a else 0)"

theorem string_scans_correct_witness:
  "strlen 0 (str_mem [0x61, 0x62]) = Some 2 \<and> strchr 0 0x62 (str_mem [0x61, 0x62]) = Some 1
   \<and> strcmp 0 1 (str_mem [0x61, 0x62]) \<noteq> Some 0"
proof -
  have p: "cstring (str_mem [0x61, 0x62]) 0 [0x61, 0x62]" and q: "cstring (str_mem [0x61, 0x62]) 1 [0x62]"
    by (simp_all add: str_mem_def)
  show ?thesis
    using string_scans_correct [OF p q, of 5 "0x62"] by auto
qed



end
