(* ===== verification/Printfmt.thy ===== *)
theory Printfmt
  imports Cstring Kstate
begin

text \<open>
  Formatted output, \<^verbatim>\<open>lib/printfmt.c\<close> with the two front ends \<^verbatim>\<open>kern/printf.c\<close> and \<^verbatim>\<open>lib/printf.c\<close>. The variable argument list
  is the list of 32-bit words on the stack; taking an argument that was not passed is \<open>None\<close>. The output is the list of
  the values given to \<^verbatim>\<open>putch\<close>, which the front ends consume. Field widths and precisions are unbounded integers.
\<close>

section \<open>Numbers\<close>

definition hex_digit :: "u64 \<Rightarrow> u32" where
  "hex_digit d = ucast (map byte_of ''0123456789abcdef'' ! unat d)"

partial_function (option) printnum :: "u64 \<Rightarrow> u64 \<Rightarrow> int \<Rightarrow> u32 \<Rightarrow> u32 list option" where
  "printnum num base width padc =
     do {
       out \<leftarrow> (if num \<ge> base then printnum (num div base) base (width - 1) padc
               else Some (replicate (nat (width - 1)) padc));
       Some (out @ [hex_digit (num mod base)])
     }"

section \<open>Arguments\<close>

fun va_arg :: "u32 list \<Rightarrow> (u32 \<times> u32 list) option" where
  "va_arg [] = None"
| "va_arg (a # ap) = Some (a, ap)"

fun va_arg64 :: "u32 list \<Rightarrow> (u64 \<times> u32 list) option" where
  "va_arg64 (lo # hi # ap) = Some (ucast lo OR push_bit 32 (ucast hi), ap)"
| "va_arg64 _ = None"

definition getuint :: "u32 list \<Rightarrow> nat \<Rightarrow> (u64 \<times> u32 list) option" where
  "getuint ap lflag = (if lflag \<ge> 2 then va_arg64 ap else map_option (\<lambda>(a, ap). (ucast a, ap)) (va_arg ap))"

definition getint :: "u32 list \<Rightarrow> nat \<Rightarrow> (u64 \<times> u32 list) option" where
  "getint ap lflag = (if lflag \<ge> 2 then va_arg64 ap else map_option (\<lambda>(a, ap). (scast a, ap)) (va_arg ap))"

section \<open>Strings\<close>

text \<open>The loop over the characters of \<^verbatim>\<open>%s\<close>, which also counts the width down; characters are signed.\<close>

partial_function (option) put_chars :: "cmem \<Rightarrow> u32 \<Rightarrow> int \<Rightarrow> int \<Rightarrow> bool \<Rightarrow> u32 list \<Rightarrow> (u32 list \<times> int) option" where
  "put_chars m p precision width altflag out =
     (let ch = scast (m p) :: u32
      in if ch \<noteq> 0 \<and> (precision < 0 \<or> precision - 1 \<ge> 0)
         then put_chars m (p + 1) (if precision < 0 then precision else precision - 1) (width - 1) altflag
                (out @ [if altflag \<and> (sint ch < 0x20 \<or> sint ch > 0x7E) then 0x3F else ch])
         else Some (out, width))"

text \<open>\<^verbatim>\<open>strnlen\<close> with the precision converted to an unsigned size, where -1 is no limit.\<close>

definition put_string :: "cmem \<Rightarrow> u32 \<Rightarrow> int \<Rightarrow> int \<Rightarrow> u32 \<Rightarrow> bool \<Rightarrow> u32 list option" where
  "put_string m p width precision padc altflag =
     (let (pad, width) =
        (if width > 0 \<and> padc \<noteq> 0x2D
         then let w = width - sint (strnlen p (of_int precision) m) in (replicate (nat w) padc, if w > 0 then 0 else w)
         else ([], width))
      in do {
        (out, width) \<leftarrow> put_chars m p precision width altflag [];
        Some (pad @ out @ replicate (nat width) 0x20)
      })"

definition error_string :: "string list" where
  "error_string = ['''', ''unspecified error'', ''bad environment'', ''invalid parameter'', ''out of memory'',
     ''out of environments'', ''segmentation fault'', ''env is not recving'', ''unexpected end of file'',
     ''no free space on disk'', ''too many files are open'', ''file or block not found'', ''invalid path'',
     ''file already exists'', ''file is not a valid executable'']"

definition MAXERROR :: int where [const_defs]: "MAXERROR = 14"

text \<open>The bytes of a string constant of the program.\<close>

definition bytes :: "string \<Rightarrow> u8 list" where
  "bytes cs = map byte_of cs"

section \<open>The formatter\<close>

record pfmt =
  padc :: u32
  width :: int
  precision :: int
  lflag :: nat
  altflag :: bool

definition pfmt_start :: pfmt where
  "pfmt_start = \<lparr>padc = 0x20, width = -1, precision = -1, lflag = 0, altflag = False\<rparr>"

definition process_precision :: "pfmt \<Rightarrow> pfmt" where
  "process_precision f = (if width f < 0 then f\<lparr>width := precision f, precision := -1\<rparr> else f)"

text \<open>The loop over the digits of a width, started with the first digit \<open>ch\<close>.\<close>

partial_function (option) width_digits :: "cmem \<Rightarrow> u32 \<Rightarrow> u8 \<Rightarrow> int \<Rightarrow> (int \<times> u32) option" where
  "width_digits m fmt ch n =
     (let n = n * 10 + uint ch - 0x30; ch = m fmt
      in if ch < 0x30 \<or> ch > 0x39 then Some (n, fmt) else width_digits m (fmt + 1) ch n)"

text \<open>Back to the character after the percent sign of an unrecognised escape.\<close>

partial_function (option) rewind :: "cmem \<Rightarrow> u32 \<Rightarrow> u32 option" where
  "rewind m fmt = (if m (fmt - 1) = 0x25 then Some fmt else rewind m (fmt - 1))"

text \<open>The digits of a number, after its sign or prefix.\<close>

definition put_number :: "u32 list \<Rightarrow> u64 \<Rightarrow> u64 \<Rightarrow> pfmt \<Rightarrow> u32 list option" where
  "put_number pre num base f = map_option (\<lambda>out. pre @ out) (printnum num base (width f) (padc f))"

definition put_signed :: "u64 \<Rightarrow> pfmt \<Rightarrow> u32 list option" where
  "put_signed num f = (if sint num < 0 then put_number [0x2D] (- num) 10 f else put_number [] num 10 f)"

text \<open>
  \<^verbatim>\<open>%e\<close>: the two inner calls of \<^verbatim>\<open>printfmt\<close> start with fresh flags. The smallest integer has no negation and is no code.
\<close>

definition put_error :: "int \<Rightarrow> u32 list option" where
  "put_error err =
     (if err = - (2 ^ 31) then None
      else let err = \<bar>err\<bar>
      in if err > MAXERROR \<or> err = 0
         then map_option (\<lambda>out. map ucast (bytes ''error '') @ out) (put_signed (of_int err) pfmt_start)
         else put_string (str_mem (bytes (error_string ! nat err))) 0 (-1) (-1) 0x20 False)"

text \<open>
  One iteration of \<^verbatim>\<open>vprintfmt\<close>: a character of the text, or one character after a percent sign. The state is the format
  pointer, the arguments left, the flags when inside an escape, and the output; \<open>Inl\<close> is the return.
\<close>

type_synonym pstate = "u32 \<times> u32 list \<times> pfmt option \<times> u32 list"

definition literal_step :: "cmem \<Rightarrow> u32 \<Rightarrow> u32 list \<Rightarrow> u32 list \<Rightarrow> (u32 list + pstate)" where
  "literal_step m fmt ap out =
     (let ch = m fmt
      in if ch = 0x25 then Inr (fmt + 1, ap, Some pfmt_start, out)
         else if ch = 0 then Inl out
         else Inr (fmt + 1, ap, None, out @ [ucast ch]))"

definition escape_step :: "cmem \<Rightarrow> u32 \<Rightarrow> u32 list \<Rightarrow> pfmt \<Rightarrow> u32 list \<Rightarrow> pstate option" where
  "escape_step m fmt ap f out =
     (let ch = m fmt; fmt = fmt + 1
      in if ch = 0x2D then Some (fmt, ap, Some (f\<lparr>padc := 0x2D\<rparr>), out)
         else if ch = 0x30 then Some (fmt, ap, Some (f\<lparr>padc := 0x30\<rparr>), out)
         else if 0x31 \<le> ch \<and> ch \<le> 0x39 then
           do { (n, fmt) \<leftarrow> width_digits m fmt ch 0; Some (fmt, ap, Some (process_precision (f\<lparr>precision := n\<rparr>)), out) }
         else if ch = 0x2A then
           do { (n, ap) \<leftarrow> va_arg ap; Some (fmt, ap, Some (process_precision (f\<lparr>precision := sint n\<rparr>)), out) }
         else if ch = 0x2E then Some (fmt, ap, Some (if width f < 0 then f\<lparr>width := 0\<rparr> else f), out)
         else if ch = 0x23 then Some (fmt, ap, Some (f\<lparr>altflag := True\<rparr>), out)
         else if ch = 0x6C then Some (fmt, ap, Some (f\<lparr>lflag := lflag f + 1\<rparr>), out)
         else if ch = 0x63 then
           do { (c, ap) \<leftarrow> va_arg ap; Some (fmt, ap, None, out @ [c]) }
         else if ch = 0x65 then
           do { (e, ap) \<leftarrow> va_arg ap; o1 \<leftarrow> put_error (sint e); Some (fmt, ap, None, out @ o1) }
         else if ch = 0x73 then
           do { (p, ap) \<leftarrow> va_arg ap;
                o1 \<leftarrow> (if p = 0 then put_string (str_mem (bytes ''(null)'')) 0 (width f) (precision f) (padc f) (altflag f)
                       else put_string m p (width f) (precision f) (padc f) (altflag f));
                Some (fmt, ap, None, out @ o1) }
         else if ch = 0x64 then
           do { (num, ap) \<leftarrow> getint ap (lflag f); o1 \<leftarrow> put_signed num f; Some (fmt, ap, None, out @ o1) }
         else if ch = 0x75 then
           do { (num, ap) \<leftarrow> getuint ap (lflag f); o1 \<leftarrow> put_number [] num 10 f; Some (fmt, ap, None, out @ o1) }
         else if ch = 0x6F then
           do { (num, ap) \<leftarrow> getuint ap (lflag f); o1 \<leftarrow> put_number [] num 8 f; Some (fmt, ap, None, out @ o1) }
         else if ch = 0x70 then
           do { (p, ap) \<leftarrow> va_arg ap; o1 \<leftarrow> put_number [0x30, 0x78] (ucast p) 16 f; Some (fmt, ap, None, out @ o1) }
         else if ch = 0x78 then
           do { (num, ap) \<leftarrow> getuint ap (lflag f); o1 \<leftarrow> put_number [] num 16 f; Some (fmt, ap, None, out @ o1) }
         else if ch = 0x25 then Some (fmt, ap, None, out @ [0x25])
         else do { fmt \<leftarrow> rewind m (fmt - 1); Some (fmt, ap, None, out @ [0x25]) })"

definition vprintfmt_step :: "cmem \<Rightarrow> pstate \<Rightarrow> (u32 list + pstate) option" where
  "vprintfmt_step m st =
     (case st of (fmt, ap, esc, out) \<Rightarrow>
        (case esc of None \<Rightarrow> Some (literal_step m fmt ap out)
         | Some f \<Rightarrow> map_option Inr (escape_step m fmt ap f out)))"

definition is_return :: "'a + 'b \<Rightarrow> bool" where
  "is_return r = (case r of Inl _ \<Rightarrow> True | Inr _ \<Rightarrow> False)"

partial_function (option) vprintfmt_loop :: "cmem \<Rightarrow> pstate \<Rightarrow> u32 list option" where
  "vprintfmt_loop m st =
     do { r \<leftarrow> vprintfmt_step m st; if is_return r then Some (projl r) else vprintfmt_loop m (projr r) }"

definition vprintfmt :: "cmem \<Rightarrow> u32 \<Rightarrow> u32 list \<Rightarrow> u32 list option" where
  "vprintfmt m fmt ap = vprintfmt_loop m (fmt, ap, None, [])"

section \<open>The front ends\<close>

record sprintbuf =
  sb_buf :: u32
  sb_ebuf :: u32
  sb_cnt :: u32

definition sprintputch :: "u32 \<Rightarrow> sprintbuf \<times> cmem \<Rightarrow> sprintbuf \<times> cmem" where
  "sprintputch ch s =
     (let b = fst s; b = b\<lparr>sb_cnt := sb_cnt b + 1\<rparr>
      in if sb_buf b < sb_ebuf b then (b\<lparr>sb_buf := sb_buf b + 1\<rparr>, (snd s)(sb_buf b := ucast ch)) else (b, snd s))"

text \<open>\<^verbatim>\<open>vsnprintf\<close>, for a buffer that holds neither the format nor the strings among the arguments.\<close>

definition vsnprintf :: "u32 \<Rightarrow> u32 \<Rightarrow> u32 \<Rightarrow> u32 list \<Rightarrow> cmem \<Rightarrow> (int \<times> cmem) option" where
  "vsnprintf buf n fmt ap m =
     (if buf = 0 \<or> sint n < 1 then Some (- E_INVAL, m)
      else do {
        out \<leftarrow> vprintfmt m fmt ap;
        let (b, m) = fold sprintputch out (\<lparr>sb_buf = buf, sb_ebuf = buf + n - 1, sb_cnt = 0\<rparr>, m);
        Some (sint (sb_cnt b), m(sb_buf b := 0))
      })"

text \<open>
  The buffered output of \<^verbatim>\<open>lib/printf.c\<close>: the bytes of each system call made, most recent first, the buffer and the count.
\<close>

record printbuf =
  pb_buf :: "u8 list"
  pb_cnt :: nat
  pb_calls :: "u8 list list"

definition printbuf_putch :: "u32 \<Rightarrow> printbuf \<Rightarrow> printbuf" where
  "printbuf_putch ch b =
     (let b = b\<lparr>pb_buf := pb_buf b @ [ucast ch]\<rparr>;
          b = (if length (pb_buf b) = 256 - 1 then b\<lparr>pb_calls := pb_buf b # pb_calls b, pb_buf := []\<rparr> else b)
      in b\<lparr>pb_cnt := pb_cnt b + 1\<rparr>)"

definition vcprintf :: "cmem \<Rightarrow> u32 \<Rightarrow> u32 list \<Rightarrow> (nat \<times> u8 list list) option" where
  "vcprintf m fmt ap =
     do {
       out \<leftarrow> vprintfmt m fmt ap;
       let b = fold printbuf_putch out \<lparr>pb_buf = [], pb_cnt = 0, pb_calls = []\<rparr>;
       Some (pb_cnt b, rev (pb_buf b # pb_calls b))
     }"

text \<open>
  The kernel's \<^verbatim>\<open>putch\<close> prints to the display and increments the pointer \<^verbatim>\<open>cnt\<close>, not the counter it points to, so that the
  count that \<^verbatim>\<open>vcprintf\<close> returns stays 0.
\<close>

definition kern_vcprintf :: "cmem \<Rightarrow> u32 \<Rightarrow> u32 list \<Rightarrow> crt \<Rightarrow> (int \<times> crt) option" where
  "kern_vcprintf m fmt ap d = do { out \<leftarrow> vprintfmt m fmt ap; Some (0, fold cga_putc out d) }"

section \<open>Digits\<close>

text \<open>The digits of a number, most significant first, and their value.\<close>

fun ndigits :: "nat \<Rightarrow> nat \<Rightarrow> nat list" where
  "ndigits b n = (if b < 2 \<or> n < b then [n] else ndigits b (n div b) @ [n mod b])"

declare ndigits.simps [simp del]

definition value_of :: "nat \<Rightarrow> nat list \<Rightarrow> nat" where
  "value_of b ds = foldl (\<lambda>v d. v * b + d) 0 ds"

lemma ndigits_value: "2 \<le> b \<Longrightarrow> value_of b (ndigits b n) = n"
proof (induction b n rule: ndigits.induct)
  case (1 b n)
  show ?case
  proof (cases "n < b")
    case False
    then have "value_of b (ndigits b (n div b)) = n div b"
      using 1 by simp
    then show ?thesis
      using False 1(2) by (subst ndigits.simps) (simp add: value_of_def)
  qed (use 1(2) in \<open>subst ndigits.simps, simp add: value_of_def\<close>)
qed

lemma ndigits_less: "2 \<le> b \<Longrightarrow> d \<in> set (ndigits b n) \<Longrightarrow> d < b"
proof (induction b n rule: ndigits.induct)
  case (1 b n)
  show ?case
  proof (cases "n < b")
    case True
    then show ?thesis
      using 1(2,3) by (simp add: ndigits.simps [of b n])
  next
    case False
    then have "d \<in> set (ndigits b (n div b)) \<or> d = n mod b"
      using 1(2,3) by (auto simp: ndigits.simps [of b n])
    then show ?thesis
      using 1(1) [OF _ 1(2)] False 1(2) by auto
  qed
qed

lemma ndigits_length: "0 < length (ndigits b n)"
  by (subst ndigits.simps) simp

lemma printnum_digits:
  assumes base: "2 \<le> unat base"
  shows "printnum num base w pc = Some (replicate (nat (w - int (length (ndigits (unat base) (unat num))))) pc
    @ map (hex_digit \<circ> of_nat) (ndigits (unat base) (unat num)))"
proof (induction "unat num" arbitrary: num w rule: less_induct)
  case less
  let ?b = "unat base" and ?n = "unat num"
  have d: "hex_digit (num mod base) = (hex_digit \<circ> of_nat) (?n mod ?b)"
    by (simp add: unat_mod [symmetric])
  show ?case
  proof (cases "num \<ge> base")
    case True
    then have big: "?b \<le> ?n" "unat (num div base) = ?n div ?b"
      by (simp_all add: word_le_nat_alt unat_div)
    then have "?n div ?b < ?n"
      using base by (simp add: div_less_dividend)
    then have "printnum (num div base) base (w - 1) pc =
        Some (replicate (nat (w - 1 - int (length (ndigits ?b (?n div ?b))))) pc @ map (hex_digit \<circ> of_nat) (ndigits ?b (?n div ?b)))"
      using less.hyps [of "num div base"] big(2) by simp
    moreover have "ndigits ?b ?n = ndigits ?b (?n div ?b) @ [?n mod ?b]"
      using base big(1) by (subst ndigits.simps) simp
    ultimately show ?thesis
      using True d by (subst printnum.simps) (simp add: algebra_simps)
  next
    case False
    then have less': "?n < ?b"
      by (simp add: word_le_nat_alt not_le)
    then have "unat (num mod base) = unat num"
      by (simp add: unat_mod)
    then have "num mod base = num"
      by (rule unsigned_word_eqI)
    moreover have "ndigits ?b ?n = [?n]"
      using less' by (simp add: ndigits.simps)
    ultimately show ?thesis
      using False by (subst printnum.simps) simp
  qed
qed

text \<open>The characters printed for digits are read back as the digits.\<close>

definition digit_char :: "nat \<Rightarrow> u8" where
  "digit_char d = ucast (hex_digit (of_nat d))"

lemma hex_chars: "map byte_of ''0123456789abcdef'' = map (\<lambda>d. if d < 10 then of_nat (48 + d) else of_nat (87 + d)) [0..<16]"
  by (simp add: byte_of_def upt_rec)

lemma hex_digit_nth: "d < 16 \<Longrightarrow> hex_digit (of_nat d) = ucast (if d < 10 then of_nat (48 + d) else of_nat (87 + d) :: u8)"
  unfolding hex_digit_def hex_chars by (simp add: unat_of_nat)

lemma ucast_of_nat_byte: "k < 256 \<Longrightarrow> ucast (of_nat k :: u8) = (of_nat k :: u32)"
  by (simp add: unsigned_of_nat take_bit_nat_eq_self)

lemma digit_char:
  assumes "d < 16"
  shows "digit (digit_char d) = Some (of_nat d)" and "digit_char d \<notin> {0, 0x20, 0x09, 0x2B, 0x2D, 0x78}"
    and "hex_digit (of_nat d) = ucast (digit_char d)"
proof -
  let ?k = "if d < 10 then 48 + d else 87 + d"
  have c: "digit_char d = of_nat ?k"
    using assms by (simp add: digit_char_def hex_digit_nth)
  have u: "unat (digit_char d) = ?k"
    using assms unfolding c by (simp add: unat_of_nat)
  have w: "(ucast (digit_char d) :: u32) = of_nat ?k"
    using assms unfolding c by (intro ucast_of_nat_byte) simp
  show "hex_digit (of_nat d) = ucast (digit_char d)"
    using assms by (simp add: digit_char_def hex_digit_nth)
  show "digit_char d \<notin> {0, 0x20, 0x09, 0x2B, 0x2D, 0x78}"
    using u assms by (auto split: if_splits)
  show "digit (digit_char d) = Some (of_nat d)"
    using u assms unfolding digit_def word_le_nat_alt w by simp
qed

lemma strtol_digits_read:
  assumes "cstring m s (map digit_char ds)" and "\<forall>d \<in> set ds. d < unat base" and "unat base \<le> 16"
  shows "strtol_digits s base val m = Some (foldl (\<lambda>v d. v * base + of_nat d) val ds, s + of_nat (length ds))"
  using assms
proof (induction ds arbitrary: s val)
  case Nil
  have "digit 0 = None"
    by (simp add: digit_def)
  then show ?case
    using Nil by (subst strtol_digits.simps) simp
next
  case (Cons d ds)
  have d: "d < unat base" "d < 16"
    using Cons.prems(2,3) by auto
  have small: "sint (of_nat d :: u32) = int d" "sint base = int (unat base)"
    using d Cons.prems(3) by (simp_all add: sint_eq_unat unat_of_nat)
  have le: "\<not> sint base \<le> sint (of_nat d :: u32)"
    unfolding small using d(1) by (simp only: of_nat_le_iff not_le)
  have "strtol_digits (s + 1) base (val * base + of_nat d) m =
      Some (foldl (\<lambda>v d. v * base + of_nat d) (val * base + of_nat d) ds, s + 1 + of_nat (length ds))"
    by (rule Cons.IH) (use Cons.prems in simp_all)
  then show ?case
    using Cons.prems(1) digit_char(1) [OF d(2)] le
    by (subst strtol_digits.simps) (simp add: add.assoc)
qed

lemma foldl_value: "foldl (\<lambda>v d. v * base + of_nat d) (of_nat v) ds = of_nat (foldl (\<lambda>v d. v * unat base + d) v ds)" for base :: u32
proof (induction ds arbitrary: v)
  case (Cons d ds)
  have "of_nat v * base + of_nat d = of_nat (v * unat base + d)"
    by simp
  then show ?case
    using Cons.IH [of "v * unat base + d"] by (simp only: foldl.simps)
qed simp

lemma strtol_reads:
  assumes s: "cstring m s (map digit_char (d # ds))" and less: "\<forall>x \<in> set (d # ds). x < unat base"
    and base: "2 \<le> unat base" "unat base \<le> 16"
  shows "strtol s base m = Some (of_nat (value_of (unat base) (d # ds)), s + of_nat (length (d # ds)))"
proof -
  have d: "d < 16" "m s = digit_char d"
    using less base s by auto
  then have c: "m s \<noteq> 0x20" "m s \<noteq> 0x09" "m s \<noteq> 0x2B" "m s \<noteq> 0x2D"
    using digit_char(2) [OF d(1)] by auto
  have "m (s + 1) \<noteq> 0x78"
    using s less base digit_char(2) by (cases ds) auto
  moreover have "base \<noteq> 0"
    using base by auto
  moreover have "skip_blank s m = Some s"
    using c by (subst skip_blank.simps) simp
  moreover have "strtol_digits s base 0 m = Some (of_nat (value_of (unat base) (d # ds)), s + of_nat (length (d # ds)))"
    using strtol_digits_read [OF s less base(2), of 0] foldl_value [of base 0 "d # ds"] by (simp add: value_of_def)
  ultimately show ?thesis
    using c by (simp add: strtol_def)
qed

lemma value_of_zeros: "value_of b (replicate k 0 @ ds) = value_of b ds"
  by (induction k) (simp_all add: value_of_def)

section \<open>Properties\<close>

text \<open>
  C32. What \<^verbatim>\<open>printnum\<close> prints in base 8, 10 or 16, padded with zeros to any width, \<^verbatim>\<open>strtol\<close> reads back in that base as the same
  number, up to the end of the digits; printing always ends, and pads to exactly the width.
\<close>

theorem print_parse_roundtrip:
  assumes base: "base \<in> {8, 10, 16}"
  shows "\<exists>ds. printnum (ucast num) (ucast base) w 0x30 = Some (map ucast ds) \<and> int (length ds) \<ge> w
    \<and> (\<forall>m s. cstring m s ds \<longrightarrow> strtol s base m = Some (num :: u32, s + of_nat (length ds)))"
proof -
  let ?b = "unat base" and ?n = "unat num"
  have b: "2 \<le> ?b" "?b \<le> 16" "unat (ucast base :: u64) = ?b" "unat (ucast num :: u64) = ?n"
    using base by (auto simp: unsigned_ucast_eq take_bit_nat_eq_self unat_u32_less less_trans [OF unat_u32_less])
  define ns where "ns = replicate (nat (w - int (length (ndigits ?b ?n)))) 0 @ ndigits ?b ?n"
  have ns: "\<forall>x \<in> set ns. x < ?b" "ns \<noteq> []" "value_of ?b ns = ?n" "int (length ns) \<ge> w"
    using ndigits_less [OF b(1)] ndigits_length [of ?b ?n] ndigits_value [OF b(1)] b(1)
    by (auto simp: ns_def value_of_zeros)
  have chars: "map (hex_digit \<circ> of_nat) xs = map ucast (map digit_char xs)" if "\<forall>x \<in> set xs. x < ?b" for xs
    using that digit_char(3) b(2) by auto
  have zero: "0x30 = (hex_digit \<circ> of_nat) 0"
    by (simp add: hex_digit_def byte_of_def)
  have "printnum (ucast num) (ucast base) w 0x30 = Some (map (hex_digit \<circ> of_nat) ns)"
    using printnum_digits [of "ucast base" "ucast num" w "0x30"] b by (simp add: ns_def zero)
  then have "printnum (ucast num) (ucast base) w 0x30 = Some (map ucast (map digit_char ns))"
    using chars [OF ns(1)] by simp
  moreover have "strtol s base m = Some (num, s + of_nat (length (map digit_char ns)))" if "cstring m s (map digit_char ns)" for m s
  proof -
    obtain d ds where "ns = d # ds"
      using ns(2) by (cases ns) auto
    then show ?thesis
      using strtol_reads [of m s d ds base] that ns(1,3) b by simp
  qed
  ultimately show ?thesis
    using ns(4) by (intro exI [of _ "map digit_char ns"]) simp
qed

theorem print_parse_roundtrip_witness:
  "\<exists>ds. printnum 0x1F 16 4 0x30 = Some (map ucast ds) \<and> strtol 0 16 (str_mem ds) = Some (0x1F, of_nat (length ds))"
proof -
  obtain ds where ds: "printnum 0x1F 16 4 0x30 = Some (map ucast ds)"
    and rd: "\<forall>m s. cstring m s ds \<longrightarrow> strtol s 16 m = Some (0x1F :: u32, s + of_nat (length ds))"
    using print_parse_roundtrip [of 16 "0x1F" 4] by auto
  have two: "replicate 2 (0x30 :: u32) = [0x30, 0x30]"
    by (simp add: numeral_2_eq_2)
  have "ndigits 16 31 = [1, 15]"
    by (simp add: ndigits.simps)
  then have "printnum 0x1F 16 4 0x30 = Some (map ucast [0x30 :: u8, 0x30, 0x31, 0x66])"
    using printnum_digits [of 16 "0x1F" 4 "0x30"] hex_digit_nth [of 1] hex_digit_nth [of 15] by (simp add: two)
  then have "map (ucast :: u8 \<Rightarrow> u32) ds = map ucast [0x30 :: u8, 0x30, 0x31, 0x66]"
    using ds by simp
  moreover have "inj (ucast :: u8 \<Rightarrow> u32)"
    by (intro injI) (simp add: ucast_8_32_eq_iff)
  ultimately have "ds = [0x30, 0x30, 0x31, 0x66]"
    using inj_map_eq_map by blast
  then have "cstring (str_mem ds) 0 ds"
    by (simp add: str_mem_def)
  then show ?thesis
    using ds rd by auto
qed

lemma sprintputch_fold:
  assumes "p \<le> e"
  shows "fold sprintputch out (\<lparr>sb_buf = p, sb_ebuf = e, sb_cnt = c\<rparr>, m) =
    (let k = min (unat (e - p)) (length out)
     in (\<lparr>sb_buf = p + of_nat k, sb_ebuf = e, sb_cnt = c + of_nat (length out)\<rparr>,
         \<lambda>a. if unat (a - p) < k then ucast (out ! unat (a - p)) else m a))"
  using assms
proof (induction out arbitrary: p c m)
  case (Cons ch out)
  show ?case
  proof (cases "p < e")
    case True
    then have le: "p + 1 \<le> e"
      by (simp add: inc_le)
    have ep: "unat (e - p) = Suc (unat (e - (p + 1)))"
      using True u32_pred [of "e - p"] by (simp add: diff_diff_eq)
    let ?k = "min (unat (e - (p + 1))) (length out)"
    have mem: "(if unat (a - (p + 1)) < ?k then ucast (out ! unat (a - (p + 1))) else (m(p := ucast ch)) a)
        = (if unat (a - p) < Suc ?k then ucast ((ch # out) ! unat (a - p)) else m a)" for a
    proof (cases "a = p")
      case True
      have "unat (- 1 :: u32) = 2 ^ 32 - 1"
        by (simp add: unsigned_minus_1_eq_mask mask_eq_exp_minus_1)
      moreover have "?k < 2 ^ 32"
        using unat_u32_less [of "e - (p + 1)"] by (simp add: min_def)
      moreover have "unat (e - (p + 1)) \<le> 2 ^ 32 - 1"
        using unat_u32_less [of "e - (p + 1)"] by simp
      ultimately show ?thesis
        using True by simp
    next
      case False
      then have "unat (a - (p + 1)) = unat (a - p) - 1" "0 < unat (a - p)"
        using u32_pred [of "a - p"] by (simp_all add: diff_diff_eq)
      then show ?thesis
        using False by (cases "unat (a - p)") simp_all
    qed
    have "fold sprintputch (ch # out) (\<lparr>sb_buf = p, sb_ebuf = e, sb_cnt = c\<rparr>, m) =
        fold sprintputch out (\<lparr>sb_buf = p + 1, sb_ebuf = e, sb_cnt = c + 1\<rparr>, m(p := ucast ch))"
      using True by (simp add: sprintputch_def Let_def)
    then show ?thesis
      unfolding Cons.IH [OF le] Let_def mem ep by (simp add: add.assoc)
  next
    case False
    then have e: "e = p"
      using Cons.prems by simp
    have "fold sprintputch (ch # out) (\<lparr>sb_buf = p, sb_ebuf = e, sb_cnt = c\<rparr>, m) =
        fold sprintputch out (\<lparr>sb_buf = p, sb_ebuf = e, sb_cnt = c + 1\<rparr>, m)"
      using False by (simp add: sprintputch_def Let_def)
    then show ?thesis
      unfolding Cons.IH [OF Cons.prems] by (simp add: e add.assoc)
  qed
qed simp

text \<open>
  C33. \<^verbatim>\<open>vsnprintf\<close> never writes outside the \<open>n\<close> bytes of the buffer: it stores the formatted text, cut to \<open>n - 1\<close>
  characters, followed by a terminator, changes no other byte, and returns the length of the whole text.
\<close>

theorem vsnprintf_bounded:
  assumes buf: "buf \<noteq> 0" "1 \<le> sint n" "unat buf + unat n \<le> 2 ^ 32" and out: "vprintfmt m fmt ap = Some out"
    and k: "k = min (unat n - 1) (length out)"
  shows "\<exists>m'. vsnprintf buf n fmt ap m = Some (sint (of_nat (length out) :: u32), m') \<and> m' (buf + of_nat k) = 0
    \<and> (\<forall>i < k. m' (buf + of_nat i) = ucast (out ! i)) \<and> (\<forall>a. unat n \<le> unat (a - buf) \<longrightarrow> m' a = m a)"
proof -
  have n: "0 < unat n"
    using buf(2) sint_pos_iff [of n] by simp
  then have "n \<noteq> 0"
    by auto
  then have last: "unat (n - 1) = unat n - 1" "buf + n - 1 - buf = n - 1"
    using u32_pred(1) [of n] by simp_all
  then have le: "buf \<le> buf + n - 1"
    using buf(3) n by (simp add: word_le_nat_alt unat_word_ariths add_diff_eq [symmetric] del: add_diff_eq)
  let ?f = "\<lambda>a. if unat (a - buf) < k then ucast (out ! unat (a - buf)) else m a"
  have run: "vsnprintf buf n fmt ap m = Some (sint (of_nat (length out) :: u32), ?f(buf + of_nat k := 0))"
    using buf(1,2) out unfolding vsnprintf_def
    by (simp add: sprintputch_fold [OF le] Let_def last k)
  have kn: "k < unat n" "k < 2 ^ 32"
    using n k unat_u32_less [of n] by auto
  have idx: "unat (of_nat i :: u32) = i" if "i \<le> k" for i
    using that kn(2) by (simp add: unat_of_nat)
  have "of_nat i \<noteq> (of_nat k :: u32)" if "i < k" for i
    using idx [of i] idx [of k] that by (metis less_imp_le less_irrefl order_refl)
  then show ?thesis
    using run kn idx by (intro exI [of _ "?f(buf + of_nat k := 0)"]) auto
qed

theorem vsnprintf_bounded_witness:
  "\<exists>m'. vsnprintf 64 3 0 [] (str_mem [0x61, 0x62, 0x63, 0x64]) = Some (4, m') \<and> m' 65 = 0x62 \<and> m' 66 = 0 \<and> m' 67 = 0"
proof -
  let ?m = "str_mem [0x61, 0x62, 0x63, 0x64]"
  have "?m 0 = 0x61" "?m 1 = 0x62" "?m 2 = 0x63" "?m 3 = 0x64" "?m 4 = 0" "?m 67 = 0"
    by (simp_all add: str_mem_def)
  note m = this
  have step: "vprintfmt_loop ?m (i, [], None, out) = (if ?m i = 0 then Some out else vprintfmt_loop ?m (i + 1, [], None, out @ [ucast (?m i)]))"
    if "?m i \<noteq> 0x25" for i out
    using that by (subst vprintfmt_loop.simps) (simp add: vprintfmt_step_def literal_step_def is_return_def Let_def)
  have out: "vprintfmt ?m 0 [] = Some [0x61, 0x62, 0x63, 0x64]"
    unfolding vprintfmt_def by (simp add: step m)
  have "2 = min (unat (3 :: u32) - 1) (length [0x61 :: u32, 0x62, 0x63, 0x64])"
    by simp
  from vsnprintf_bounded [OF _ _ _ out this, of 64]
  obtain m' where m': "vsnprintf 64 3 0 [] ?m = Some (sint (of_nat 4 :: u32), m')" "m' 66 = 0"
    "\<forall>i < 2. m' (64 + of_nat i) = ucast ([0x61 :: u32, 0x62, 0x63, 0x64] ! i)" "\<forall>a. 3 \<le> unat (a - 64) \<longrightarrow> m' a = ?m a"
    by auto
  have "m' 65 = 0x62" "m' 67 = 0"
    using m'(3) [rule_format, of 1] m'(4) [rule_format, of 67] m(6) by simp_all
  then show ?thesis
    using m'(1,2) by simp
qed

end
