(* ===== verification/Monitor.thy ===== *)
theory Monitor
  imports Syscall Printfmt
begin

text \<open>
  The kernel monitor, \<^verbatim>\<open>kern/monitor.c\<close> with \<^verbatim>\<open>lib/readline.c\<close>: splitting a command line into arguments, looking up the
  command, and the commands that inspect and change page table entries or resume the interrupted environment. A line is
  the list of its characters. Commands that only print change nothing.
\<close>

section \<open>Reading a line\<close>

definition BUFLEN :: nat where [const_defs]: "BUFLEN = 1024"

text \<open>The loop of \<^verbatim>\<open>readline\<close> on the characters \<^verbatim>\<open>getchar\<close> returns: the line and the characters left, once a line has ended.\<close>

fun readline_loop :: "u8 list \<Rightarrow> u8 list \<Rightarrow> (u8 list \<times> u8 list) option" where
  "readline_loop [] buf = None"
| "readline_loop (c # cs) buf =
     (if c \<ge> 0x20 \<and> length buf < BUFLEN - 1 then readline_loop cs (buf @ [c])
      else if c = 0x08 \<and> length buf > 0 then readline_loop cs (butlast buf)
      else if c = 0x0A \<or> c = 0x0D then Some (buf, cs)
      else readline_loop cs buf)"

definition readline :: "u8 list \<Rightarrow> (u8 list \<times> u8 list) option" where
  "readline cs = readline_loop cs []"

section \<open>Arguments\<close>

definition MAXARGS :: nat where [const_defs]: "MAXARGS = 16"

definition whitespace :: "u8 \<Rightarrow> bool" where
  "whitespace c \<longleftrightarrow> c \<in> set [0x09, 0x0D, 0x0A, 0x20]"

text \<open>The parsing loop of \<^verbatim>\<open>runcmd\<close>; \<open>None\<close> for too many arguments.\<close>

function cmd_args :: "u8 list \<Rightarrow> u8 list list \<Rightarrow> u8 list list option" where
  "cmd_args buf argv =
     (let buf = dropWhile whitespace buf
      in if buf = [] then Some argv
         else if length argv = MAXARGS - 1 then None
         else cmd_args (dropWhile (\<lambda>c. \<not> whitespace c) buf) (argv @ [takeWhile (\<lambda>c. \<not> whitespace c) buf]))"
  by pat_completeness auto

termination
proof (relation "measure (\<lambda>(buf, argv). length buf)")
  fix buf argv x
  assume x: "x = dropWhile whitespace buf" and ne: "x \<noteq> []"
  have "\<not> whitespace (hd x)"
    using x ne hd_dropWhile by metis
  then have "length (dropWhile (\<lambda>c. \<not> whitespace c) x) < length x"
    using ne length_dropWhile_le [of "\<lambda>c. \<not> whitespace c" "tl x"] by (cases x) auto
  also have "\<dots> \<le> length buf"
    unfolding x by (rule length_dropWhile_le)
  finally show "((dropWhile (\<lambda>c. \<not> whitespace c) x, argv @ [takeWhile (\<lambda>c. \<not> whitespace c) x]), (buf, argv))
    \<in> measure (\<lambda>(buf, argv). length buf)"
    by simp
qed simp

declare cmd_args.simps [simp del]

text \<open>\<^verbatim>\<open>strtol\<close> with base 0 on an argument, converted to the type of its use.\<close>

definition arg_value :: "u8 list \<Rightarrow> u32" where
  "arg_value a = (case strtol 0 0 (str_mem a) of Some (v, _) \<Rightarrow> v | None \<Rightarrow> 0)"

section \<open>Commands\<close>

text \<open>The page directory in use.\<close>

definition rcr3 :: "kstate \<Rightarrow> u32" where
  "rcr3 s = (case curenv s of None \<Rightarrow> boot_cr3 s | Some e \<Rightarrow> env_cr3 (envs s e))"

text \<open>
  \<^verbatim>\<open>mon_showmappings\<close>: the lines it prints, an address with the page and permission bits of its entry, or without a page
  table. The arguments are read before their number is checked: a missing one is a null or undefined pointer.
\<close>

fun showmappings_loop :: "u32 list \<Rightarrow> kstate \<Rightarrow> ((u32 \<times> (u32 \<times> u32) option) list, kstate) kres" where
  "showmappings_loop [] s = Ok [] s"
| "showmappings_loop (va # vas) s =
     kbind (KADDR (rcr3 s) s) (\<lambda>pd s.
     kbind (pgdir_walk (Some pd) va False s) (\<lambda>p s.
     let line = (va, map_option (\<lambda>(pt, i). (PTE_ADDR (mem s pt i), mem s pt i AND 0xFFF)) p)
     in kbind (showmappings_loop vas s) (\<lambda>ls s. Ok (line # ls) s)))"

definition mon_showmappings :: "u8 list list \<Rightarrow> kstate \<Rightarrow> ((u32 \<times> (u32 \<times> u32) option) list, kstate) kres" where
  "mon_showmappings argv s =
     (if length argv < 3 then Panic ''page fault''
      else
        let from = arg_value (argv ! 1); to = arg_value (argv ! 2)
        in if length argv \<noteq> 3 \<or> from > to then Ok [] s
           else showmappings_loop (map (\<lambda>i. from + PGSIZE * of_nat i) [0..<unat ((to - from) div PGSIZE) + 1]) s)"

text \<open>\<^verbatim>\<open>altperm\<close>; the shift count is reduced modulo 32 by the processor, so that a negative bit number selects a high bit.\<close>

definition altperm :: "u8 list list \<Rightarrow> bool \<Rightarrow> kstate \<Rightarrow> (unit, kstate) kres" where
  "altperm argv indicator s =
     (if length argv < 3 then Panic ''page fault''
      else
        let a = arg_value (argv ! 1); n = arg_value (argv ! 2)
        in if length argv \<noteq> 3 then Ok () s
           else
             kbind (KADDR (rcr3 s) s) (\<lambda>pd s.
             kbind (pgdir_walk (Some pd) a False s) (\<lambda>p s.
             case p of None \<Rightarrow> Ok () s
             | Some (pt, i) \<Rightarrow>
                 if sint n > 11 then Ok () s
                 else
                   let b = push_bit (unat n mod 32) 1
                   in Ok () (wr pt i (if indicator then mem s pt i OR b else mem s pt i AND NOT b) s))))"

definition mon_continue :: "u32 \<Rightarrow> trapframe \<Rightarrow> kstate \<Rightarrow> ('a, kstate) kres" where
  "mon_continue eflags tf s =
     (let tf = (if tf_eflags tf AND 0x100 \<noteq> 0 then tf\<lparr>tf_eflags := tf_eflags tf AND NOT (eflags OR 0x100)\<rparr> else tf)
      in env_pop_tf tf s)"

definition mon_step :: "u32 \<Rightarrow> trapframe \<Rightarrow> kstate \<Rightarrow> ('a, kstate) kres" where
  "mon_step eflags tf s =
     (let tf = (if tf_eflags tf AND 0x100 = 0 then tf\<lparr>tf_eflags := tf_eflags tf OR (eflags OR 0x100)\<rparr> else tf)
      in env_pop_tf tf s)"

datatype command = Help | Kerninfo | Backtrace | Showmappings | Setperm | Clrperm | Continue | Step

definition commands :: "(u8 list \<times> command) list" where
  "commands = [(bytes ''help'', Help), (bytes ''kerninfo'', Kerninfo), (bytes ''backtrace'', Backtrace),
     (bytes ''showmappings'', Showmappings), (bytes ''setperm'', Setperm), (bytes ''clrperm'', Clrperm),
     (bytes ''continue'', Continue), (bytes ''step'', Step)]"

text \<open>\<^verbatim>\<open>runcmd\<close>, with the flags register of the processor; every command that returns, returns 0.\<close>

definition runcmd :: "u32 \<Rightarrow> u8 list \<Rightarrow> trapframe \<Rightarrow> kstate \<Rightarrow> (int, kstate) kres" where
  "runcmd eflags buf tf s =
     (case cmd_args buf [] of None \<Rightarrow> Ok 0 s
      | Some argv \<Rightarrow>
        if argv = [] then Ok 0 s
        else
          (case map_of commands (argv ! 0) of None \<Rightarrow> Ok 0 s
           | Some c \<Rightarrow>
             (case c of
                Help \<Rightarrow> Ok 0 s
              | Kerninfo \<Rightarrow> Ok 0 s
              | Backtrace \<Rightarrow> Ok 0 s
              | Showmappings \<Rightarrow> kbind (mon_showmappings argv s) (\<lambda>_ s. Ok 0 s)
              | Setperm \<Rightarrow> kbind (altperm argv True s) (\<lambda>_ s. Ok 0 s)
              | Clrperm \<Rightarrow> kbind (altperm argv False s) (\<lambda>_ s. Ok 0 s)
              | Continue \<Rightarrow> mon_continue eflags tf s
              | Step \<Rightarrow> mon_step eflags tf s)))"

text \<open>
  \<^verbatim>\<open>monitor\<close> on the lines typed, called again for ever by the trap handler; it leaves through a command that resumes the
  environment, or waits for the next line.
\<close>

fun monitor :: "u32 \<Rightarrow> u8 list list \<Rightarrow> trapframe \<Rightarrow> kstate \<Rightarrow> (unit, kstate) kres" where
  "monitor eflags [] tf s = Idle s"
| "monitor eflags (buf # lines) tf s = kbind (runcmd eflags buf tf s) (\<lambda>_ s. monitor eflags lines tf s)"

end
