(* ===== verification/Syscall_Props.thy ===== *)
theory Syscall_Props
  imports Syscall
begin

text \<open>
  Properties of the system call interface: no call breaks the kernel invariant or touches an uninvolved
  environment, and what the memory and message calls do to address spaces.
\<close>

section \<open>Integrity of each call\<close>

lemma sys_page_alloc_keeps:
  assumes inv: "kinv M {} s" and cur: "live c s" and ok: "sys_page_alloc envid va perm s = Ok r s'"
  shows "keeps c s s'"
  using inv cur
proof (cases rule: sys_page_alloc_spec [where envid = envid and va = va and perm = perm])
  case (no_mem t)
  then show ?thesis
    using ok pframe_simps(1) [OF no_mem(3)] by (simp add: keeps_def)
next
  case (mapped e p t)
  then show ?thesis
    using ok keeps_frame [OF found_not_bystander [OF inv cur mapped(4)] mapped(3) mapped(8)] by simp
qed (use ok in simp_all)

lemma sys_page_map_keeps:
  assumes inv: "kinv M {} s" and cur: "live c s" and ok: "sys_page_map srcid srcva dstid dstva perm s = Ok r s'"
  shows "keeps c s s'"
  using inv cur
proof (cases rule: sys_page_map_spec [where srcid = srcid and srcva = srcva and dstid = dstid and dstva = dstva and perm = perm])
  case (mapped es ed w t)
  then show ?thesis
    using ok keeps_frame [OF found_not_bystander [OF inv cur mapped(5)] mapped(3) mapped(9)] by simp
qed (use ok in simp_all)

lemma sys_page_unmap_keeps:
  assumes inv: "kinv M {} s" and cur: "live c s" and ok: "sys_page_unmap envid va s = Ok r s'"
  shows "keeps c s s'"
  using inv cur
proof (cases rule: sys_page_unmap_spec [where envid = envid and va = va])
  case (unmapped e t)
  then show ?thesis
    using ok keeps_frame [OF found_not_bystander [OF inv cur unmapped(4)] unmapped(3) unmapped(5)] by simp
qed (use ok in simp_all)

lemma sys_ipc_try_send_keeps:
  assumes inv: "kinv M {} s" and cur: "live c s" and ok: "sys_ipc_try_send envid v srcva perm s = Ok r s'"
  shows "keeps c s s'"
proof -
  have recv: "\<not> bystander c s t" if "env_ipc_recving (envs s t)" for t
    using that by (simp add: bystander_def)
  show ?thesis
    using inv cur
  proof (cases rule: sys_ipc_try_send_spec [where envid = envid and v = v and srcva = srcva and perm = perm])
    case (err t r)
    then show ?thesis
      using ok recv by (auto intro!: keeps_upd_env)
  next
    case (sent t)
    then show ?thesis
      using ok recv by (auto intro!: keeps_upd_env)
  next
    case (mapped t w u)
    then have u: "s' = u"
      using ok by simp
    have "envs u j = envs s j \<and> (\<forall>va. va_entry u j va = va_entry s j va)" if "bystander c s j" for j
    proof -
      have "j \<noteq> t"
        using recv [OF mapped(3)] that by blast
      then show ?thesis
        using mapped(8,9) by simp
    qed
    then show ?thesis
      by (simp add: keeps_def u)
  qed (use ok in simp_all)
qed

lemma sys_env_set_status_keeps:
  assumes inv: "kinv M {} s" and cur: "live c s" and ok: "sys_env_set_status envid status s = Ok r s'"
  shows "keeps c s s'"
  using inv cur
proof (cases rule: envid2env_spec [where envid = envid and checkperm = True])
  case bad
  then show ?thesis
    using ok by (simp add: sys_env_set_status_def)
next
  case (found e)
  then have "s' = s \<or> s' = upd_env e (\<lambda>x. x\<lparr>env_status := status, env_lock := False\<rparr>) s"
    using ok kinv_unlocked [OF inv found(2)]
    by (auto simp: sys_env_set_status_def the_env_def env_locking split: if_splits intro!: upd_env_cong)
  then show ?thesis
    using found_not_bystander [OF inv cur found(1)] by (auto intro!: keeps_upd_env)
qed

lemma sys_env_set_pgfault_upcall_keeps:
  assumes inv: "kinv M {} s" and cur: "live c s" and ok: "sys_env_set_pgfault_upcall envid func s = Ok r s'"
  shows "keeps c s s'"
  using inv cur
proof (cases rule: envid2env_spec [where envid = envid and checkperm = True])
  case bad
  then show ?thesis
    using ok by (simp add: sys_env_set_pgfault_upcall_def)
next
  case (found e)
  then have "s' = upd_env e (\<lambda>x. x\<lparr>env_pgfault_upcall := func, env_lock := False\<rparr>) s"
    using ok kinv_unlocked [OF inv found(2)]
    by (auto simp: sys_env_set_pgfault_upcall_def the_env_def env_locking intro!: upd_env_cong)
  then show ?thesis
    using found_not_bystander [OF inv cur found(1)] by (auto intro!: keeps_upd_env)
qed

lemma sys_env_destroy_keeps:
  assumes inv: "kinv M {} s" and cur: "live c s" and ok: "sys_env_destroy envid s = Ok r s'"
  shows "keeps c s s'"
  using inv cur
proof (cases rule: envid2env_spec [where envid = envid and checkperm = True])
  case bad
  then show ?thesis
    using ok by (simp add: sys_env_destroy_def)
next
  case (found e)
  then obtain u where "env_destroy e s = Ok u s'"
    using ok by (cases "env_destroy e s") (simp_all add: sys_env_destroy_def the_env_def)
  then show ?thesis
    using env_destroy_safe [OF inv cur found(2)] keeps_destroy [OF found_not_bystander [OF inv cur found(1)]] by simp
qed

lemma user_mem_assert_keeps:
  assumes inv: "kinv M {} s" and cur: "live c s" and e: "e < NENV" "env_status (envs s e) \<noteq> ENV_FREE"
    and "\<not> bystander c s e" and ok: "user_mem_assert e va len perm s = Ok r s'"
  shows "keeps c s s'"
  using user_mem_assert_safe [OF inv cur e, of va len perm] ok keeps_destroy [OF assms(5)] by simp

lemma sys_env_set_trapframe_keeps:
  assumes inv: "kinv M {} s" and cur: "live c s" and ok: "sys_env_set_trapframe envid tf s = Ok r s'"
  shows "keeps c s s'"
  using inv cur
proof (cases rule: envid2env_spec [where envid = envid and checkperm = True])
  case bad
  then show ?thesis
    using ok by (simp add: sys_env_set_trapframe_def)
next
  case (found e)
  note nb = found_not_bystander [OF inv cur found(1)]
  obtain u s1 where s1: "user_mem_assert e tf SIZEOF_STRUCT_TRAPFRAME 0 s = Ok u s1"
    using ok found(1) by (cases "user_mem_assert e tf SIZEOF_STRUCT_TRAPFRAME 0 s")
      (simp_all add: sys_env_set_trapframe_def the_env_def)
  have "kinv M {} s1"
    using user_mem_assert_safe [OF inv cur found(2,3), of tf SIZEOF_STRUCT_TRAPFRAME 0] s1 by simp
  then have free: "\<not> env_lock (envs s1 e)"
    using found(2) by (rule kinv_unlocked)
  obtain f where "s' = upd_env e (\<lambda>x. x\<lparr>env_tf := f, env_lock := False\<rparr>) s1"
    using ok found(1) s1 free
    by (auto simp: sys_env_set_trapframe_def the_env_def env_locking Let_def split: option.splits)
  moreover have "keeps c s s1"
    by (rule user_mem_assert_keeps [OF inv cur found(2,3) nb s1])
  ultimately show ?thesis
    using nb by (auto simp: keeps_def va_entry_upd_env)
qed

lemma sys_exofork_keeps:
  assumes inv: "kinv M {} s" and cur: "current c s" and ok: "sys_exofork s = Ok r s'"
  shows "keeps c s s'"
  using inv cur
proof (cases rule: sys_exofork_eq)
  case (made e p rr q m eq t)
  have t: "s' = t"
    using ok made(2) by simp
  have "envs t j = envs s j \<and> va_entry t j va = va_entry s j va" if j: "bystander c s j" for j va
  proof
    have "j \<noteq> e"
      using j made(7) by (auto simp: bystander_def)
    then show "envs t j = envs s j"
      by (simp add: made(1) add_env_def)
    have "pde_of t j (unat (PDX va)) = pde_of s j (unat (PDX va))"
      using fun_cong [OF made(8), of "Pd j (unat (PDX va))"] by simp
    then show "va_entry t j va = va_entry s j va"
    proof (rule va_entry_cong)
      fix pt
      assume "pde_of s j (unat (PDX va)) = Some pt"
      then have "Pd j (unat (PDX va)) \<in> refs (target s) pt"
        by (simp add: refs_def)
      then have "pt \<noteq> p"
        using made(10) by blast
      then show "mem t pt (unat (PTX va)) = mem s pt (unat (PTX va))"
        using made(9) by (simp add: made(1) add_env_def)
    qed
  qed
  then show ?thesis
    by (simp add: keeps_def t)
qed (use ok in simp)

lemma bind_OkE: "kbind m f = Ok r t \<Longrightarrow> (\<And>x s. m = Ok x s \<Longrightarrow> f x s = Ok r t \<Longrightarrow> P) \<Longrightarrow> P"
  by (cases m) auto

lemma UTOP_pos: "0 < UTOP"
  by (simp add: const_defs)

lemma caller_not_bystander [simp]: "\<not> bystander c s c"
  by (simp add: bystander_def)

lemma sys_cputs_keeps:
  assumes inv: "kinv M {} s" and cur: "live c s" and ok: "sys_cputs p len s = Ok r s'"
  shows "keeps c s s'"
proof -
  have c: "curenv s = Some c" "c < NENV" "env_status (envs s c) \<noteq> ENV_FREE"
    using cur by (simp_all add: live_def)
  have "user_mem_assert c p len 0 s = Ok x t \<Longrightarrow> t = s" for x t
    using user_mem_assert_safe [OF inv cur c(2,3), of p len 0] by auto
  then obtain out where "s' = hw (Cputs out) s"
    using ok c(1) unfolding sys_cputs_def
    by (auto elim!: bind_OkE simp: the_curenv_def the_env_def split: if_splits option.splits dest!: cputs_loop_state)
  moreover have "va_entry (hw (Cputs out) s) = va_entry s"
    by (rule va_entry_same) simp_all
  ultimately show ?thesis
    by (simp add: keeps_def)
qed

lemma sys_nic_send_keeps:
  assumes "live c s" and "sys_nic_send a b s = Ok r s'"
  shows "keeps c s s'"
proof -
  obtain e where "s' = s\<lparr>nic := e\<rparr>"
    using assms by (auto simp: sys_nic_send_def the_curenv_def the_env_def live_def Let_def elim!: bind_OkE split: option.splits)
  then show ?thesis
    by (simp add: keeps_def)
qed

lemma sys_nic_recv_keeps:
  assumes "kinv M {} s" and "live c s" and "writable s c a (unat E100_MAX_PKT_SIZE)" "writable s c b 4"
    and "sys_nic_recv a b s = Ok r s'"
  shows "keeps c s s'"
  using sys_nic_recv_step [OF assms(1-4)] assms(5) by (simp add: keeps_def)

lemma sys_cgetc_keeps: "sys_cgetc polls s = Ok r s' \<Longrightarrow> envs s' = envs s \<and> va_entry s' = va_entry s"
proof (induction polls s rule: sys_cgetc.induct)
  case (2 serial kbd polls s)
  obtain ch reset k where get: "cons_getc serial kbd (cons s) = (ch, reset, k)"
    by (cases "cons_getc serial kbd (cons s)") auto
  let ?s = "if reset then hw Reboot (s\<lparr>cons := k\<rparr>) else s\<lparr>cons := k\<rparr>"
  have "va_entry (hw Reboot (s\<lparr>cons := k\<rparr>)) = va_entry s"
    by (rule va_entry_same) simp_all
  then show ?case
    using 2(1) [OF get [symmetric] refl refl refl refl] 2(2) by (auto simp: get Let_def split: if_splits)
qed simp

lemma syscall_kept:
  assumes inv: "kinv M {} s" and cur: "current c s" and no: "sysno_of syscallno = Some no"
    and args: "args_mapped s c no a1 a2"
  shows "sys_safe M c (syscall polls syscallno a1 a2 a3 a4 a5 s)"
proof -
  note L = current_live [OF cur]
  have c: "curenv s = Some c"
    using cur by (simp add: current_def)
  show ?thesis
  proof (cases no)
    case SYS_cputs
    then have "sys_safe M c (sys_cputs a1 a2 s)"
      using args by (intro sys_cputs_safe [OF inv L]) (simp add: args_mapped_def)
    then have "sys_safe M c (kbind (sys_cputs a1 a2 s) (\<lambda>_ s. Ok (0 :: int) s))"
      by (rule sys_safe_bind) simp
    then show ?thesis
      using SYS_cputs no by (simp add: syscall_def)
  next
    case SYS_cgetc
    then show ?thesis
      using sys_cgetc_safe [OF inv L] no by (simp add: syscall_def)
  next
    case SYS_reboot
    then show ?thesis
      using kinv_hw [OF inv] no by (simp add: syscall_def sys_reboot_def)
  next
    case SYS_getenvid
    then show ?thesis
      using inv L no c by (simp add: syscall_def sys_getenvid_def the_curenv_def)
  next
    case SYS_yield
    then show ?thesis
      using sys_safe_returns [OF sys_yield_noreturn [OF inv cur]] no by (simp add: syscall_def)
  next
    case SYS_nic_send
    then show ?thesis
      using L no args
      by (auto intro: sys_nic_send_step [OF inv L, of a2 a1] simp: syscall_def args_mapped_def)
  next
    case SYS_nic_recv
    then have "sys_safe M c (sys_nic_recv a1 a2 s)"
      using args unfolding sys_safe_def args_mapped_def by (intro returns_mono [OF sys_nic_recv_step [OF inv L]]) auto
    then show ?thesis
      using SYS_nic_recv no by (simp add: syscall_def)
  qed (use no sys_env_destroy_safe [OF inv L] sys_page_alloc_safe [OF inv L] sys_page_map_safe [OF inv L]
        sys_page_unmap_safe [OF inv L] sys_exofork_safe [OF inv cur] sys_env_set_status_safe [OF inv L]
        sys_env_set_trapframe_safe [OF inv L] sys_env_set_pgfault_upcall_safe [OF inv L]
        sys_ipc_try_send_safe [OF inv L] sys_ipc_recv_safe [OF inv cur] inv L args in
      \<open>simp_all add: syscall_def sys_time_msec_def args_mapped_def\<close>)
qed

section \<open>Properties\<close>





text \<open>
  C16. \<^verbatim>\<open>sys_page_alloc\<close>: on success the target is the caller or a child of the caller, and exactly one page of its
  address space has changed: \<open>va\<close> now maps a page that nothing referred to before, filled with zeros, with
  the requested permissions. On any error no address space has changed. It never leaves the kernel.
\<close>

theorem sys_page_alloc_correct:
  assumes inv: "kinv M {} s" and cur: "live c s"
  shows "returns (\<lambda>r s'. kinv M {} s' \<and>
      (if r = 0 then \<exists>e p. envid2env envid True s = Ok (Inr (Some e)) s \<and> \<not> bystander c s e
           \<and> refs (target s) p = {} \<and> va < UTOP \<and> va mod PGSIZE = 0 \<and> (\<forall>i. mem s' p i = 0)
           \<and> (\<forall>j va'. va_entry s' j va' = (if j = e \<and> VPN va' = VPN va then Some (page2pa p OR perm OR PTE_P) else va_entry s j va'))
           \<and> (\<forall>j va' w. va_entry s j va' = Some w \<longrightarrow> mem s' (unat (PPN w)) = mem s (unat (PPN w)))
       else r \<in> {- E_BAD_ENV, - E_INVAL, - E_NO_MEM} \<and> (\<forall>j va'. va_entry s' j va' = va_entry s j va')))
     (\<lambda>_. False) (sys_page_alloc envid va perm s)"
  using inv cur
proof (cases rule: sys_page_alloc_spec [where envid = envid and va = va and perm = perm])
  case (mapped e p s')
  then show ?thesis
    using found_not_bystander [OF inv cur mapped(4)] by auto
qed (use inv in \<open>simp_all add: const_defs\<close>)

theorem sys_page_alloc_correct_witness:
  "returns (\<lambda>r s'. kinv {1..<8} {} s') (\<lambda>_. False) (sys_page_alloc 0 0x800000 7 example)"
  by (rule returns_mono [OF sys_page_alloc_correct [OF example_kinv current_live [OF example_current]]]) simp_all

text \<open>
  C17. \<^verbatim>\<open>sys_page_map\<close>: on success the page mapped at \<open>srcva\<close> in the source environment is shared at \<open>dstva\<close> of the
  destination and nothing else changes; both environments are the caller or children of it, and a writable mapping
  is only ever made from a writable one. On any error the state is unchanged. It never leaves the kernel.
\<close>

theorem sys_page_map_correct:
  assumes inv: "kinv M {} s" and cur: "live c s"
  shows "returns (\<lambda>r s'. kinv M {} s' \<and>
      (if r = 0 then \<exists>es ed w. envid2env srcid True s = Ok (Inr (Some es)) s \<and> envid2env dstid True s = Ok (Inr (Some ed)) s
           \<and> \<not> bystander c s es \<and> \<not> bystander c s ed
           \<and> va_entry s es srcva = Some w \<and> (perm AND PTE_W \<noteq> 0 \<longrightarrow> w AND PTE_W \<noteq> 0)
           \<and> (\<forall>j va'. va_entry s' j va' =
                (if j = ed \<and> VPN va' = VPN dstva then Some (page2pa (unat (PPN w)) OR perm OR PTE_P) else va_entry s j va'))
           \<and> (\<forall>j va' w. va_entry s j va' = Some w \<longrightarrow> mem s' (unat (PPN w)) = mem s (unat (PPN w)))
       else r \<in> {- E_BAD_ENV, - E_INVAL, - E_NO_MEM} \<and> s' = s))
     (\<lambda>_. False) (sys_page_map srcid srcva dstid dstva perm s)"
  using inv cur
proof (cases rule: sys_page_map_spec [where srcid = srcid and srcva = srcva and dstid = dstid and dstva = dstva and perm = perm])
  case (mapped es ed w s')
  have "\<not> bystander c s es" "\<not> bystander c s ed"
    using found_not_bystander [OF inv cur mapped(4)] found_not_bystander [OF inv cur mapped(5)] .
  with mapped show ?thesis
    by simp
qed (use inv in \<open>simp_all add: const_defs\<close>)

theorem sys_page_map_correct_witness:
  "returns (\<lambda>r s'. kinv {1..<8} {} s') (\<lambda>_. False) (sys_page_map 0 0x800000 0 0x900000 7 example)"
  by (rule returns_mono [OF sys_page_map_correct [OF example_kinv current_live [OF example_current]]]) simp_all



text \<open>
  C19. \<^verbatim>\<open>sys_exofork\<close> returns -E_NO_FREE_ENV, with nothing changed, when there is no free slot or no free page;
  otherwise it returns the identifier of a new environment, a child of the caller that is not runnable yet, with an
  empty address space and the caller's saved registers except that \<^verbatim>\<open>eax\<close> is 0, so that the child sees 0
  where the caller sees the child's positive identifier. All other environments are unchanged.
\<close>

theorem sys_exofork_correct:
  assumes inv: "kinv M {} s" and cur: "current c s"
  shows "returns (\<lambda>r s'. kinv M {} s' \<and>
      (r = - E_NO_FREE_ENV \<and> s' = s \<and> (LIST_EMPTY (env_free_list s) \<or> LIST_EMPTY (page_free_list s))
       \<or> (\<exists>e. e < NENV \<and> env_status (envs s e) = ENV_FREE \<and> r = sint (env_id (envs s' e)) \<and> 0 < r
            \<and> env_status (envs s' e) = ENV_NOT_RUNNABLE \<and> env_parent_id (envs s' e) = env_id (envs s c)
            \<and> env_tf (envs s' e) =
                (env_tf (envs s c))\<lparr>tf_regs := (tf_regs (env_tf (envs s c)))\<lparr>reg_eax := 0\<rparr>\<rparr>
            \<and> (\<forall>va. va_entry s' e va = None)
            \<and> (\<forall>i. i \<noteq> e \<longrightarrow> envs s' i = envs s i))))
     (\<lambda>_. False) (sys_exofork s)"
  using inv cur
proof (cases rule: sys_exofork_eq)
  case fail
  then show ?thesis
    using inv by (simp add: LIST_EMPTY_def LIST_FIRST_def)
next
  case (made e p r q m eq s')
  have "env_ok e (envs s e)" and ok': "env_ok e (envs s' e)"
    using einvD(1) kinvD(2) [OF inv] kinvD(2) [OF made(3)] made(5) by blast+
  then have "dir_of s e = None"
    using made(7) by (simp add: env_ok_def dir_of_def)
  then have "pde_of s' e d = None" for d
    using fun_cong [OF made(8), of "Pd e d"] by (simp add: pde_of_cases)
  then have "va_entry s' e va = None" for va
    by (simp add: va_entry_def)
  moreover have env': "env_status (envs s' e) = ENV_NOT_RUNNABLE" "env_parent_id (envs s' e) = env_id (envs s c)"
    "env_tf (envs s' e) = (env_tf (envs s c))\<lparr>tf_regs := (tf_regs (env_tf (envs s c)))\<lparr>reg_eax := 0\<rparr>\<rparr>"
    "\<forall>i. i \<noteq> e \<longrightarrow> envs s' i = envs s i"
    by (simp_all add: made(1) set_eax_def add_env_def)
  moreover have "0 < sint (env_id (envs s' e))"
    using ok' env'(1) by (simp add: env_ok_def const_defs)
  ultimately show ?thesis
    using made(2,3,5,7) by auto
qed

theorem sys_exofork_correct_witness:
  "returns (\<lambda>r s'. kinv {1..<8} {} s' \<and> 0 < r) (\<lambda>_. False) (sys_exofork example)"
  using example_page_free example_env_free
  by (intro returns_mono [OF sys_exofork_correct [OF example_kinv example_current]])
    (auto simp: LIST_EMPTY_def LIST_FIRST_def)

text \<open>
  C20. A rendezvous: a receiver that called \<^verbatim>\<open>sys_ipc_recv\<close> (with a page-aligned destination below \<^verbatim>\<open>UTOP\<close>, or 0) has
  stopped running and is waiting with a saved return value of 0, and a later send of a plain value to it by the
  environment then running delivers value and sender and makes it runnable again. With a bad destination address
  the receiver is told so at once and nothing changes.
\<close>

theorem ipc_rendezvous:
  assumes inv: "kinv M {} s" and cur: "current c s" and va: "dstva < UTOP" "dstva mod PGSIZE = 0"
    and later: "kinv M' {} s'" "live d s'" "envs s' c = receiving dstva (envs s c)"
  shows "sys_ipc_recv dstva s = sched_yield (upd_env c (receiving dstva) s)
     \<and> env_status (receiving dstva (envs s c)) = ENV_NOT_RUNNABLE
     \<and> reg_eax (tf_regs (env_tf (receiving dstva (envs s c)))) = 0
     \<and> (\<exists>s''. sys_ipc_try_send (env_id (envs s c)) v 0 perm s' = Ok 0 s''
          \<and> env_ipc_value (envs s'' c) = v \<and> env_ipc_from (envs s'' c) = env_id (envs s' d)
          \<and> env_status (envs s'' c) = ENV_RUNNABLE \<and> kinv M' {} s'')"
proof -
  have c: "c < NENV" "env_status (envs s c) = ENV_RUNNING"
    using cur by (simp_all add: current_def)
  have "env_ok c (envs s c)"
    using einvD(1) [OF kinvD(2) [OF inv] c(1)] .
  then have id: "env_id (envs s c) \<noteq> 0" "unat (ENVX (env_id (envs s c))) = c"
    using c(2) by (auto simp: env_ok_def const_defs)
  have r: "env_id (envs s' c) = env_id (envs s c)" "env_ipc_recving (envs s' c)" "env_status (envs s' c) \<noteq> ENV_FREE"
    by (simp_all add: later(3) receiving_def set_eax_def const_defs)
  have "envid2env (env_id (envs s c)) False s' = Ok (Inr (Some c)) s'"
    using id r by (simp add: envid2env_def Let_def)
  note send = sys_ipc_try_send_checks(1) [OF later(1,2) this c(1) r(3,2) refl, of v perm]
  have "kinv M' {} (upd_env c (\<lambda>x. woken 0 (delivered (env_id (envs s' d)) v x)) s')"
    using harmless_upd_env(1) [OF later(1,2) c(1) r(3)] by simp
  moreover have "\<not> UTOP \<le> dstva"
    using va(1) by (simp add: not_le)
  ultimately show ?thesis
    using send va(2) by (simp add: sys_ipc_recv_eq [OF inv cur] receiving_def set_eax_def woken_def delivered_def)
qed

theorem ipc_rendezvous_witness:
  "\<exists>s''. sys_ipc_try_send (env_id (envs example 0)) 42 0 0 (upd_env 0 (receiving 0x800000) example) = Ok 0 s''
     \<and> env_ipc_value (envs s'' 0) = 42"
proof -
  have va: "0x800000 < UTOP" "0x800000 mod PGSIZE = 0"
    by (simp_all add: const_defs)
  let ?s = "upd_env 0 (receiving 0x800000) example"
  have "live 0 ?s"
    using example_current by (simp add: live_def current_def receiving_def const_defs)
  then show ?thesis
    using ipc_rendezvous [OF example_kinv example_current va kinv_receiving [OF example_kinv example_current va(1)], of 0 42 0]
    by auto
qed

end
