(* ===== verification/Trap.thy ===== *)
theory Trap
  imports Monitor Syscall_Props
begin

text \<open>
  Traps, \<^verbatim>\<open>kern/trap.c\<close>: the dispatcher, the page fault handler with its upcall to user mode, and the entry point
  \<^verbatim>\<open>trap\<close>. What the outside world contributes to a trap is a record: the faulting address, the flags register, console
  input, the status word of the network adapter, and the lines typed into the monitor.
\<close>

section \<open>Trap numbers\<close>

definition T_DEBUG :: u32 where [const_defs]: "T_DEBUG = 1"
definition T_NMI :: u32 where [const_defs]: "T_NMI = 2"
definition T_BRKPT :: u32 where [const_defs]: "T_BRKPT = 3"
definition T_PGFLT :: u32 where [const_defs]: "T_PGFLT = 14"
definition T_SYSCALL :: u32 where [const_defs]: "T_SYSCALL = 48"
definition T_HALT :: u32 where [const_defs]: "T_HALT = 50"
definition IRQ_OFFSET :: u32 where [const_defs]: "IRQ_OFFSET = 32"
definition IRQ_TIMER :: u32 where [const_defs]: "IRQ_TIMER = 0"
definition IRQ_KBD :: u32 where [const_defs]: "IRQ_KBD = 1"
definition IRQ_SPURIOUS :: u32 where [const_defs]: "IRQ_SPURIOUS = 7"
definition IRQ_NIC :: u32 where [const_defs]: "IRQ_NIC = 11"
definition IRQ_ERROR :: u32 where [const_defs]: "IRQ_ERROR = 19"

record trap_in =
  cr2 :: u32
  eflags :: u32
  polls :: "(u8 list \<times> u8 list) list"
  kbd_bytes :: "u8 list"
  scb_status :: u32
  mon_lines :: "u8 list list"

text \<open>Where the trap frame is: in the current environment, or on the kernel stack.\<close>

datatype tfloc = Saved nat | Stack trapframe

definition tf_at :: "tfloc \<Rightarrow> kstate \<Rightarrow> trapframe" where
  "tf_at loc s = (case loc of Saved c \<Rightarrow> env_tf (envs s c) | Stack tf \<Rightarrow> tf)"

text \<open>A store to the frame; a frame on the stack is not used again after the stores of the handlers below.\<close>

definition upd_tf :: "tfloc \<Rightarrow> (trapframe \<Rightarrow> trapframe) \<Rightarrow> kstate \<Rightarrow> kstate" where
  "upd_tf loc f s = (case loc of Saved c \<Rightarrow> upd_env c (\<lambda>x. x\<lparr>env_tf := f (env_tf x)\<rparr>) s | Stack _ \<Rightarrow> s)"

section \<open>Page faults\<close>

definition SIZEOF_UTRAPFRAME :: u32 where [const_defs]: "SIZEOF_UTRAPFRAME = 52"

text \<open>\<^verbatim>\<open>struct UTrapframe\<close> as its words in memory.\<close>

definition utf_words :: "u32 \<Rightarrow> trapframe \<Rightarrow> u32 list" where
  "utf_words fault_va tf =
     (let r = tf_regs tf
      in [fault_va, tf_err tf, reg_edi r, reg_esi r, reg_ebp r, reg_oesp r, reg_ebx r, reg_edx r, reg_ecx r, reg_eax r,
          tf_eip tf, tf_eflags tf, tf_esp tf])"

fun st_words :: "nat \<Rightarrow> u32 \<Rightarrow> u32 list \<Rightarrow> kstate \<Rightarrow> kstate option" where
  "st_words pd va [] s = Some s"
| "st_words pd va (w # ws) s = Option.bind (st32 pd va w s) (st_words pd (va + 4) ws)"

text \<open>The end of the handler: the frame is pushed on the exception stack and the environment continues in its upcall.\<close>

definition pgfault_upcall :: "u32 \<Rightarrow> tfloc \<Rightarrow> u32 \<Rightarrow> kstate \<Rightarrow> (unit, kstate) kres" where
  "pgfault_upcall fault_va loc utf s =
     kbind (the_curenv s) (\<lambda>c s.
     kbind (the_env (env_pgdir (envs s c)) s) (\<lambda>pd s.
     case st_words pd utf (utf_words fault_va (tf_at loc s)) s of None \<Rightarrow> Panic ''page fault''
     | Some s \<Rightarrow>
         let s = upd_tf loc (\<lambda>tf. tf\<lparr>tf_eip := env_pgfault_upcall (envs s c), tf_esp := utf\<rparr>) s
         in kbind (kassert (env_status (envs s c) = ENV_RUNNING) ''assertion failed: env_status == ENV_RUNNING'' s) (\<lambda>_ s.
            let s = upd_env c (\<lambda>x. x\<lparr>env_runs := env_runs x + 1\<rparr>) s
            in env_pop_tf (env_tf (envs s c)) s)))"

definition page_fault_handler :: "u32 \<Rightarrow> tfloc \<Rightarrow> kstate \<Rightarrow> (unit, kstate) kres" where
  "page_fault_handler fault_va loc s =
     (let tf = tf_at loc s
      in if tf_cs tf AND 3 = 0 then Panic ''*bug in kernel*''
         else
           kbind (the_curenv s) (\<lambda>c s.
           if env_pgfault_upcall (envs s c) \<noteq> 0 then
             kbind (user_mem_assert c (UXSTACKTOP - 1) 1 0 s) (\<lambda>_ s.
             if tf_esp tf < UXSTACKTOP \<and> tf_esp tf \<ge> UXSTACKTOP - PGSIZE then
               kbind (user_mem_assert c (tf_eip tf) 1 0 s) (\<lambda>_ s.
               let utf = tf_esp tf - SIZEOF_UTRAPFRAME - 4
               in if utf < UXSTACKTOP - PGSIZE then env_destroy c s
                  else pgfault_upcall fault_va loc utf s)
             else pgfault_upcall fault_va loc (UXSTACKTOP - SIZEOF_UTRAPFRAME) s)
           else env_destroy c s))"

section \<open>The dispatcher\<close>

text \<open>Giving up the processor: the end of the timer handler and of \<^verbatim>\<open>trap\<close>.\<close>

definition yield_cpu :: "kstate \<Rightarrow> (unit, kstate) kres" where
  "yield_cpu s =
     kbind (the_curenv s) (\<lambda>c s.
     kbind (spin_lock (env_lock_of c) (env_lock_of_update c) s) (\<lambda>_ s.
     let s = upd_env c (\<lambda>x. x\<lparr>env_status := ENV_RUNNABLE\<rparr>) s;
         s = spin_unlock (env_lock_of_update c) s
     in sched_yield s))"

definition trap_dispatch :: "trap_in \<Rightarrow> tfloc \<Rightarrow> kstate \<Rightarrow> (unit, kstate) kres" where
  "trap_dispatch inp loc s =
     (let tf = tf_at loc s; no = tf_trapno tf; r = tf_regs tf
      in if no = T_TLBFLUSH then
           kbind (spin_lock tlb_lock tlb_lock_update s) (\<lambda>_ s.
           kbind (kassert (tlb_va s \<noteq> 0) ''assertion failed: tlb_va'' s) (\<lambda>_ s.
           kbind (tlb_invalidate_cur (tlb_va s) s) (\<lambda>_ s. Ok () (hw Lapic_eoi (spin_unlock tlb_lock_update s)))))
         else if no = T_HALT then Ok () (hw Lapic_eoi s)
         else if no = IRQ_OFFSET + IRQ_ERROR then Ok () (hw Lapic_eoi s)
         else if no = T_PGFLT then page_fault_handler (cr2 inp) loc s
         else if no = T_BRKPT \<or> no = T_DEBUG then monitor (eflags inp) (mon_lines inp) tf s
         else if no = T_SYSCALL then
           kbind (syscall (polls inp) (reg_eax r) (reg_edx r) (reg_ecx r) (reg_ebx r) (reg_edi r) (reg_esi r) s) (\<lambda>v s.
             Ok () (upd_tf loc (\<lambda>tf. tf\<lparr>tf_regs := (tf_regs tf)\<lparr>reg_eax := of_int v\<rparr>\<rparr>) s))
         else if no = IRQ_OFFSET + IRQ_TIMER then
           kbind (if is_bcpu s then time_tick s else Ok () s) (\<lambda>_ s.
           let s = hw Lapic_eoi s
           in kbind (the_curenv s) (\<lambda>c s.
              kbind (kassert (env_status (envs s c) = ENV_RUNNING) ''assertion failed: env_status == ENV_RUNNING'' s) (\<lambda>_ s.
              yield_cpu s)))
         else if no = IRQ_OFFSET + IRQ_SPURIOUS then Ok () (hw Lapic_eoi s)
         else if no = IRQ_OFFSET + IRQ_NIC then Ok () (hw Lapic_eoi (s\<lparr>nic := e100_intr (scb_status inp) (nic s)\<rparr>))
         else if no = IRQ_OFFSET + IRQ_KBD then
           let (reset, k) = kbd_intr (kbd_bytes inp) (cons s);
               s = s\<lparr>cons := k\<rparr>;
               s = (if reset then hw Reboot s else s)
           in Ok () (hw Lapic_eoi s)
         else if tf_cs tf = GD_KT then Panic ''unhandled trap in kernel''
         else kbind (the_curenv s) (\<lambda>c s. env_destroy c s))"

definition trap :: "trap_in \<Rightarrow> trapframe \<Rightarrow> kstate \<Rightarrow> (unit, kstate) kres" where
  "trap inp tf s =
     kbind (if tf_cs tf AND 3 = 3
            then kbind (case curenv s of None \<Rightarrow> Panic ''assertion failed: curenv'' | Some c \<Rightarrow> Ok c s) (\<lambda>c s.
                   Ok (Saved c) (upd_env c (\<lambda>x. x\<lparr>env_tf := tf\<rparr>) s))
            else Ok (Stack tf) s) (\<lambda>loc s.
     kbind (trap_dispatch inp loc s) (\<lambda>_ s.
       case curenv s of
         Some c \<Rightarrow>
           if env_status (envs s c) = ENV_RUNNING then
             let s = upd_env c (\<lambda>x. x\<lparr>env_runs := env_runs x + 1\<rparr>) s in env_pop_tf (env_tf (envs s c)) s
           else yield_cpu s
       | None \<Rightarrow> yield_cpu s))"

section \<open>Safety of the handlers\<close>

lemma kinv_ready: "kinv M A s \<Longrightarrow> kinv M A (s\<lparr>ticks := t\<rparr>)"
  using minv_cong [of "s\<lparr>ticks := t\<rparr>" s] unfolding kinv_def by (simp add: einv_def dev_inv_def)

lemma yield_cpu_safe:
  assumes inv: "kinv M {} s" and cur: "live c s"
  shows "returns (\<lambda>_ _. False) (\<lambda>s'. kinv M {} s') (yield_cpu s)"
proof -
  have c: "c < NENV" "curenv s = Some c" "env_status (envs s c) \<noteq> ENV_FREE"
    using cur by (simp_all add: live_def)
  let ?s = "upd_env c (\<lambda>x. x\<lparr>env_status := ENV_RUNNABLE\<rparr>) s"
  have "yield_cpu s = sched_yield ?s"
    using kinv_unlocked [OF inv c(1)] c
    by (auto simp: yield_cpu_def the_curenv_def env_locking intro!: arg_cong [of _ _ sched_yield] upd_env_cong)
  moreover have "kinv M {} ?s"
    using harmless_upd_env(1) [OF inv cur c(1,3)] by (simp add: const_defs)
  ultimately show ?thesis
    using sched_yield_safe by simp
qed

lemma destroy_self_safe:
  assumes inv: "kinv M {} s" and cur: "live c s"
  shows "returns (\<lambda>_ _. False) (\<lambda>s'. kinv M {} s') (env_destroy c s)"
proof (rule returns_mono [OF env_destroy_safe [OF inv cur]])
  show "c < NENV"
    using cur by (simp add: live_def)
qed (auto simp: live_def)

lemma writable_sub:
  assumes "writable s i va n" and "k + m \<le> n"
  shows "writable s i (va + of_nat k) m"
  unfolding writable_def
proof (intro allI impI)
  fix j
  assume "j < m"
  then have "k + j < n"
    using assms(2) by simp
  then show "va + of_nat k + of_nat j < UTOP \<and> (\<exists>pd. dir_of s i = Some pd \<and> xlate_w s pd (va + of_nat k + of_nat j) \<noteq> None)"
    using assms(1) [unfolded writable_def, rule_format, of "k + j"] by (simp add: add.assoc)
qed

lemma st_words_writable:
  assumes "kinv M A s" and "dir_of s i = Some pd" and "writable s i va (4 * length ws)"
  shows "\<exists>s'. st_words pd va ws s = Some s' \<and> ustore s s'"
  using assms
proof (induction ws arbitrary: va s)
  case (Cons w ws)
  have w4: "writable s i va 4" "writable s i (va + 4) (4 * length ws)"
    using writable_sub [OF Cons.prems(3), of 0 4] writable_sub [OF Cons.prems(3), of 4 "4 * length ws"] by simp_all
  obtain s' where s': "st32 pd va w s = Some s'" "ustore s s'"
    using st32_writable [OF Cons.prems(1,2) w4(1)] by blast
  have "\<exists>s''. st_words pd (va + 4) ws s' = Some s'' \<and> ustore s' s''"
    by (intro Cons.IH ustore_kinv [OF Cons.prems(1) s'(2)])
      (use Cons.prems(2) w4(2) ustore_writable [OF s'(2)] ustore_tables(1) [OF s'(2)] in simp_all)
  then show ?case
    using s' ustore_trans [OF s'(2)] by auto
qed simp

lemma length_utf_words: "length (utf_words va tf) = 13"
  by (simp add: utf_words_def Let_def)

lemma pgfault_upcall_eq:
  assumes inv: "kinv M {} s" and cur: "current c s" and stk: "writable s c utf 52"
  obtains s1 pd where "env_pgdir (envs s c) = Some pd" and "st_words pd utf (utf_words fault_va (env_tf (envs s c))) s = Some s1"
    and "ustore s s1"
    and "pgfault_upcall fault_va (Saved c) utf s =
      (let tf = (env_tf (envs s c))\<lparr>tf_eip := env_pgfault_upcall (envs s c), tf_esp := utf\<rparr>
       in Iret (hw (Iret_tf tf) (upd_env c (\<lambda>x. x\<lparr>env_tf := tf, env_runs := env_runs x + 1\<rparr>) s1)))"
proof -
  note L = current_live [OF cur]
  have c: "curenv s = Some c" "env_status (envs s c) = ENV_RUNNING"
    using cur by (simp_all add: current_def)
  obtain pd where pd: "env_pgdir (envs s c) = Some pd" "dir_of s c = Some pd"
    by (rule live_dir [OF inv L])
  obtain s1 where s1: "st_words pd utf (utf_words fault_va (env_tf (envs s c))) s = Some s1" "ustore s s1"
    using st_words_writable [OF inv pd(2), of utf "utf_words fault_va (env_tf (envs s c))"] stk
    by (auto simp: length_utf_words)
  have e: "envs s1 = envs s"
    using pframe_simps(1) [OF ustore_tables(5) [OF s1(2)]] .
  show thesis
    by (rule that [OF pd(1) s1])
      (simp add: pgfault_upcall_def the_curenv_def the_env_def c pd(1) tf_at_def s1(1) upd_tf_def e Let_def env_pop_tf_def,
        simp add: upd_env_def e)
qed

text \<open>The frame pushed on the exception stack lies within its page, also for a fault in the handler itself.\<close>

definition xstack :: u32 where "xstack = UXSTACKTOP - PGSIZE"

lemma utf_in_xstack:
  shows "\<exists>k. UXSTACKTOP - SIZEOF_UTRAPFRAME = xstack + of_nat k \<and> k + 52 \<le> 4096"
    and "esp < UXSTACKTOP \<Longrightarrow> xstack \<le> esp \<Longrightarrow> xstack \<le> esp - SIZEOF_UTRAPFRAME - 4 \<Longrightarrow>
      \<exists>k. esp - SIZEOF_UTRAPFRAME - 4 = xstack + of_nat k \<and> k + 52 \<le> 4096"
proof -
  show "\<exists>k. UXSTACKTOP - SIZEOF_UTRAPFRAME = xstack + of_nat k \<and> k + 52 \<le> 4096"
    by (intro exI [of _ 4044]) (simp add: xstack_def const_defs)
  assume esp: "esp < UXSTACKTOP" "xstack \<le> esp" "xstack \<le> esp - SIZEOF_UTRAPFRAME - 4"
  let ?utf = "esp - SIZEOF_UTRAPFRAME - 4"
  have x: "unat xstack = 4005556224" "unat UXSTACKTOP = 4005560320"
    by (simp_all add: xstack_def const_defs)
  have utf: "?utf = esp - 56"
    by (simp add: const_defs)
  have low: "unat (esp - 56) = unat esp - 56"
    using esp(2) x by (simp add: unat_sub_if' word_le_nat_alt)
  have "unat (?utf - xstack) = unat (esp - 56) - unat xstack"
    using esp(3) by (simp add: utf unat_sub)
  moreover have "unat xstack + 56 \<le> unat esp"
    using esp(3) low x by (simp add: utf word_le_nat_alt)
  ultimately have "unat (?utf - xstack) = unat esp - 56 - unat xstack" "unat xstack + 56 \<le> unat esp"
    using low by simp_all
  then have "unat (?utf - xstack) + 52 \<le> 4096"
    using esp(1) x by (simp add: word_less_nat_alt)
  then show "\<exists>k. ?utf = xstack + of_nat k \<and> k + 52 \<le> 4096"
    by (intro exI [of _ "unat (?utf - xstack)"]) simp
qed

text \<open>An environment with a page fault handler has a writable exception stack, or none that passes the check.\<close>

definition user_page :: "kstate \<Rightarrow> nat \<Rightarrow> u32 \<Rightarrow> bool" where
  "user_page s i va =
     (case pde_of s i (unat (PDX va)) of None \<Rightarrow> False | Some pt \<Rightarrow> mem s pt (unat (PTX va)) AND PTE_U = PTE_U)"

definition xstack_ok :: "nat \<Rightarrow> kstate \<Rightarrow> bool" where
  "xstack_ok c s = (env_pgfault_upcall (envs s c) = 0 \<or> writable s c xstack 4096 \<or> \<not> user_page s c (UXSTACKTOP - 1))"

lemma pgfault_upcall_safe:
  assumes inv: "kinv M {} s" and cur: "current c s" and stk: "writable s c utf 52"
  shows "returns (\<lambda>_ _. False) (\<lambda>s'. kinv M {} s') (pgfault_upcall fault_va (Saved c) utf s)"
proof (rule pgfault_upcall_eq [OF inv cur stk, of fault_va])
  fix s1 pd
  let ?tf = "(env_tf (envs s c))\<lparr>tf_eip := env_pgfault_upcall (envs s c), tf_esp := utf\<rparr>"
  let ?f = "\<lambda>x. x\<lparr>env_tf := ?tf, env_runs := env_runs x + 1\<rparr>"
  assume st: "ustore s s1" and run: "pgfault_upcall fault_va (Saved c) utf s =
      (let tf = ?tf in Iret (hw (Iret_tf tf) (upd_env c (\<lambda>x. x\<lparr>env_tf := tf, env_runs := env_runs x + 1\<rparr>) s1)))"
  have "live c s1"
    using current_live [OF cur] ustore_live [OF st] by simp
  moreover from this have "c < NENV" "env_status (envs s1 c) \<noteq> ENV_FREE"
    by (simp_all add: live_def)
  moreover have "harmless ?f"
    by (simp add: harmless_def env_ok_def)
  ultimately have "kinv M {} (upd_env c ?f s1)"
    by (intro harmless_upd_env(1) [OF ustore_kinv [OF inv st]])
  then show ?thesis
    by (simp add: run Let_def kinv_hw)
qed

lemma user_mem_assert_self:
  assumes "kinv M {} s" and "live c s"
  shows "returns (\<lambda>_ s'. s' = s \<and> user_mem_check c va len (perm OR PTE_U) s = Ok 0 s) (\<lambda>s'. kinv M {} s') (user_mem_assert c va len perm s)"
proof -
  have c: "c < NENV" "env_status (envs s c) \<noteq> ENV_FREE" "curenv s = Some c"
    using assms(2) by (simp_all add: live_def)
  obtain pd where pd: "env_pgdir (envs s c) = Some pd"
    by (rule kinv_dir [OF assms(1) c(1,2)])
  consider "user_mem_check c va len (perm OR PTE_U) s = Ok 0 s"
    | a where "user_mem_check c va len (perm OR PTE_U) s = Ok (- E_FAULT) (s\<lparr>user_mem_check_addr := a\<rparr>)"
    using user_mem_check_total [OF kinvD(1) [OF assms(1)] c(1) pd] by blast
  then show ?thesis
  proof cases
    case 1
    then show ?thesis
      by (simp add: user_mem_assert_def)
  next
    case (2 a)
    let ?s = "s\<lparr>user_mem_check_addr := a\<rparr>"
    have "returns (\<lambda>_ _. False) (\<lambda>s'. kinv M {} s') (env_destroy c ?s)"
      by (rule destroy_self_safe [OF kinv_mem_check_addr [OF assms(1)]]) (use assms(2) in \<open>simp add: live_def\<close>)
    then show ?thesis
      using 2 c(3) by (auto simp: user_mem_assert_def the_curenv_def const_defs intro: returns_mono)
  qed
qed

lemma xstack_checked:
  assumes inv: "kinv M {} s" and L: "live c s" and checked: "user_mem_check c (UXSTACKTOP - 1) 1 (0 OR PTE_U) s = Ok 0 s"
  shows "user_page s c (UXSTACKTOP - 1)"
proof -
  have cN: "c < NENV" "env_status (envs s c) \<noteq> ENV_FREE"
    using L by (simp_all add: live_def)
  obtain pd where pd: "env_pgdir (envs s c) = Some pd"
    by (rule kinv_dir [OF inv cN])
  have "ROUNDUP (UXSTACKTOP - 1 + 1) PGSIZE \<noteq> ROUNDDOWN (UXSTACKTOP - 1) PGSIZE" "UXSTACKTOP - 1 < UTOP"
    by (simp_all add: const_defs ROUNDUP_def ROUNDDOWN_def)
  then show ?thesis
    using user_mem_check_page [OF kinvD(1) [OF inv] cN(1) pd, of "UXSTACKTOP - 1" 1 PTE_U] checked
    by (auto simp: user_page_def const_defs split: if_splits)
qed

lemma page_fault_safe:
  assumes inv: "kinv M {} s" and cur: "current c s" and mode: "tf_cs (env_tf (envs s c)) AND 3 \<noteq> 0" and ok: "xstack_ok c s"
  shows "returns (\<lambda>_ _. False) (\<lambda>s'. kinv M {} s') (page_fault_handler fault_va (Saved c) s)"
proof -
  note L = current_live [OF cur]
  have c: "curenv s = Some c"
    using cur by (simp add: current_def)
  let ?tf = "env_tf (envs s c)"
  have up: "returns (\<lambda>_ _. False) (\<lambda>s'. kinv M {} s') (pgfault_upcall fault_va (Saved c) (xstack + of_nat k) s)"
    if "writable s c xstack 4096" "k + 52 \<le> 4096" for k
    by (rule pgfault_upcall_safe [OF inv cur writable_sub [OF that]])
  show ?thesis
  proof (cases "env_pgfault_upcall (envs s c) = 0")
    case True
    then show ?thesis
      using destroy_self_safe [OF inv L] mode by (simp add: page_fault_handler_def tf_at_def the_curenv_def c)
  next
    case False
    have checked: "returns (\<lambda>_ s'. s' = s \<and> user_mem_check c (UXSTACKTOP - 1) 1 (0 OR PTE_U) s = Ok 0 s) (\<lambda>s'. kinv M {} s')
        (user_mem_assert c (UXSTACKTOP - 1) 1 0 s)"
      by (rule user_mem_assert_self [OF inv L])
    have outer: "returns (\<lambda>_ s'. s' = s \<and> writable s c xstack 4096) (\<lambda>s'. kinv M {} s') (user_mem_assert c (UXSTACKTOP - 1) 1 0 s)"
      by (rule returns_mono [OF checked]) (use ok False xstack_checked [OF inv L] in \<open>auto simp: xstack_ok_def\<close>)
    have inner: "returns (\<lambda>_ s'. s' = s) (\<lambda>s'. kinv M {} s') (user_mem_assert c (tf_eip ?tf) 1 0 s)"
      by (rule returns_mono [OF user_mem_assert_self [OF inv L]]) simp_all
    have nested: "returns (\<lambda>_ _. False) (\<lambda>s'. kinv M {} s')
        (let utf = tf_esp ?tf - SIZEOF_UTRAPFRAME - 4
         in if utf < UXSTACKTOP - PGSIZE then env_destroy c s else pgfault_upcall fault_va (Saved c) utf s)"
      if "writable s c xstack 4096" "tf_esp ?tf < UXSTACKTOP" "UXSTACKTOP - PGSIZE \<le> tf_esp ?tf"
      using utf_in_xstack(2) [of "tf_esp ?tf"] up [OF that(1)] destroy_self_safe [OF inv L] that(2,3)
      by (auto simp: Let_def xstack_def not_less)
    have "returns (\<lambda>_ _. False) (\<lambda>s'. kinv M {} s')
        (kbind (user_mem_assert c (UXSTACKTOP - 1) 1 0 s) (\<lambda>_ s.
           if tf_esp ?tf < UXSTACKTOP \<and> tf_esp ?tf \<ge> UXSTACKTOP - PGSIZE then
             kbind (user_mem_assert c (tf_eip ?tf) 1 0 s) (\<lambda>_ s.
               let utf = tf_esp ?tf - SIZEOF_UTRAPFRAME - 4
               in if utf < UXSTACKTOP - PGSIZE then env_destroy c s else pgfault_upcall fault_va (Saved c) utf s)
           else pgfault_upcall fault_va (Saved c) (UXSTACKTOP - SIZEOF_UTRAPFRAME) s))"
      by (rule returns_kbindI [OF outer])
        (use utf_in_xstack(1) up nested in \<open>auto intro: returns_kbindI [OF inner]\<close>)
    then show ?thesis
      using mode False by (simp add: page_fault_handler_def tf_at_def the_curenv_def c Let_def)
  qed
qed

text \<open>What the kernel relies on when a trap is delivered to it from user mode.\<close>

definition trap_ok :: "trap_in \<Rightarrow> nat \<Rightarrow> trapframe \<Rightarrow> kstate \<Rightarrow> bool" where
  "trap_ok inp c tf s =
     (let no = tf_trapno tf; r = tf_regs tf
      in tf_cs tf AND 3 = 3 \<and> no \<noteq> T_BRKPT \<and> no \<noteq> T_DEBUG
         \<and> (no = T_TLBFLUSH \<longrightarrow> tlb_va s \<noteq> 0)
         \<and> (no = T_PGFLT \<longrightarrow> xstack_ok c s)
         \<and> (no = T_SYSCALL \<longrightarrow>
              (case sysno_of (reg_eax r) of None \<Rightarrow> False | Some call \<Rightarrow> args_mapped s c call (reg_edx r) (reg_ecx r)))
         \<and> (no = IRQ_OFFSET + IRQ_TIMER \<longrightarrow> ticks s \<noteq> NOT 0)
         \<and> (no = IRQ_OFFSET + IRQ_NIC \<longrightarrow> scb_status inp AND scb_status_cna = 0 \<or> cbl_count (nic s) \<noteq> 0))"

lemma save_tf_access:
  fixes s c tf
  defines "t \<equiv> upd_env c (\<lambda>x. x\<lparr>env_tf := tf\<rparr>) s"
  shows "readable t i va n = readable s i va n" and "writable t i va n = writable s i va n"
    and "user_page t = user_page s"
proof -
  have dir: "dir_of t = dir_of s"
    by (auto simp: t_def dir_of_def fun_eq_iff upd_env_def)
  have mem: "mem t = mem s"
    by (simp add: t_def)
  have "va_entry t = va_entry s"
    by (rule va_entry_same) (simp_all add: t_def upd_env_def)
  then show "readable t i va n = readable s i va n"
    by (simp add: readable_def)
  show "writable t i va n = writable s i va n"
    by (simp add: writable_def dir xlate_w_def mem)
  have "pde_of t = pde_of s"
    by (simp add: fun_eq_iff pde_of_def dir mem)
  then show "user_page t = user_page s"
    by (simp add: fun_eq_iff user_page_def mem split: option.split)
qed

lemma save_tf:
  fixes s c tf
  defines "t \<equiv> upd_env c (\<lambda>x. x\<lparr>env_tf := tf\<rparr>) s"
  assumes inv: "kinv M {} s" and cur: "current c s" and ok: "trap_ok inp c tf s"
  shows "kinv M {} t" and "current c t" and "trap_ok inp c tf t" and "env_tf (envs t c) = tf"
proof -
  note access = save_tf_access [where s = s and c = c and tf = tf, folded t_def]
  have c: "c < NENV" "env_status (envs s c) \<noteq> ENV_FREE"
    using current_live [OF cur] by (simp_all add: live_def)
  show "kinv M {} t"
    unfolding t_def using harmless_upd_env(1) [OF inv current_live [OF cur] c] by simp
  show "current c t" "env_tf (envs t c) = tf"
    using cur by (simp_all add: t_def current_def)
  have "xstack_ok c t = xstack_ok c s"
    by (simp add: xstack_ok_def access) (simp add: t_def)
  moreover have "args_mapped t c = args_mapped s c"
    by (simp add: fun_eq_iff args_mapped_def access)
  moreover have "tlb_va t = tlb_va s" "ticks t = ticks s" "nic t = nic s"
    by (simp_all add: t_def upd_env_def)
  ultimately have "trap_ok inp c tf t = trap_ok inp c tf s"
    unfolding trap_ok_def by presburger
  then show "trap_ok inp c tf t"
    using ok by blast
qed

lemma tlbflush_safe:
  assumes inv: "kinv M {} s" and L: "live c s" and "tlb_va s \<noteq> 0"
  shows "sys_safe M c
    (kbind (spin_lock tlb_lock tlb_lock_update s) (\<lambda>_ s.
     kbind (kassert (tlb_va s \<noteq> 0) msg s) (\<lambda>_ s.
     kbind (tlb_invalidate_cur (tlb_va s) s) (\<lambda>_ s. Ok () (hw Lapic_eoi (spin_unlock tlb_lock_update s))))))"
proof -
  have "curenv s = Some c" "\<not> tlb_lock s"
    using L kinvD(4) [OF inv] by (simp_all add: live_def)
  moreover from this have unlocked: "s\<lparr>tlb_lock := False, hw_log := l\<rparr> = s\<lparr>hw_log := l\<rparr>" for l
    by (cases s) simp
  ultimately show ?thesis
    using assms(3) L kinv_hw [OF kinv_hw [OF inv], of Lapic_eoi "Invlpg (tlb_va s)"]
    by (simp add: spin_lock_def spin_unlock_def kassert_def tlb_invalidate_cur_def the_curenv_def tlb_invalidate_def hw_def live_def unlocked)
qed

lemma timer_safe:
  assumes inv: "kinv M {} s" and cur: "current c s" and "ticks s \<noteq> NOT 0"
  shows "sys_safe M c
    (kbind (if is_bcpu s then time_tick s else Ok () s) (\<lambda>_ s.
     let s = hw Lapic_eoi s
     in kbind (the_curenv s) (\<lambda>c s.
        kbind (kassert (env_status (envs s c) = ENV_RUNNING) msg s) (\<lambda>_ s. yield_cpu s))))"
proof -
  have "sys_safe M c (let s = hw Lapic_eoi s
     in kbind (the_curenv s) (\<lambda>c s.
        kbind (kassert (env_status (envs s c) = ENV_RUNNING) msg s) (\<lambda>_ s. yield_cpu s)))"
    if "kinv M {} s" "current c s" for s
  proof -
    have "kinv M {} (hw Lapic_eoi s)" "live c (hw Lapic_eoi s)"
      using kinv_hw [OF that(1)] current_live [OF that(2)] by simp_all
    then have "sys_safe M c (yield_cpu (hw Lapic_eoi s))"
      unfolding sys_safe_def by (intro returns_mono [OF yield_cpu_safe]) auto
    then show ?thesis
      using that(2) by (simp add: the_curenv_def kassert_def current_def hw_def)
  qed
  from this [OF inv cur] this [OF kinv_ready [OF inv]] show ?thesis
    using assms(3) cur by (simp add: time_tick_def current_def)
qed

lemma device_safe:
  assumes inv: "kinv M {} s" and L: "live c s"
  shows "st AND scb_status_cna = 0 \<or> cbl_count (nic s) \<noteq> 0 \<Longrightarrow> sys_safe M c (Ok () (hw Lapic_eoi (s\<lparr>nic := e100_intr st (nic s)\<rparr>)))"
    and "sys_safe M c (let (reset, k) = kbd_intr ds (cons s);
               s = s\<lparr>cons := k\<rparr>;
               s = (if reset then hw Reboot s else s)
           in Ok () (hw Lapic_eoi s))"
proof -
  have dev: "cons_inv (cons s)" "tx_inv (nic s)" "rx_inv (nic s)"
    using kinvD(5) [OF inv] by (simp_all add: dev_inv_def)
  show "sys_safe M c (Ok () (hw Lapic_eoi (s\<lparr>nic := e100_intr st (nic s)\<rparr>)))"
    if ok: "st AND scb_status_cna = 0 \<or> cbl_count (nic s) \<noteq> 0"
  proof -
    have "tx_inv (e100_intr st (nic s))"
      using e100_intr_tx(2) [OF dev(3) _ dev(2)] e100_intr_idle [OF dev(3,2)] ok by blast
    then show ?thesis
      using e100_intr_rx(2) [OF dev(3)] kinv_dev(2) [OF inv dev(1)] L by (simp add: kinv_hw)
  qed
  show "sys_safe M c (let (reset, k) = kbd_intr ds (cons s);
               s = s\<lparr>cons := k\<rparr>;
               s = (if reset then hw Reboot s else s)
           in Ok () (hw Lapic_eoi s))"
    using kinv_dev(1) [OF inv kbd_intr_inv [OF dev(1)] dev(2,3), of ds] L
    by (simp add: case_prod_unfold Let_def kinv_hw)
qed

lemma trap_dispatch_safe:
  assumes inv: "kinv M {} s" and cur: "current c s" and ok: "trap_ok inp c tf s" and tf: "env_tf (envs s c) = tf"
  shows "sys_safe M c (trap_dispatch inp (Saved c) s)"
proof -
  note L = current_live [OF cur]
  let ?no = "tf_trapno tf"
  have c: "c < NENV" "env_status (envs s c) \<noteq> ENV_FREE" "curenv s = Some c"
    using L by (simp_all add: live_def)
  have mode: "tf_cs tf AND 3 = 3" and no: "?no \<noteq> T_BRKPT" "?no \<noteq> T_DEBUG"
    using ok by (simp_all add: trap_ok_def Let_def)
  then have gd: "tf_cs tf \<noteq> GD_KT"
    by (auto simp: const_defs)
  have ne: "sys_safe M c m" if "returns (\<lambda>_ _. False) (\<lambda>s'. kinv M {} s') m" for m :: "(unit, kstate) kres"
    unfolding sys_safe_def by (rule returns_mono [OF that]) simp_all
  have pf: "sys_safe M c (page_fault_handler (cr2 inp) (Saved c) s)" if "?no = T_PGFLT"
    using ok that mode tf by (intro ne page_fault_safe [OF inv cur]) (simp_all add: trap_ok_def Let_def)
  have sys: "sys_safe M c (kbind (syscall (polls inp) (reg_eax (tf_regs tf)) (reg_edx (tf_regs tf)) (reg_ecx (tf_regs tf))
        (reg_ebx (tf_regs tf)) (reg_edi (tf_regs tf)) (reg_esi (tf_regs tf)) s) (\<lambda>v s.
      Ok () (upd_tf (Saved c) (\<lambda>tf. tf\<lparr>tf_regs := (tf_regs tf)\<lparr>reg_eax := of_int v\<rparr>\<rparr>) s)))" if trapno: "?no = T_SYSCALL"
  proof (rule sys_safe_bind)
    obtain call where "sysno_of (reg_eax (tf_regs tf)) = Some call" "args_mapped s c call (reg_edx (tf_regs tf)) (reg_ecx (tf_regs tf))"
      using ok trapno by (auto simp: trap_ok_def Let_def split: option.splits)
    then show "sys_safe M c (syscall (polls inp) (reg_eax (tf_regs tf)) (reg_edx (tf_regs tf)) (reg_ecx (tf_regs tf))
        (reg_ebx (tf_regs tf)) (reg_edi (tf_regs tf)) (reg_esi (tf_regs tf)) s)"
      by (rule syscall_kept [OF inv cur])
  next
    fix v s'
    assume s': "kinv M {} s'" "live c s'"
    then show "sys_safe M c (Ok () (upd_tf (Saved c) (\<lambda>tf. tf\<lparr>tf_regs := (tf_regs tf)\<lparr>reg_eax := of_int v\<rparr>\<rparr>) s'))"
      using harmless_upd_env [OF s'] by (simp add: upd_tf_def live_def)
  qed
  have eoi: "sys_safe M c (Ok () (hw Lapic_eoi s))" "sys_safe M c (kbind (the_curenv s) (\<lambda>c s. env_destroy c s))"
    using kinv_hw [OF inv] L ne [OF destroy_self_safe [OF inv L]] by (simp_all add: the_curenv_def c)
  have hyps: "?no = T_TLBFLUSH \<Longrightarrow> tlb_va s \<noteq> 0" "?no = IRQ_OFFSET + IRQ_TIMER \<Longrightarrow> ticks s \<noteq> NOT 0"
      "?no = IRQ_OFFSET + IRQ_NIC \<Longrightarrow> scb_status inp AND scb_status_cna = 0 \<or> cbl_count (nic s) \<noteq> 0"
    using ok unfolding trap_ok_def Let_def by blast+
  have branch: "sys_safe M c (if b then x else y)" if "b \<Longrightarrow> sys_safe M c x" "\<not> b \<Longrightarrow> sys_safe M c y"
    for b and x y :: "(unit, kstate) kres"
    using that by simp
  show ?thesis
    unfolding trap_dispatch_def tf_at_def tfloc.case tf Let_def [of tf] Let_def [of ?no] Let_def [of "tf_regs tf"]
    by (assumption | rule branch pf sys eoi device_safe [OF inv L] tlbflush_safe [OF inv L] timer_safe [OF inv cur] hyps | use no gd in blast)+
qed

lemma dispatch_page_fault:
  assumes "tf_trapno (tf_at loc s) = T_PGFLT"
  shows "trap_dispatch inp loc s = page_fault_handler (cr2 inp) loc s"
proof -
  have "(T_PGFLT = T_TLBFLUSH) = False" "(T_PGFLT = T_HALT) = False" "(T_PGFLT = IRQ_OFFSET + IRQ_ERROR) = False"
    by (simp_all add: const_defs)
  then show ?thesis
    by (simp only: trap_dispatch_def Let_def [of "tf_at loc s"] assms Let_def [of T_PGFLT] Let_def [of "tf_regs _"] if_False if_True simp_thms)
qed

lemma st_words_bytes: "st_words pd va ws s = st_bytes pd va (concat (map bytes_of32 ws)) s"
proof (induction ws arbitrary: va s)
  case (Cons w ws)
  have "st_words pd (va + 4) ws = st_bytes pd (va + 4) (concat (map bytes_of32 ws))"
    by (rule ext) (rule Cons.IH)
  then show ?case
    by (simp add: st_bytes_append st32_def)
qed simp

lemma length_concat_bytes: "length (concat (map bytes_of32 ws)) = 4 * length ws"
  by (induction ws) simp_all

lemma st_words_ld_words:
  assumes inv: "kinv M A s" and dir: "dir_of s i = Some pd" and w: "writable s i va (4 * length ws)"
    and st: "st_words pd va ws s = Some s'" and page: "in_page va (4 * length ws)" and len: "length ws \<le> 1024"
  shows "ld_words s' pd va (length ws) = Some ws"
proof (rule ld_words_bytes)
  fix k
  assume k: "k < 4 * length ws"
  have "same_page va (va + of_nat k)"
    using page k by (simp add: in_page_def)
  then have "ld8 s' pd (va + of_nat k) = (if unat (of_nat k :: u32) < length (concat (map bytes_of32 ws))
      then Some (concat (map bytes_of32 ws) ! unat (of_nat k :: u32)) else ld8 s pd (va + of_nat k))"
    using st_bytes_ld8 [OF inv dir, of va "concat (map bytes_of32 ws)" s' "va + of_nat k"] w st page len
    by (simp add: st_words_bytes length_concat_bytes)
  moreover have "unat (of_nat k :: u32) = k"
    using k len by (simp add: unat_of_nat)
  ultimately show "ld8 s' pd (va + of_nat k) = Some (concat (map bytes_of32 ws) ! k)"
    using k by (simp add: length_concat_bytes)
qed

lemma xstack_in_page: "in_page (UXSTACKTOP - SIZEOF_UTRAPFRAME) 52"
proof -
  have u: "unat (UXSTACKTOP - SIZEOF_UTRAPFRAME) = 4005560268"
    by (simp add: const_defs)
  have "unat (UXSTACKTOP - SIZEOF_UTRAPFRAME + of_nat k) = 4005560268 + k" if "k < 52" for k
    using that u by (simp add: unat_word_ariths unat_of_nat)
  moreover have "(4005560268 + k) div 4096 = (4005560268 :: nat) div 4096" if "k < 52" for k
    using that by (intro div_nat_eqI) simp_all
  ultimately show ?thesis
    unfolding in_page_def same_page_def u by simp
qed

lemma xstack_passes:
  assumes inv: "kinv M {} s" and L: "live c s" and page: "user_page s c (UXSTACKTOP - 1)"
  shows "user_mem_assert c (UXSTACKTOP - 1) 1 0 s = Ok () s"
proof -
  have cN: "c < NENV" "env_status (envs s c) \<noteq> ENV_FREE"
    using L by (simp_all add: live_def)
  obtain pd where pd: "env_pgdir (envs s c) = Some pd"
    by (rule kinv_dir [OF inv cN])
  have "UXSTACKTOP - 1 < UTOP"
    by (simp add: const_defs)
  then have "user_mem_check c (UXSTACKTOP - 1) 1 PTE_U s = Ok 0 s"
    using user_mem_check_page [OF kinvD(1) [OF inv] cN(1) pd, of "UXSTACKTOP - 1" 1 PTE_U] page
    by (simp add: user_page_def split: option.splits)
  then show ?thesis
    by (simp add: user_mem_assert_def)
qed

lemma pgfault_upcall_delivers:
  assumes inv: "kinv M {} s" and cur: "current c s" and w: "writable s c xstack 4096"
  obtains s' pd where "pgfault_upcall va (Saved c) (UXSTACKTOP - SIZEOF_UTRAPFRAME) s = Iret s'"
    and "env_pgdir (envs s' c) = Some pd"
    and "ld_words s' pd (UXSTACKTOP - SIZEOF_UTRAPFRAME) 13 = Some (utf_words va (env_tf (envs s c)))"
    and "hw_log s' = Iret_tf ((env_tf (envs s c))\<lparr>tf_eip := env_pgfault_upcall (envs s c),
           tf_esp := UXSTACKTOP - SIZEOF_UTRAPFRAME\<rparr>) # hw_log s"
proof -
  let ?utf = "UXSTACKTOP - SIZEOF_UTRAPFRAME" and ?ws = "utf_words va (env_tf (envs s c))"
  obtain k where k: "?utf = xstack + of_nat k" "k + 52 \<le> 4096"
    using utf_in_xstack(1) by blast
  have w52: "writable s c ?utf 52"
    unfolding k(1) by (rule writable_sub [OF w k(2)])
  obtain s1 pd where s1: "env_pgdir (envs s c) = Some pd" "st_words pd ?utf ?ws s = Some s1" "ustore s s1"
      "pgfault_upcall va (Saved c) ?utf s =
      (let tf = (env_tf (envs s c))\<lparr>tf_eip := env_pgfault_upcall (envs s c), tf_esp := ?utf\<rparr>
       in Iret (hw (Iret_tf tf) (upd_env c (\<lambda>x. x\<lparr>env_tf := tf, env_runs := env_runs x + 1\<rparr>) s1)))"
    by (rule pgfault_upcall_eq [OF inv cur w52, of va])
  obtain m where m: "s1 = s\<lparr>mem := m\<rparr>"
    by (rule ustore_state [OF s1(3)])
  have dir: "dir_of s c = Some pd"
    using s1(1) current_live [OF cur] by (simp add: dir_of_def live_def)
  have ld: "ld_words s1 pd ?utf 13 = Some ?ws"
    using st_words_ld_words [OF inv dir _ s1(2)] w52 xstack_in_page by (simp add: length_utf_words)
  have "ld_words (hw ev (upd_env c f s1)) pd ?utf 13 = Some ?ws" for ev f
    using ld_words_mem [of "hw ev (upd_env c f s1)" s1] ld by (simp add: hw_def)
  then show thesis
    by (intro that [where pd = pd, OF s1(4) [unfolded Let_def]]) (use s1(1) m in \<open>simp_all add: hw_def upd_env_def\<close>)
qed

section \<open>An example with an exception stack\<close>

text \<open>
  The example state in which environment 0 has a fault handler at \<open>0x800020\<close> and an exception stack: page 2 is its page
  table and page 3 the stack.
\<close>

definition stack_example :: kstate where
  "stack_example = example\<lparr>pp_ref := (\<lambda>_. 0)(1 := 1, 2 := 1, 3 := 1),
     page_free_list := fold LIST_INSERT_HEAD [7, 6, 5, 4] empty_list,
     mem := (mem example)(1 := (mem example 1)(954 := page2pa 2 OR PTE_P OR PTE_W OR PTE_U),
       2 := (\<lambda>_. 0)(1023 := page2pa 3 OR PTE_P OR PTE_W OR PTE_U)),
     envs := (envs example)(0 := example_env\<lparr>env_pgfault_upcall := 0x800020\<rparr>)\<rparr>"

lemma stack_entries:
  "pte_target (page2pa 2 OR PTE_P OR PTE_W OR PTE_U) = Some 2" "pte_target (page2pa 3 OR PTE_P OR PTE_W OR PTE_U) = Some 3"
  "(page2pa p OR PTE_P OR PTE_W OR PTE_U) AND PTE_W \<noteq> 0" "(page2pa p OR PTE_P OR PTE_W OR PTE_U) AND PTE_U = PTE_U"
  by (simp_all add: pte_target_def page2pa_def page2ppn_def const_defs addr_macros bit.conj_disj_distrib2)

lemma stack_dir: "dir_of stack_example i = (if i = 0 then Some 1 else None)"
  by (simp add: dir_of_def stack_example_def example_def example_env_def free_env_def const_defs)

lemma stack_mem:
  "d < NPDE \<Longrightarrow> mem stack_example 1 d = (if d = 954 then page2pa 2 OR PTE_P OR PTE_W OR PTE_U else 0)"
  "mem stack_example 2 t = (if t = 1023 then page2pa 3 OR PTE_P OR PTE_W OR PTE_U else 0)"
  using kernel_pdes by (auto simp: stack_example_def example_def)

lemma stack_target: "target stack_example = (\<lambda>_. None)(Dir 0 := Some 1, Pd 0 954 := Some 2, Pt 0 954 1023 := Some 3)"
proof
  fix sl
  have zero: "pte_target 0 = None"
    by (simp add: pte_target_def)
  have N: "954 < NPDE"
    by (simp add: const_defs addr_macros)
  have pde: "pde_of stack_example i d = (if i = 0 \<and> d = 954 then Some 2 else None)" for i d
    by (simp add: pde_of_cases stack_dir stack_mem stack_entries zero N del: One_nat_def)
  have pte: "pte_of stack_example i d k = (if i = 0 \<and> d = 954 \<and> k = 1023 then Some 3 else None)" for i d k
    by (simp add: pte_of_cases pde stack_mem stack_entries zero)
  show "target stack_example sl = ((\<lambda>_. None)(Dir 0 := Some 1, Pd 0 954 := Some 2, Pt 0 954 1023 := Some 3)) sl"
    by (cases sl) (simp_all add: stack_dir pde pte)
qed

lemma stack_same:
  "npage stack_example = npage example" "boot_pgdir stack_example = boot_pgdir example"
  "mem stack_example (boot_pgdir example) = mem example (boot_pgdir example)"
  "NPDE \<le> d \<Longrightarrow> mem stack_example 1 d = mem example 1 d"
  "env_free_list stack_example = env_free_list example" "env_table_lock stack_example = env_table_lock example"
  "sched_pre stack_example = sched_pre example" "page_table_lock stack_example = page_table_lock example"
  "tlb_lock stack_example = tlb_lock example" "cons stack_example = cons example" "nic stack_example = nic example"
  "envs stack_example i = (envs example i)\<lparr>env_pgfault_upcall := if i = 0 then 0x800020 else 0\<rparr>"
proof -
  have "boot_pgdir example = 0" "\<not> NPDE \<le> 954"
    by (simp add: example_def, simp add: const_defs addr_macros)
  then show "mem stack_example (boot_pgdir example) = mem example (boot_pgdir example)"
    "NPDE \<le> d \<Longrightarrow> mem stack_example 1 d = mem example 1 d"
    by (auto simp: stack_example_def)
  show "envs stack_example i = (envs example i)\<lparr>env_pgfault_upcall := if i = 0 then 0x800020 else 0\<rparr>"
    by (simp add: stack_example_def example_def free_env_def)
qed (simp_all add: stack_example_def)

lemma stack_kinv: "kinv {1..<8} {} stack_example"
proof -
  have "page_free_list stack_example = fold LIST_INSERT_HEAD [7, 6, 5, 4] empty_list"
    by (simp add: stack_example_def)
  then have list: "LIST_rep (page_free_list stack_example) (rev [7, 6, 5, 4])"
    by (simp only:) (rule fold_insert_empty, simp)
  have refs: "refs (target stack_example) p =
      (if p = 1 then {Dir 0} else if p = 2 then {Pd 0 954} else if p = 3 then {Pt 0 954 1023} else {})" for p
    by (auto simp: stack_target refs_def)
  have "set (rev [7, 6, 5, 4 :: nat]) = {p \<in> {1..<8}. p \<noteq> 1 \<and> p \<noteq> 2 \<and> p \<noteq> 3}"
    by auto
  moreover have "pp_ref stack_example = (\<lambda>_. 0)(1 := 1, 2 := 1, 3 := 1)"
    by (simp add: stack_example_def)
  moreover have "0 < NENV" "954 < NPDE"
    by (simp_all add: const_defs addr_macros)
  ultimately have "refinv {1..<8} {} {} (target stack_example) (pp_ref stack_example) (page_free_list stack_example)"
    using list refs by (intro refinvI [where xs = "rev [7, 6, 5, 4]"]) (auto simp: stack_target split: if_splits)
  moreover have "kmap stack_example"
  proof (rule kmap_change [OF minvD(6) [OF example_minv]])
    show "dir_of example i = Some pd \<and> mem stack_example pd d = mem example pd d \<or> mem stack_example pd d = kern_pde example pd d"
      if "dir_of stack_example i = Some pd" "NPDE \<le> d" "d < 1024" for i pd d
      using that stack_same(4) by (simp add: stack_dir example_dir split: if_splits)
  qed (simp_all only: stack_same)
  moreover have "boot_pgdir example = 0"
    by (simp add: example_def)
  ultimately have minv: "minv {1..<8} {} {} stack_example"
    using minvD(2-5) [OF example_minv] unfolding minv_def stack_same by simp
  have "env_ok i (envs stack_example i)" if "i < NENV" for i
    using einvD(1) [OF example_einv that] unfolding env_ok_def stack_same by simp
  moreover have "{i. i < NENV \<and> env_status (envs stack_example i) = ENV_FREE} = {i. i < NENV \<and> env_status (envs example i) = ENV_FREE}"
    by (simp add: stack_same)
  ultimately have "einv stack_example"
    using example_einv unfolding einv_def stack_same by simp
  then show ?thesis
    using minv kinvD(3-5) [OF example_kinv] unfolding kinv_def dev_inv_def stack_same by simp
qed

lemma stack_index: "k < 4096 \<Longrightarrow> unat (PDX (xstack + of_nat k)) = 954" "k < 4096 \<Longrightarrow> unat (PTX (xstack + of_nat k)) = 1023"
    "k < 4096 \<Longrightarrow> xstack + of_nat k < UTOP"
proof -
  have x: "unat xstack = 4005556224" "unat UTOP = 4005560320"
    by (simp_all add: xstack_def const_defs)
  assume k: "k < 4096"
  then have u: "unat (xstack + of_nat k) = 4005556224 + k"
    by (simp add: unat_word_ariths unat_of_nat x)
  have "(4005556224 + k) div 2 ^ 12 = 977919"
    using k by (intro div_nat_eqI) simp_all
  then show "unat (PTX (xstack + of_nat k)) = 1023"
    by (simp only: unat_PTX u) simp
  have "(4005556224 + k) div 2 ^ 22 = 954"
    using k by (intro div_nat_eqI) simp_all
  then show "unat (PDX (xstack + of_nat k)) = 954"
    by (simp only: unat_PDX u) simp
  show "xstack + of_nat k < UTOP"
    using k by (simp add: word_less_nat_alt u x)
qed

lemma stack_writable: "writable stack_example 0 xstack 4096"
proof -
  have "954 < NPDE"
    by (simp add: const_defs addr_macros)
  then have "xlate_w stack_example 1 (xstack + of_nat k) = Some 3" if "k < 4096" for k
    using stack_index [OF that] by (simp add: xlate_w_def stack_mem wr_target_def stack_entries del: One_nat_def)
  then show ?thesis
    by (simp add: writable_def stack_index stack_dir del: One_nat_def)
qed

lemma stack_user_page: "user_page stack_example 0 (UXSTACKTOP - 1)"
proof -
  have top: "UXSTACKTOP - 1 = xstack + of_nat 4095"
    by (simp add: xstack_def const_defs)
  have "954 < NPDE"
    by (simp add: const_defs addr_macros)
  then show ?thesis
    unfolding top using stack_index [of 4095] by (simp add: user_page_def pde_of_cases stack_dir stack_mem stack_entries del: One_nat_def)
qed

section \<open>Properties\<close>


text \<open>
  C22. Delivery of a page fault to user level. When an environment with a page fault handler faults outside its
  exception stack, the trap resumes it in the handler with its stack pointer at a frame at the top of the exception
  stack, and the thirteen words of that frame, as the environment reads them through its own page table, are
  the fault address, the error code, the registers, and the instruction pointer, flags and stack pointer at the fault.
\<close>

theorem page_fault_delivered:
  assumes inv: "kinv M {} s" and cur: "current c s"
    and tf: "tf_trapno tf = T_PGFLT" "tf_cs tf AND 3 = 3" "\<not> (UXSTACKTOP - PGSIZE \<le> tf_esp tf \<and> tf_esp tf < UXSTACKTOP)"
    and handler: "env_pgfault_upcall (envs s c) \<noteq> 0"
    and stack: "writable s c xstack 4096" "user_page s c (UXSTACKTOP - 1)"
  shows "\<exists>s' pd. trap inp tf s = Iret s' \<and> env_pgdir (envs s' c) = Some pd
    \<and> ld_words s' pd (UXSTACKTOP - SIZEOF_UTRAPFRAME) 13 = Some (utf_words (cr2 inp) tf)
    \<and> hw_log s' = Iret_tf (tf\<lparr>tf_eip := env_pgfault_upcall (envs s c), tf_esp := UXSTACKTOP - SIZEOF_UTRAPFRAME\<rparr>) # hw_log s"
proof -
  let ?t = "upd_env c (\<lambda>x. x\<lparr>env_tf := tf\<rparr>) s"
  have "trap_ok inp c tf s"
    using tf stack by (simp add: trap_ok_def Let_def xstack_ok_def) (simp add: const_defs)
  note t = save_tf [OF inv cur this] and unchanged = save_tf_access [where s = s and c = c and tf = tf]
  obtain s' pd where s': "pgfault_upcall (cr2 inp) (Saved c) (UXSTACKTOP - SIZEOF_UTRAPFRAME) ?t = Iret s'"
      "env_pgdir (envs s' c) = Some pd"
      "ld_words s' pd (UXSTACKTOP - SIZEOF_UTRAPFRAME) 13 = Some (utf_words (cr2 inp) tf)"
      "hw_log s' = Iret_tf (tf\<lparr>tf_eip := env_pgfault_upcall (envs ?t c), tf_esp := UXSTACKTOP - SIZEOF_UTRAPFRAME\<rparr>) # hw_log ?t"
    by (rule pgfault_upcall_delivers [OF t(1,2), of "cr2 inp", unfolded t(4)]) (use stack unchanged in simp_all)
  have "user_mem_assert c (UXSTACKTOP - 1) 1 0 ?t = Ok () ?t"
    by (rule xstack_passes [OF t(1) current_live [OF t(2)]]) (use stack unchanged in simp)
  then have pf: "page_fault_handler (cr2 inp) (Saved c) ?t = Iret s'"
    using s'(1) t(2,4) tf(2,3) handler
    by (auto simp: page_fault_handler_def tf_at_def the_curenv_def current_def Let_def)
  have "trap_dispatch inp (Saved c) ?t = Iret s'"
    by (subst dispatch_page_fault) (simp_all add: tf_at_def tf(1) pf)
  then have "trap inp tf s = Iret s'"
    using tf(2) cur by (simp add: trap_def current_def)
  then show ?thesis
    using s'(2-4) by (auto simp: upd_env_def)
qed


theorem page_fault_delivered_witness:
  "\<exists>s' pd. trap \<lparr>cr2 = 0x1000, eflags = 0, polls = [], kbd_bytes = [], scb_status = 0, mon_lines = []\<rparr>
      (zero_tf\<lparr>tf_cs := 0x1b, tf_trapno := T_PGFLT, tf_err := 4, tf_eip := 0x800100\<rparr>) stack_example = Iret s'
    \<and> env_pgdir (envs s' 0) = Some pd
    \<and> ld_words s' pd (UXSTACKTOP - SIZEOF_UTRAPFRAME) 13 = Some [0x1000, 4, 0, 0, 0, 0, 0, 0, 0, 0, 0x800100, 0, 0]
    \<and> hw_log s' = Iret_tf (zero_tf\<lparr>tf_cs := 0x1b, tf_trapno := T_PGFLT, tf_err := 4, tf_eip := 0x800020,
           tf_esp := UXSTACKTOP - SIZEOF_UTRAPFRAME\<rparr>) # hw_log stack_example"
proof -
  let ?tf = "zero_tf\<lparr>tf_cs := 0x1b, tf_trapno := T_PGFLT, tf_err := 4, tf_eip := 0x800100\<rparr>"
  have "current 0 stack_example"
    using example_current by (simp add: current_def stack_same) (simp add: stack_example_def)
  moreover have "env_pgfault_upcall (envs stack_example 0) = 0x800020"
    by (simp add: stack_same)
  moreover have "utf_words 0x1000 ?tf = [0x1000, 4, 0, 0, 0, 0, 0, 0, 0, 0, 0x800100, 0, 0]"
    by (simp add: utf_words_def zero_tf_def zero_regs_def)
  moreover have "tf_cs ?tf AND 3 = 3" "\<not> (UXSTACKTOP - PGSIZE \<le> tf_esp ?tf \<and> tf_esp ?tf < UXSTACKTOP)"
    by (simp_all add: zero_tf_def const_defs)
  ultimately show ?thesis
    using page_fault_delivered [OF stack_kinv, of 0 ?tf "\<lparr>cr2 = 0x1000, eflags = 0, polls = [], kbd_bytes = [], scb_status = 0, mon_lines = []\<rparr>"]
      stack_writable stack_user_page by simp
qed

end
