(* ===== verification/Ulib.thy ===== *)
theory Ulib
  imports Syscall_Props
begin

text \<open>
  The part of the user library that works on address spaces: the system call stubs (\<^verbatim>\<open>lib/syscall.c\<close>), the page tables as
  user programs see them through the \<^verbatim>\<open>vpt\<close> and \<^verbatim>\<open>vpd\<close> arrays (\<^verbatim>\<open>lib/entry.S\<close>), page reference counts
  (\<^verbatim>\<open>lib/pageref.c\<close>). The functions run in the current environment of the kernel model and enter it through its dispatcher
  \<^verbatim>\<open>syscall\<close>, so that what they achieve is shown about the page tables themselves.
\<close>

section \<open>System call stubs\<close>

text \<open>The number of a call is its position in the enumeration.\<close>

definition sysno_num :: "sysno \<Rightarrow> u32" where
  "sysno_num no = of_nat (length (takeWhile (\<lambda>x. x \<noteq> no) syscall_numbers))"

definition syscall_stub :: "sysno \<Rightarrow> bool \<Rightarrow> u32 \<Rightarrow> u32 \<Rightarrow> u32 \<Rightarrow> u32 \<Rightarrow> u32 \<Rightarrow> kstate \<Rightarrow> (int, kstate) kres" where
  "syscall_stub num check a1 a2 a3 a4 a5 s =
     kbind (syscall [] (sysno_num num) a1 a2 a3 a4 a5 s) (\<lambda>ret s.
       if check \<and> ret > 0 then Panic ''syscall returned (> 0)'' else Ok ret s)"

definition lib_exofork :: "kstate \<Rightarrow> (int, kstate) kres" where
  "lib_exofork s = syscall [] (sysno_num SYS_exofork) 0 0 0 0 0 s"

definition lib_page_alloc :: "u32 \<Rightarrow> u32 \<Rightarrow> u32 \<Rightarrow> kstate \<Rightarrow> (int, kstate) kres" where
  "lib_page_alloc envid va perm s = syscall_stub SYS_page_alloc True envid va perm 0 0 s"

definition lib_page_map :: "u32 \<Rightarrow> u32 \<Rightarrow> u32 \<Rightarrow> u32 \<Rightarrow> u32 \<Rightarrow> kstate \<Rightarrow> (int, kstate) kres" where
  "lib_page_map srcenv srcva dstenv dstva perm s = syscall_stub SYS_page_map True srcenv srcva dstenv dstva perm s"

definition lib_page_unmap :: "u32 \<Rightarrow> u32 \<Rightarrow> kstate \<Rightarrow> (int, kstate) kres" where
  "lib_page_unmap envid va s = syscall_stub SYS_page_unmap True envid va 0 0 0 s"

definition lib_env_set_status :: "u32 \<Rightarrow> u32 \<Rightarrow> kstate \<Rightarrow> (int, kstate) kres" where
  "lib_env_set_status envid status s = syscall_stub SYS_env_set_status True envid status 0 0 0 s"

definition lib_env_set_pgfault_upcall :: "u32 \<Rightarrow> u32 \<Rightarrow> kstate \<Rightarrow> (int, kstate) kres" where
  "lib_env_set_pgfault_upcall envid upcall s = syscall_stub SYS_env_set_pgfault_upcall True envid upcall 0 0 0 s"

section \<open>Page tables seen from user mode\<close>

definition uld32 :: "u32 \<Rightarrow> kstate \<Rightarrow> (u32, kstate) kres" where
  "uld32 va s =
     kbind (the_curenv s) (\<lambda>c s.
     kbind (the_env (env_pgdir (envs s c)) s) (\<lambda>pd s.
     case ld32 s pd va of None \<Rightarrow> Panic ''page fault'' | Some w \<Rightarrow> Ok w s))"

definition vpt :: "u32 \<Rightarrow> kstate \<Rightarrow> (u32, kstate) kres" where
  "vpt n s = uld32 (UVPT + 4 * n) s"

definition vpd :: "u32 \<Rightarrow> kstate \<Rightarrow> (u32, kstate) kres" where
  "vpd n s = uld32 (UVPT + UVPT div 4096 * 4 + 4 * n) s"

text \<open>The array \<^verbatim>\<open>pages\<close> is mapped read-only at \<^verbatim>\<open>UPAGES\<close>.\<close>

definition pageref :: "u32 \<Rightarrow> kstate \<Rightarrow> (u32, kstate) kres" where
  "pageref v s =
     kbind (vpd (PDX v) s) (\<lambda>pde s.
     if pde AND PTE_P = 0 then Ok 0 s
     else kbind (vpt (VPN v) s) (\<lambda>pte s.
     if pte AND PTE_P = 0 then Ok 0 s
     else Ok (pp_ref s (unat (PPN pte))) s))"

text \<open>\<^verbatim>\<open>memmove\<close> between two pages of the address space.\<close>

definition umemmove :: "u32 \<Rightarrow> u32 \<Rightarrow> nat \<Rightarrow> kstate \<Rightarrow> (unit, kstate) kres" where
  "umemmove dst src n s =
     kbind (the_curenv s) (\<lambda>c s.
     kbind (the_env (env_pgdir (envs s c)) s) (\<lambda>pd s.
     case ld_bytes s pd src n of None \<Rightarrow> Panic ''page fault''
     | Some bs \<Rightarrow> (case st_bytes pd dst bs s of None \<Rightarrow> Panic ''page fault'' | Some s \<Rightarrow> Ok () s)))"

section \<open>Stubs enter the kernel\<close>

lemma sysno_of_num [simp]: "sysno_of (sysno_num no) = Some no"
  by (cases no) (simp_all add: sysno_of_def sysno_num_def syscall_numbers_def)

lemma lib_calls:
  "lib_exofork s = sys_exofork s"
  "lib_page_alloc envid va perm s = kbind (sys_page_alloc envid va perm s) (\<lambda>r s. if r > 0 then Panic ''syscall returned (> 0)'' else Ok r s)"
  "lib_page_map e1 va1 e2 va2 perm s = kbind (sys_page_map e1 va1 e2 va2 perm s) (\<lambda>r s. if r > 0 then Panic ''syscall returned (> 0)'' else Ok r s)"
  "lib_page_unmap envid va s = kbind (sys_page_unmap envid va s) (\<lambda>r s. if r > 0 then Panic ''syscall returned (> 0)'' else Ok r s)"
  "lib_env_set_status envid st s = kbind (sys_env_set_status envid st s) (\<lambda>r s. if r > 0 then Panic ''syscall returned (> 0)'' else Ok r s)"
  "lib_env_set_pgfault_upcall envid f s = kbind (sys_env_set_pgfault_upcall envid f s) (\<lambda>r s. if r > 0 then Panic ''syscall returned (> 0)'' else Ok r s)"
  by (simp_all add: lib_exofork_def lib_page_alloc_def lib_page_map_def lib_page_unmap_def lib_env_set_status_def
      lib_env_set_pgfault_upcall_def syscall_stub_def syscall_def)

section \<open>The page tables are visible\<close>

lemma ld32_word:
  assumes a: "unat a = 2 ^ 22 * d + 4096 * t + 4 * i" "d < 1024" "t < 1024" "i < 1024"
    and pt: "pte_target (mem s pd d) = Some pt" "pte_target (mem s pt t) = Some q"
  shows "ld32 s pd a = Some (mem s q i)"
proof (rule ld32_bytes)
  fix k :: nat
  assume k: "k < 4"
  have u: "unat (a + of_nat k) = 2 ^ 22 * d + (4096 * t + (4 * i + k))"
    using a k by (simp add: unat_word_ariths unat_of_nat)
  have small: "4096 * t + (4 * i + k) < 2 ^ 22" "4 * i + k < 4096"
    using a k by simp_all
  have "(2 ^ 22 * d + (4096 * t + (4 * i + k))) div 2 ^ 22 = d"
    using small by simp
  then have "unat (PDX (a + of_nat k)) = d"
    unfolding unat_PDX u using a(2) by simp
  moreover have "2 ^ 22 * d + (4096 * t + (4 * i + k)) = 4096 * (1024 * d + t) + (4 * i + k)"
    by simp
  then have w: "(2 ^ 22 * d + (4096 * t + (4 * i + k))) div 4096 = 1024 * d + t"
    "(2 ^ 22 * d + (4096 * t + (4 * i + k))) mod 4096 = 4 * i + k"
    using small(2) by (simp_all only: div_mult_self4 mod_mult_self4) simp_all
  then have "unat (PTX (a + of_nat k)) = t" "unat (PGOFF (a + of_nat k)) = 4 * i + k"
    unfolding unat_PTX unat_PGOFF u using a(3) by simp_all
  moreover have "unat (a + of_nat k) = 4 * (2 ^ 20 * d + 1024 * t + i) + k"
    unfolding u by simp
  then have "unat (a + of_nat k) mod 4 = k"
    using k by (simp only: mod_mult_self4) simp
  ultimately have "ld8 s pd (a + of_nat k) = Some (ucast (drop_bit (8 * k) (mem s q i)))"
    using pt k by (simp add: ld8_def xlate_def)
  moreover consider "k = 0" | "k = Suc 0" | "k = Suc (Suc 0)" | "k = Suc (Suc (Suc 0))"
    using k by linarith
  then have "bytes_of32 (mem s q i) ! k = ucast (drop_bit (8 * k) (mem s q i))"
    by cases (simp_all add: bytes_of32_def)
  ultimately show "ld8 s pd (a + of_nat k) = Some (bytes_of32 (mem s q i) ! k)"
    by simp
qed

lemma uvpt_entry:
  assumes inv: "kinv M A s" and pd: "dir_of s c = Some pd"
  shows "pte_target (mem s pd 957) = Some pd"
proof -
  have "kmap s"
    using kinvD(1) [OF inv] by (simp add: minv_def)
  moreover have "NPDE \<le> 957" "unat (PDX UVPT) = 957" "unat (PDX VPT) \<noteq> 957"
    by (simp_all add: const_defs addr_macros)
  ultimately have "mem s pd 957 = page2pa pd OR PTE_P OR PTE_U"
    using pd unfolding kmap_def kern_pde_def by simp
  also have "\<dots> = page2pa pd OR PTE_U OR PTE_P"
    by (simp only: or.assoc or.commute [of PTE_P])
  finally have w: "mem s pd 957 = page2pa pd OR PTE_U OR PTE_P" .
  have "target s (Dir c) = Some pd"
    using pd by simp
  then have "pd \<in> M"
    using refinvD(8) [OF minvD(1) [OF kinvD(1) [OF inv]]] by blast
  then have "pd < 2 ^ 20"
    by (rule minv_ppn [OF kinvD(1) [OF inv]])
  moreover have "PPN PTE_U = 0"
    by (simp add: PPN_def const_defs)
  ultimately show ?thesis
    unfolding w by (rule pte_target_make)
qed

lemma vpd_eq:
  assumes inv: "kinv M A s" and cur: "live c s" and pd: "dir_of s c = Some pd" and i: "i < 1024"
  shows "vpd (of_nat i) s = Ok (mem s pd i) s"
proof -
  have "unat (UVPT + UVPT div 4096 * 4 + 4 * of_nat i) = 2 ^ 22 * 957 + 4096 * 957 + 4 * i"
    using i by (simp add: const_defs unat_word_ariths unat_of_nat)
  from ld32_word [OF this _ _ i uvpt_entry [OF inv pd] uvpt_entry [OF inv pd]]
  have "ld32 s pd (UVPT + UVPT div 4096 * 4 + 4 * of_nat i) = Some (mem s pd i)"
    by simp
  then show ?thesis
    using cur pd by (simp add: vpd_def uld32_def live_def the_curenv_def the_env_def dir_of_def)
qed

lemma vpt_eq:
  assumes inv: "kinv M A s" and cur: "live c s" and pt: "pde_of s c d = Some pt" and t: "t < 1024"
  shows "vpt (of_nat (d * 1024 + t)) s = Ok (mem s pt t) s"
proof -
  have d: "d < 1024"
    using pt by (simp add: pde_of_def const_defs NPDE_def split: if_splits)
  obtain pd where pd: "dir_of s c = Some pd" "pte_target (mem s pd d) = Some pt"
    using pt by (auto simp: pde_of_def bind_eq_Some_conv split: if_splits)
  have "unat (UVPT + 4 * of_nat (d * 1024 + t)) = 2 ^ 22 * 957 + 4096 * d + 4 * t"
    using d t by (simp add: const_defs unat_word_ariths unat_of_nat)
  from ld32_word [OF this _ d t uvpt_entry [OF inv pd(1)] pd(2)]
  have "ld32 s pd (UVPT + 4 * of_nat (d * 1024 + t)) = Some (mem s pt t)"
    by simp
  then show ?thesis
    using cur pd(1) by (simp add: vpt_def uld32_def live_def the_curenv_def the_env_def dir_of_def)
qed

section \<open>Pages by number\<close>

abbreviation pg :: "nat \<Rightarrow> u32" where
  "pg k \<equiv> of_nat k * PGSIZE"

lemma unat_pg: "k < 2 ^ 20 \<Longrightarrow> unat (pg k) = k * 4096"
  by (simp add: const_defs unat_word_ariths unat_of_nat)

lemma pg_index:
  assumes "k < 2 ^ 20"
  shows "unat (PDX (pg k)) = k div 1024" and "unat (PTX (pg k)) = k mod 1024" and "unat (VPN (pg k)) = k"
    and "pg k mod PGSIZE = 0"
proof -
  have "k * 4096 div 2 ^ 22 = k div 1024"
    using div_mult_mult2 [of 4096 k 1024] by simp
  then show "unat (PDX (pg k)) = k div 1024" "unat (PTX (pg k)) = k mod 1024"
    unfolding unat_PDX unat_PTX unat_pg [OF assms] using assms by simp_all
  show "unat (VPN (pg k)) = k"
    unfolding VPN_def unat_PPN unat_pg [OF assms] by simp
  have "unat (pg k mod PGSIZE) = 0"
    unfolding unat_mod unat_pg [OF assms] by (simp add: const_defs)
  then show "pg k mod PGSIZE = 0"
    by (simp add: unat_eq_0)
qed

lemma pg_below_UTOP: "k < 955 * 1024 \<Longrightarrow> pg k < UTOP"
  unfolding word_less_nat_alt by (subst unat_pg) (simp_all add: const_defs)

lemma va_entry_VPN: "VPN va' = VPN va \<Longrightarrow> va_entry s j va' = va_entry s j va"
  by (auto simp: VPN_eq_iff va_entry_def split: option.split)

lemma VPN_pg_iff: "k < 2 ^ 20 \<Longrightarrow> VPN va = VPN (pg k) \<longleftrightarrow> unat (VPN va) = k"
  using pg_index(3) [of k] by (metis word_unat_eq_iff)

lemma vpt_entry:
  assumes inv: "kinv M A s" and cur: "live c s" and pt: "pde_of s c (k div 1024) = Some pt" and k: "k < 2 ^ 20"
  obtains w where "vpt (of_nat k) s = Ok w s" "va_entry s c (pg k) = (if w AND PTE_P \<noteq> 0 then Some w else None)"
proof
  show "vpt (of_nat k) s = Ok (mem s pt (k mod 1024)) s"
    using vpt_eq [OF inv cur pt, of "k mod 1024"] by (simp add: div_mult_mod_eq)
  show "va_entry s c (pg k) = (if mem s pt (k mod 1024) AND PTE_P \<noteq> 0 then Some (mem s pt (k mod 1024)) else None)"
    using pt by (simp add: va_entry_def pg_index [OF k] Let_def)
qed

text \<open>\<^verbatim>\<open>sys_page_map\<close> with arguments that pass its checks fails only for want of memory.\<close>

lemma lib_page_map_ok:
  assumes inv: "kinv M {} s" and cur: "live c s" and k: "k < 955 * 1024"
    and dst: "envid2env dst True s = Ok (Inr (Some e)) s" and w: "va_entry s c (pg k) = Some w"
    and perm: "perm AND (PTE_U + PTE_P) \<noteq> 0" "perm AND NOT PTE_USER = 0" "perm AND PTE_W \<noteq> 0 \<longrightarrow> w AND PTE_W \<noteq> 0"
  obtains (no_mem) "lib_page_map 0 (pg k) dst (pg k) perm s = Ok (- E_NO_MEM) s" "LIST_EMPTY (page_free_list s)"
  | (mapped) s' where "lib_page_map 0 (pg k) dst (pg k) perm s = Ok 0 s'" "kinv M {} s'" "pframe s s'"
      "\<And>j va. va_entry s' j va = (if j = e \<and> unat (VPN va) = k then Some (page2pa (unat (PPN w)) OR perm OR PTE_P) else va_entry s j va)"
      "\<And>j va w. va_entry s j va = Some w \<Longrightarrow> mem s' (unat (PPN w)) = mem s (unat (PPN w))"
      "\<And>j d. pde_of s j d \<noteq> None \<Longrightarrow> pde_of s' j d \<noteq> None"
proof -
  have k20: "k < 2 ^ 20"
    using k by simp
  have src: "envid2env 0 True s = Ok (Inr (Some c)) s"
    using cur by (simp add: envid2env_def live_def)
  obtain pd where pd: "env_pgdir (envs s c) = Some pd" "c < NENV"
    using live_dir [OF inv cur] cur by (auto simp: live_def)
  obtain pe where pe: "env_pgdir (envs s e) = Some pe" "e < NENV"
    using inv cur by (cases rule: envid2env_spec [where envid = dst and checkperm = True]) (use dst kinv_dir [OF inv] in auto)
  have top: "pg k < UTOP" "\<not> UTOP \<le> pg k"
    using pg_below_UTOP [OF k] by simp_all
  obtain pt i where look: "page_lookup (Some pd) (pg k) s = Ok (Some (unat (PPN w), (pt, i))) s" "mem s pt i = w"
    using kinvD(1) [OF inv] pd(2,1) top(1) by (cases rule: lookup_va) (use w in auto)
  have "(perm AND PTE_W \<noteq> 0 \<and> w AND PTE_W = 0) = False"
    using perm(3) by blast
  then have "sys_page_map 0 (pg k) dst (pg k) perm s =
      kbind (page_insert (Some pe) (unat (PPN w)) (pg k) perm s) (\<lambda>r s. if r < 0 then Ok r s else Ok 0 s)"
    using src dst pd pe top perm(1,2) look pg_index(4) [OF k20] unfolding sys_page_map_def the_env_def
    by (simp del: not_le de_Morgan_conj)
  moreover have "\<exists>r s'. page_insert (Some pe) (unat (PPN w)) (pg k) perm s = Ok r s' \<and> r \<noteq> - E_BAD_ENV \<and> r \<noteq> - E_INVAL"
    using kinvD(1) [OF inv] live_ready [OF inv cur] pe(2,1) top(1) PPN_user_perm [OF perm(2)] disjI2 [OF exI [of _ c]]
    by (cases rule: insert_va [of _ _ _ _ _ _ _ "unat (PPN w)"]) (use w in \<open>auto simp: const_defs\<close>)
  ultimately have run: "sys_page_map 0 (pg k) dst (pg k) perm s \<noteq> Ok (- E_BAD_ENV) s" "sys_page_map 0 (pg k) dst (pg k) perm s \<noteq> Ok (- E_INVAL) s"
    by (auto simp: const_defs split: if_splits)
  show ?thesis
    using inv cur
  proof (cases rule: sys_page_map_spec [where srcid = 0 and srcva = "pg k" and dstid = dst and dstva = "pg k" and perm = perm])
    case no_mem
    then show ?thesis
      using that(1) by (simp add: lib_calls const_defs)
  next
    case (mapped es ed w' s')
    then have "es = c" "ed = e" "w' = w"
      using src dst w by simp_all
    with mapped show ?thesis
      by (intro that(2) [of s']) (simp_all add: lib_calls VPN_pg_iff [OF k20])
  qed (use run in simp_all)
qed

lemma envid2env_pframe:
  assumes "pframe s s'" and "envid2env envid checkperm s = Ok (Inr r) s"
  shows "envid2env envid checkperm s' = Ok (Inr r) s'"
  using assms(2) pframe_simps(1,6) [OF assms(1)]
  by (auto simp: envid2env_def the_curenv_def Let_def split: if_splits option.splits)

lemma va_entry_present: "va_entry s i va = Some w \<Longrightarrow> w AND PTE_P \<noteq> 0"
  by (auto simp: va_entry_def Let_def split: option.splits if_splits)

lemma vpt_present:
  assumes inv: "kinv M A s" and cur: "live c s" and k: "k < 2 ^ 20" and w: "va_entry s c (pg k) = Some w"
  shows "vpt (of_nat k) s = Ok w s"
proof -
  obtain pt where "pde_of s c (k div 1024) = Some pt"
    using w by (auto simp: va_entry_def pg_index [OF k] split: option.splits)
  with inv cur obtain w' where "vpt (of_nat k) s = Ok w' s" "va_entry s c (pg k) = (if w' AND PTE_P \<noteq> 0 then Some w' else None)"
    using k by (rule vpt_entry)
  then show ?thesis
    using w by (simp split: if_splits)
qed

lemma va_entry_ref: "va_entry s j va = Some w \<Longrightarrow> refs (target s) (unat (PPN w)) \<noteq> {}"
proof -
  assume "va_entry s j va = Some w"
  then have "pte_of s j (unat (PDX va)) (unat (PTX va)) = Some (unat (PPN w))"
    using va_entry_pte [of s j va] by simp
  then have "Pt j (unat (PDX va)) (unat (PTX va)) \<in> refs (target s) (unat (PPN w))"
    by (simp add: refs_def)
  then show ?thesis
    by blast
qed

lemma set_upcall_eq:
  assumes inv: "kinv M {} s" and e: "envid2env envid True s = Ok (Inr (Some e)) s" "e < NENV"
  shows "lib_env_set_pgfault_upcall envid f s = Ok 0 (upd_env e (\<lambda>x. x\<lparr>env_pgfault_upcall := f\<rparr>) s)"
  using kinv_unlocked [OF inv e(2)] e(1)
  by (auto simp: lib_calls sys_env_set_pgfault_upcall_def the_env_def env_locking intro!: upd_env_cong)

lemma set_status_eq:
  assumes inv: "kinv M {} s" and e: "envid2env envid True s = Ok (Inr (Some e)) s" "e < NENV"
  shows "lib_env_set_status envid ENV_RUNNABLE s = Ok 0 (upd_env e (\<lambda>x. x\<lparr>env_status := ENV_RUNNABLE\<rparr>) s)"
  using kinv_unlocked [OF inv e(2)] e(1)
  by (auto simp: lib_calls sys_env_set_status_def the_env_def env_locking intro!: upd_env_cong)

lemma lib_page_alloc_ok:
  assumes inv: "kinv M {} s" and cur: "live c s" and k: "k < 955 * 1024"
    and e: "envid2env envid True s = Ok (Inr (Some e)) s"
    and perm: "perm AND PTE_U \<noteq> 0" "perm AND PTE_P \<noteq> 0" "perm AND NOT PTE_USER = 0"
  obtains (no_mem) s' where "lib_page_alloc envid (pg k) perm s = Ok (- E_NO_MEM) s'" "kinv M {} s'" "pframe s s'"
      "\<And>j va. va_entry s' j va = va_entry s j va"
  | (mapped) p s' where "lib_page_alloc envid (pg k) perm s = Ok 0 s'" "kinv M {} s'" "pframe s s'" "refs (target s) p = {}"
      "\<And>j va. va_entry s' j va = (if j = e \<and> unat (VPN va) = k then Some (page2pa p OR perm OR PTE_P) else va_entry s j va)"
      "\<And>i. mem s' p i = 0"
      "\<And>j va w. va_entry s j va = Some w \<Longrightarrow> mem s' (unat (PPN w)) = mem s (unat (PPN w))"
proof -
  have k20: "k < 2 ^ 20"
    using k by simp
  have top: "(UTOP \<le> pg k) = False"
    using pg_below_UTOP [OF k] by simp
  have live: "e < NENV" "env_status (envs s e) \<noteq> ENV_FREE"
    using inv cur by (cases rule: envid2env_spec [where envid = envid and checkperm = True], use e in auto)+
  show ?thesis
    using inv cur live pg_below_UTOP [OF k] PPN_user_perm [OF perm(3)]
  proof (cases rule: page_alloc_insert)
    case (no_mem s')
    have "sys_page_alloc envid (pg k) perm s = Ok (- E_NO_MEM) s'"
      using no_mem(1) e perm pg_below_UTOP [OF k] pg_index(4) [OF k20] unfolding sys_page_alloc_def by (simp add: top)
    then show ?thesis
      using no_mem by (intro that(1) [of s']) (simp_all add: lib_calls const_defs)
  next
    case (mapped p s')
    have "sys_page_alloc envid (pg k) perm s = Ok 0 s'"
      using mapped(1) e perm pg_below_UTOP [OF k] pg_index(4) [OF k20] unfolding sys_page_alloc_def by (simp add: top)
    then show ?thesis
      using mapped by (intro that(2) [of s' p]) (simp_all add: lib_calls VPN_pg_iff [OF k20])
  qed
qed

lemma va_entry_above: "955 * 1024 \<le> unat (VPN va) \<Longrightarrow> va_entry s j va = None"
proof -
  assume "955 * 1024 \<le> unat (VPN va)"
  then have "\<not> unat (PDX va) < NPDE"
    using unat_PTX_less [of va] unfolding unat_VPN NPDE_def by linarith
  then show ?thesis
    by (simp add: va_entry_def pde_of_def)
qed

lemma va_entry_free:
  assumes "kinv M A s" and "e < NENV" and "env_status (envs s e) = ENV_FREE"
  shows "va_entry s e va = None"
  using einvD(1) [OF kinvD(2) [OF assms(1)] assms(2)] assms(3) by (simp add: env_ok_def va_entry_def slot_defs)

end
