(* ===== verification/Fork.thy ===== *)
theory Fork
  imports Ulib
begin

text \<open>
  The copy-on-write fork of the user library (\<^verbatim>\<open>lib/fork.c\<close>) and the registration of the page fault handler
  (\<^verbatim>\<open>lib/pgfault.c\<close>), as user programs that call the kernel model. The lemmas follow the loop over the address space: its
  invariant says what the entries of parent and child are for the pages copied so far.

  Local variables are values of the model. The stores of the running code to its own stack are not modelled; after the
  stack page has become copy-on-write, the first of them is a page fault that \<open>pgfault\<close> handles.
\<close>

section \<open>Copy-on-write fork\<close>

definition PTE_COW :: u32 where [const_defs]: "PTE_COW = 0x800"

definition pgfault :: "u32 \<Rightarrow> u32 \<Rightarrow> kstate \<Rightarrow> (unit, kstate) kres" where
  "pgfault fault_va err s =
     (let addr = ROUNDDOWN fault_va PGSIZE
      in kbind (vpt (addr div PGSIZE) s) (\<lambda>pte s.
         if \<not> (err AND FEC_WR \<noteq> 0 \<and> pte AND PTE_COW \<noteq> 0) then Panic ''pgfault''
         else
           kbind (lib_page_alloc 0 PFTEMP (PTE_U OR PTE_P OR PTE_W) s) (\<lambda>r s.
           if r < 0 then Panic ''pafault''
           else
             kbind (umemmove PFTEMP addr (unat PGSIZE) s) (\<lambda>_ s.
             kbind (lib_page_map 0 PFTEMP 0 addr (PTE_W OR PTE_U OR PTE_P) s) (\<lambda>r s.
             if r < 0 then Panic ''pafault'' else Ok () s)))))"

definition duppage :: "u32 \<Rightarrow> u32 \<Rightarrow> kstate \<Rightarrow> (int, kstate) kres" where
  "duppage envid pn s =
     kbind (vpt pn s) (\<lambda>w s.
     let pte = w AND PTE_USER; addr = pn * PGSIZE
     in if pte AND PTE_SHARE = 0 \<and> (pte AND PTE_W \<noteq> 0 \<or> pte AND PTE_COW \<noteq> 0) then
          kbind (lib_page_map 0 addr envid addr (PTE_P OR PTE_U OR PTE_COW) s) (\<lambda>r s.
          if r < 0 then Ok r s
          else
            kbind (lib_page_map 0 addr 0 addr (PTE_P OR PTE_U OR PTE_COW) s) (\<lambda>r s.
            if r < 0 then Ok r s else Ok 0 s))
        else
          kbind (lib_page_map 0 addr envid addr pte s) (\<lambda>r s.
          if r < 0 then Ok r s else Ok 0 s))"

text \<open>
  \<^verbatim>\<open>set_pgfault_handler\<close>; the variable \<^verbatim>\<open>_pgfault_handler\<close> is the first argument and the result, the address of
  \<^verbatim>\<open>_pgfault_upcall\<close> is \<open>upcall\<close>.
\<close>

definition set_pgfault_handler :: "u32 \<Rightarrow> u32 \<Rightarrow> u32 \<Rightarrow> kstate \<Rightarrow> (u32, kstate) kres" where
  "set_pgfault_handler installed upcall handler s =
     kbind
       (if installed = 0 then
          kbind (lib_page_alloc 0 (UXSTACKTOP - PGSIZE) (PTE_P OR PTE_W OR PTE_U) s) (\<lambda>r s.
          if r < 0 then Panic ''set_pgfault_handler''
          else kbind (lib_env_set_pgfault_upcall 0 upcall s) (\<lambda>r s.
          if r < 0 then Panic ''set_pgfault_handler'' else Ok () s))
        else Ok () s) (\<lambda>_ s.
     Ok handler s)"

text \<open>The two loops of \<^verbatim>\<open>fork\<close>: the result 0 means that the loop has ended, an error leaves the function.\<close>

fun dup_entries :: "u32 \<Rightarrow> nat \<Rightarrow> nat list \<Rightarrow> kstate \<Rightarrow> (int, kstate) kres" where
  "dup_entries envid i [] s = Ok 0 s"
| "dup_entries envid i (j # js) s =
     (let pn = of_nat (i * NPDENTRIES + j)
      in kbind (vpt pn s) (\<lambda>w s.
         if w AND PTE_P \<noteq> 0 then
           if pn = (UXSTACKTOP - PGSIZE) div PGSIZE then Ok 0 s
           else kbind (duppage envid pn s) (\<lambda>r s. if r < 0 then Ok r s else dup_entries envid i js s)
         else dup_entries envid i js s))"

fun dup_tables :: "u32 \<Rightarrow> nat list \<Rightarrow> kstate \<Rightarrow> (int, kstate) kres" where
  "dup_tables envid [] s = Ok 0 s"
| "dup_tables envid (i # is) s =
     kbind (vpd (of_nat i) s) (\<lambda>w s.
     if w AND PTE_P \<noteq> 0 then
       kbind (dup_entries envid i [0..<NPTENTRIES] s) (\<lambda>r s. if r < 0 then Ok r s else dup_tables envid is s)
     else dup_tables envid is s)"

definition fork :: "u32 \<Rightarrow> u32 \<Rightarrow> u32 \<Rightarrow> kstate \<Rightarrow> (int, kstate) kres" where
  "fork installed upcall handler s =
     kbind (set_pgfault_handler installed upcall handler s) (\<lambda>_ s.
     kbind (lib_exofork s) (\<lambda>envid s.
     if envid < 0 then Ok envid s
     else if envid = 0 then Ok 0 s
     else
       let child = of_int envid in
       kbind (dup_tables child [0..<unat (VPD UTOP)] s) (\<lambda>r s.
       if r < 0 then Ok r s
       else
         kbind (lib_page_alloc child (UXSTACKTOP - PGSIZE) (PTE_W OR PTE_U OR PTE_P) s) (\<lambda>r s.
         if r < 0 then Ok r s
         else
           kbind (lib_env_set_pgfault_upcall child upcall s) (\<lambda>r s.
           if r < 0 then Ok r s
           else
             kbind (lib_env_set_status child ENV_RUNNABLE s) (\<lambda>r s.
             if r < 0 then Ok r s else Ok envid s))))))"

section \<open>What fork makes of a page table entry\<close>

definition cow_entry :: "u32 \<Rightarrow> bool" where
  "cow_entry w \<longleftrightarrow> w AND PTE_SHARE = 0 \<and> (w AND PTE_W \<noteq> 0 \<or> w AND PTE_COW \<noteq> 0)"

definition child_entry :: "u32 \<Rightarrow> u32" where
  "child_entry w = page2pa (unat (PPN w)) OR (if cow_entry w then PTE_P OR PTE_U OR PTE_COW else w AND PTE_USER) OR PTE_P"

definition parent_entry :: "u32 \<Rightarrow> u32" where
  "parent_entry w = (if cow_entry w then child_entry w else w)"

lemma user_flags:
  "(w AND PTE_USER) AND PTE_SHARE = w AND PTE_SHARE" "(w AND PTE_USER) AND PTE_W = w AND PTE_W"
  "(w AND PTE_USER) AND PTE_COW = w AND PTE_COW" "(w AND PTE_USER) AND NOT PTE_USER = 0"
  by (simp_all add: and.assoc const_defs)

lemma user_present: "w AND PTE_P \<noteq> 0 \<Longrightarrow> (w AND PTE_USER) AND (PTE_U + PTE_P) \<noteq> 0"
proof
  assume p: "w AND PTE_P \<noteq> 0" and z: "(w AND PTE_USER) AND (PTE_U + PTE_P) = 0"
  have "((w AND PTE_USER) AND (PTE_U + PTE_P)) AND PTE_P = w AND PTE_P"
    by (simp add: and.assoc const_defs)
  with p z show False
    by simp
qed

lemma page2pa_low: "page2pa p AND PTE_W = 0" "page2pa p AND PTE_SHARE = 0"
proof -
  have "\<not> bit (page2pa p) n" if "n < 12" for n
    using that by (simp add: page2pa_def bit_push_bit_iff PGSHIFT_def)
  note low = this
  have "page2pa p AND 2 ^ n = 0" if "n < 12" for n
    by (rule bit_eqI) (use low that in \<open>auto simp: bit_and_iff bit_exp_iff\<close>)
  from this [of 1] this [of 10] show "page2pa p AND PTE_W = 0" "page2pa p AND PTE_SHARE = 0"
    by (simp_all add: const_defs)
qed

text \<open>Only entries that are marked as shared stay writable.\<close>

lemma child_entry_writable: "child_entry w AND PTE_W \<noteq> 0 \<Longrightarrow> w AND PTE_SHARE \<noteq> 0"
proof -
  assume a: "child_entry w AND PTE_W \<noteq> 0"
  have "(PTE_P OR PTE_U OR PTE_COW) AND PTE_W = 0" "PTE_P AND PTE_W = 0"
    by (simp_all add: const_defs)
  with a have "\<not> cow_entry w" "w AND PTE_W \<noteq> 0"
    by (auto simp: child_entry_def bit.conj_disj_distrib2 page2pa_low user_flags split: if_splits)
  then show ?thesis
    by (simp add: cow_entry_def)
qed

lemma parent_entry_writable: "parent_entry w AND PTE_W \<noteq> 0 \<Longrightarrow> w AND PTE_SHARE \<noteq> 0"
  using child_entry_writable [of w] by (auto simp: parent_entry_def cow_entry_def split: if_splits)

lemma PPN_small: "unat (PPN w) < 2 ^ 20"
  unfolding unat_PPN using unat_u32_less [of w] by simp

lemma PPN_forked: "PPN (child_entry w) = PPN w" "PPN (parent_entry w) = PPN w"
proof -
  have "PPN (if cow_entry w then PTE_P OR PTE_U OR PTE_COW else w AND PTE_USER) = 0" "PPN PTE_P = 0"
    using PPN_user_perm [OF user_flags(4)] by (simp_all add: PPN_def const_defs)
  then show "PPN (child_entry w) = PPN w"
    using unat_PPN_page2pa [OF PPN_small, of w] unfolding child_entry_def PPN_or by simp (rule word_unat_eq_iff [THEN iffD2])
  then show "PPN (parent_entry w) = PPN w"
    by (simp add: parent_entry_def)
qed

section \<open>The loop over the address space\<close>

text \<open>
  After the pages below number \<open>k\<close> have been copied from \<open>c\<close> to its child \<open>e\<close>, starting in state \<open>s0\<close>: the entries of both are
  as fork makes them, except on the exception stack, and no page has changed.
\<close>

definition xstack_page :: nat where
  "xstack_page = unat ((UXSTACKTOP - PGSIZE) div PGSIZE)"

lemma xstack_page_eq: "xstack_page = 977919" "(UXSTACKTOP - PGSIZE) div PGSIZE = of_nat xstack_page" "UXSTACKTOP - PGSIZE = pg xstack_page"
  by (simp_all add: xstack_page_def const_defs)

definition copied :: "nat \<Rightarrow> nat \<Rightarrow> bool" where
  "copied k n \<longleftrightarrow> n < k \<and> n \<noteq> xstack_page"

definition dup_inv :: "nat \<Rightarrow> nat \<Rightarrow> kstate \<Rightarrow> nat \<Rightarrow> kstate \<Rightarrow> bool" where
  "dup_inv c e s0 k s \<longleftrightarrow> pframe s0 s
     \<and> (\<forall>va. va_entry s e va = (if copied k (unat (VPN va)) then map_option child_entry (va_entry s0 c va) else None))
     \<and> (\<forall>va. va_entry s c va = (if copied k (unat (VPN va)) then map_option parent_entry (va_entry s0 c va) else va_entry s0 c va))
     \<and> (\<forall>j va. j \<noteq> e \<longrightarrow> j \<noteq> c \<longrightarrow> va_entry s j va = va_entry s0 j va)
     \<and> (\<forall>j va w. va_entry s0 j va = Some w \<longrightarrow> mem s (unat (PPN w)) = mem s0 (unat (PPN w)))"

definition dup_stopped :: "nat \<Rightarrow> nat \<Rightarrow> kstate \<Rightarrow> kstate \<Rightarrow> bool" where
  "dup_stopped c e s0 s \<longleftrightarrow> pframe s0 s \<and> (\<forall>j va. j \<noteq> e \<longrightarrow> j \<noteq> c \<longrightarrow> va_entry s j va = va_entry s0 j va)"

lemma dup_inv_stopped: "dup_inv c e s0 k s \<Longrightarrow> dup_stopped c e s0 s"
  by (simp add: dup_inv_def dup_stopped_def)

lemma dup_inv_frame: "dup_inv c e s0 k s \<Longrightarrow> pframe s0 s"
  by (simp add: dup_inv_def)

lemma dup_inv_page:
  assumes "dup_inv c e s0 k s" and "unat (VPN va) = k"
  shows "va_entry s c va = va_entry s0 c va"
  using assms by (simp add: dup_inv_def copied_def)

lemma dup_inv_pages:
  assumes inv: "dup_inv c e s0 k s" and ne: "\<And>va. va_entry s0 e va = None" and w: "va_entry s0 j va = Some w"
  shows "\<exists>w'. va_entry s j va = Some w' \<and> PPN w' = PPN w"
proof -
  have "j \<noteq> e"
    using ne w by auto
  then show ?thesis
    using inv w by (cases "j = c") (auto simp: dup_inv_def PPN_forked)
qed

text \<open>An absent page, and the exception stack, are passed over.\<close>

lemma dup_inv_skip:
  assumes "dup_inv c e s0 k s" and "k = xstack_page \<or> (\<forall>va. unat (VPN va) = k \<longrightarrow> va_entry s0 c va = None)"
  shows "dup_inv c e s0 (Suc k) s"
proof -
  have "copied (Suc k) (unat (VPN va)) = copied k (unat (VPN va)) \<or> va_entry s0 c va = None" for va
    using assms(2) by (auto simp: copied_def less_Suc_eq)
  then have "copied (Suc k) (unat (VPN va)) = copied k (unat (VPN va)) \<or> map_option f (va_entry s0 c va) = None \<and> va_entry s0 c va = None" for va f
    by simp
  note same = this [of _ child_entry] this [of _ parent_entry]
  have eqs: "(if copied (Suc k) (unat (VPN va)) then map_option child_entry (va_entry s0 c va) else None)
      = (if copied k (unat (VPN va)) then map_option child_entry (va_entry s0 c va) else None)"
    "(if copied (Suc k) (unat (VPN va)) then map_option parent_entry (va_entry s0 c va) else va_entry s0 c va)
      = (if copied k (unat (VPN va)) then map_option parent_entry (va_entry s0 c va) else va_entry s0 c va)" for va
    using same [of va] by auto
  show ?thesis
    using assms(1) unfolding dup_inv_def eqs .
qed

lemma dup_inv_step:
  assumes inv: "dup_inv c e s0 k s" and ec: "e \<noteq> c" and k: "k \<noteq> xstack_page" "k < 2 ^ 20"
    and ne: "\<And>va. va_entry s0 e va = None"
    and w: "va_entry s0 c (pg k) = Some w" and fr: "pframe s s'"
    and entry: "\<And>j va. va_entry s' j va = (if j = e \<and> unat (VPN va) = k then Some (child_entry w)
        else if j = c \<and> unat (VPN va) = k then Some (parent_entry w) else va_entry s j va)"
    and pages: "\<And>j va w. va_entry s j va = Some w \<Longrightarrow> mem s' (unat (PPN w)) = mem s (unat (PPN w))"
  shows "dup_inv c e s0 (Suc k) s'"
proof -
  have here: "va_entry s0 c va = Some w" if "unat (VPN va) = k" for va
    using that w va_entry_VPN [of va "pg k"] VPN_pg_iff [OF k(2)] by simp
  have step: "copied (Suc k) n = (n = k \<or> copied k n)" for n
    using k(1) by (auto simp: copied_def less_Suc_eq)
  have "mem s' (unat (PPN v)) = mem s0 (unat (PPN v))" if "va_entry s0 j va = Some v" for j va v
  proof -
    obtain v' where "va_entry s j va = Some v'" "PPN v' = PPN v"
      using dup_inv_pages [OF inv ne \<open>va_entry s0 j va = Some v\<close>] by blast
    moreover have "mem s (unat (PPN v)) = mem s0 (unat (PPN v))"
      using inv that by (simp add: dup_inv_def)
    ultimately show ?thesis
      using pages [of j va v'] by simp
  qed
  moreover have "pframe s0 s'"
    using dup_inv_frame [OF inv] fr by (rule pframe_trans)
  ultimately show ?thesis
    using inv ec here unfolding dup_inv_def by (auto simp: step entry)
qed

definition map_cow :: "u32 \<Rightarrow> nat \<Rightarrow> kstate \<Rightarrow> (int, kstate) kres" where
  "map_cow child k s =
     kbind (lib_page_map 0 (pg k) child (pg k) (PTE_P OR PTE_U OR PTE_COW) s) (\<lambda>r s. if r < 0 then Ok r s else
     kbind (lib_page_map 0 (pg k) 0 (pg k) (PTE_P OR PTE_U OR PTE_COW) s) (\<lambda>r s. if r < 0 then Ok r s else Ok 0 s))"

lemma map_cow_spec:
  assumes inv: "kinv M {} s" and cur: "live c s" and ec: "e \<noteq> c" and k: "k < 955 * 1024"
    and w: "va_entry s c (pg k) = Some w" and child: "envid2env child True s = Ok (Inr (Some e)) s"
    and absent: "\<forall>va. unat (VPN va) = k \<longrightarrow> va_entry s e va = None"
  obtains (no_mem) s' where "map_cow child k s = Ok (- E_NO_MEM) s'" "kinv M {} s'" "pframe s s'"
      "\<And>j va. j \<noteq> e \<Longrightarrow> va_entry s' j va = va_entry s j va"
  | (mapped) s' where "map_cow child k s = Ok 0 s'" "kinv M {} s'" "pframe s s'"
      "\<And>j va. va_entry s' j va = (if (j = e \<or> j = c) \<and> unat (VPN va) = k
         then Some (page2pa (unat (PPN w)) OR (PTE_P OR PTE_U OR PTE_COW) OR PTE_P) else va_entry s j va)"
      "\<And>j va w. va_entry s j va = Some w \<Longrightarrow> mem s' (unat (PPN w)) = mem s (unat (PPN w))"
      "\<And>j d. pde_of s j d \<noteq> None \<Longrightarrow> pde_of s' j d \<noteq> None"
proof -
  have perm: "(PTE_P OR PTE_U OR PTE_COW) AND (PTE_U + PTE_P) \<noteq> 0" "(PTE_P OR PTE_U OR PTE_COW) AND NOT PTE_USER = 0"
      "(PTE_P OR PTE_U OR PTE_COW) AND PTE_W \<noteq> 0 \<longrightarrow> w AND PTE_W \<noteq> 0"
    by (simp_all add: const_defs)
  show ?thesis
    using inv cur k child w perm
  proof (cases rule: lib_page_map_ok)
    case no_mem
    then show ?thesis
      using inv by (intro that(1) [of s]) (simp_all add: map_cow_def const_defs)
  next
    case (mapped s1)
    have cur1: "live c s1"
      using live_pframe [OF mapped(3)] cur by simp
    have self: "envid2env 0 True s1 = Ok (Inr (Some c)) s1"
      using cur1 by (simp add: envid2env_def live_def)
    have w1: "va_entry s1 c (pg k) = Some w"
      using w ec by (simp add: mapped(4))
    show ?thesis
      using mapped(2) cur1 k self w1 perm
    proof (cases rule: lib_page_map_ok)
      case no_mem
      then show ?thesis
        using mapped by (intro that(1) [of s1]) (simp_all add: map_cow_def const_defs)
    next
      case m2: (mapped s2)
      have "mem s2 (unat (PPN v)) = mem s (unat (PPN v))" if "va_entry s j va = Some v" for j va v
        using m2(5) [of j va v] mapped(5) [OF that] absent that by (cases "j = e \<and> unat (VPN va) = k") (auto simp: mapped(4))
      with mapped m2 show ?thesis
        by (intro that(2) [OF _ m2(2) pframe_trans [OF mapped(3) m2(3)]]) (auto simp: map_cow_def)
    qed
  qed
qed

lemma duppage_step:
  assumes inv: "kinv M {} s" and cur: "live c s" and d: "dup_inv c e s0 k s" and ec: "e \<noteq> c"
    and ne: "\<And>va. va_entry s0 e va = None" and k: "k \<noteq> xstack_page" "k < 955 * 1024"
    and w: "va_entry s0 c (pg k) = Some w" and child: "envid2env child True s0 = Ok (Inr (Some e)) s0"
  shows "\<exists>r s'. duppage child (of_nat k) s = Ok r s' \<and> kinv M {} s'
    \<and> (r = 0 \<and> dup_inv c e s0 (Suc k) s' \<and> (\<forall>d. pde_of s c d \<noteq> None \<longrightarrow> pde_of s' c d \<noteq> None)
       \<or> r = - E_NO_MEM \<and> dup_stopped c e s0 s')"
proof -
  have k20: "k < 2 ^ 20"
    using k by simp
  have ws: "va_entry s c (pg k) = Some w"
    using dup_inv_page [OF d] w pg_index(3) [OF k20] by simp
  note vpt = vpt_present [OF inv cur k20 ws]
  have child: "envid2env child True s = Ok (Inr (Some e)) s"
    by (rule envid2env_pframe [OF dup_inv_frame [OF d] child])
  note stop = dup_inv_stopped [OF d]
  have cond: "((w AND PTE_USER) AND PTE_SHARE = 0 \<and> ((w AND PTE_USER) AND PTE_W \<noteq> 0 \<or> (w AND PTE_USER) AND PTE_COW \<noteq> 0)) = cow_entry w"
    by (simp add: user_flags cow_entry_def)
  have run: "duppage child (of_nat k) s = (if cow_entry w then map_cow child k s
       else kbind (lib_page_map 0 (pg k) child (pg k) (w AND PTE_USER) s) (\<lambda>r s. if r < 0 then Ok r s else Ok 0 s))"
    unfolding duppage_def vpt map_cow_def by (simp only: kbind.simps Let_def cond)
  have at: "unat (VPN va) = k \<Longrightarrow> va_entry s j va = va_entry s j (pg k)" for j va
    using va_entry_VPN [of va "pg k"] VPN_pg_iff [OF k20] by simp
  show ?thesis
  proof (cases "cow_entry w")
    case True
    have absent: "\<forall>va. unat (VPN va) = k \<longrightarrow> va_entry s e va = None"
      using d by (simp add: dup_inv_def copied_def)
    show ?thesis
      using inv cur ec k(2) ws child absent
    proof (cases rule: map_cow_spec)
      case (no_mem s')
      then have "dup_stopped c e s0 s'"
        using stop pframe_trans [OF _ no_mem(3)] by (simp add: dup_stopped_def)
      then show ?thesis
        using run True no_mem(1,2) by simp
    next
      case (mapped s')
      have "dup_inv c e s0 (Suc k) s'"
        using True by (intro dup_inv_step [OF d ec k(1) k20 ne w mapped(3) _ mapped(5)])
          (auto simp: mapped(4) child_entry_def parent_entry_def)
      then show ?thesis
        using run True mapped(1,2,6) by simp
    qed
  next
    case False
    have wflag: "(w AND PTE_USER) AND PTE_W \<noteq> 0 \<longrightarrow> w AND PTE_W \<noteq> 0"
      by (simp add: user_flags)
    show ?thesis
      using inv cur k(2) child ws user_present [OF va_entry_present [OF w]] user_flags(4) wflag
    proof (cases rule: lib_page_map_ok)
      case no_mem
      then show ?thesis
        using run False inv stop by (simp add: const_defs)
    next
      case (mapped s')
      have "dup_inv c e s0 (Suc k) s'"
        using False ec ws at [of _ c]
        by (intro dup_inv_step [OF d ec k(1) k20 ne w mapped(3) _ mapped(5)]) (auto simp: mapped(4) child_entry_def parent_entry_def)
      then show ?thesis
        using run False mapped(1,2,6) by simp
    qed
  qed
qed

lemma dup_entries_run:
  assumes w: "vpt (of_nat (i * 1024 + j)) s = Ok w s" and k: "i * 1024 + j < 2 ^ 20"
  shows "dup_entries child i (j # js) s =
    (if w AND PTE_P = 0 then dup_entries child i js s
     else if i * 1024 + j = xstack_page then Ok 0 s
     else kbind (duppage child (of_nat (i * 1024 + j)) s) (\<lambda>r s. if r < 0 then Ok r s else dup_entries child i js s))"
proof -
  have "(of_nat (i * 1024 + j) = (of_nat xstack_page :: u32)) = (i * 1024 + j = xstack_page)"
    using k unfolding word_unat_eq_iff unat_of_nat xstack_page_eq(1) by simp
  then show ?thesis
    using w by (simp add: NPDENTRIES_def xstack_page_eq(2) del: of_nat_add of_nat_mult)
qed

definition dup_outcome :: "nat set \<Rightarrow> nat \<Rightarrow> nat \<Rightarrow> kstate \<Rightarrow> nat \<Rightarrow> (int, kstate) kres \<Rightarrow> bool" where
  "dup_outcome M c e s0 k m \<longleftrightarrow> (\<exists>r s'. m = Ok r s' \<and> kinv M {} s'
     \<and> (r = 0 \<and> dup_inv c e s0 k s' \<or> r = - E_NO_MEM \<and> dup_stopped c e s0 s'))"

lemma dup_entries_step:
  assumes "kinv M {} s" and cur: "live c s0" and "dup_inv c e s0 (i * 1024 + j) s" and ec: "e \<noteq> c"
    and ne: "\<And>va. va_entry s0 e va = None" and i: "i < 955"
    and child: "envid2env child True s0 = Ok (Inr (Some e)) s0" and "pde_of s c i \<noteq> None" and "j \<le> 1024"
  shows "dup_outcome M c e s0 (i * 1024 + 1024) (dup_entries child i [j..<1024] s)"
  using assms(1,3,8,9)
proof (induction "1024 - j" arbitrary: j s)
  case 0
  then show ?case
    by (simp add: dup_outcome_def)
next
  case (Suc n)
  let ?k = "i * 1024 + j"
  have j: "j < 1024" "[j..<1024] = j # [Suc j..<1024]"
    using Suc.hyps(2) by (simp_all add: upt_conv_Cons)
  have k: "?k < 955 * 1024" "?k < 2 ^ 20" "?k div 1024 = i"
    using i j by simp_all
  have curs: "live c s"
    using live_pframe [OF dup_inv_frame [OF Suc.prems(2)]] cur by simp
  have "pde_of s c (?k div 1024) \<noteq> None"
    using Suc.prems(3) unfolding k(3) .
  then obtain w where w: "vpt (of_nat ?k) s = Ok w s" "va_entry s c (pg ?k) = (if w AND PTE_P \<noteq> 0 then Some w else None)"
    using vpt_entry [OF Suc.prems(1) curs _ k(2)] by blast
  have here: "va_entry s0 c va = (if w AND PTE_P \<noteq> 0 then Some w else None)" if "unat (VPN va) = ?k" for va
    using w(2) dup_inv_page [OF Suc.prems(2) that] va_entry_VPN [of va "pg ?k"] that VPN_pg_iff [OF k(2)] by simp
  have go: "dup_outcome M c e s0 (i * 1024 + 1024) (dup_entries child i [Suc j..<1024] s1)"
    if "kinv M {} s1" "dup_inv c e s0 (Suc ?k) s1" "pde_of s1 c i \<noteq> None" for s1
    using Suc.hyps(1) [of "Suc j" s1] Suc.hyps(2) that j(1) by simp
  note run = dup_entries_run [OF w(1) k(2), of child "[Suc j..<1024]", folded j(2)]
  consider "w AND PTE_P = 0" | "w AND PTE_P \<noteq> 0" "?k = xstack_page" | "w AND PTE_P \<noteq> 0" "?k \<noteq> xstack_page"
    by blast
  then show ?case
  proof cases
    case 1
    then have "dup_inv c e s0 (Suc ?k) s"
      using here by (intro dup_inv_skip [OF Suc.prems(2)]) simp
    then show ?thesis
      unfolding run using go [OF Suc.prems(1) _ Suc.prems(3)] 1 by simp
  next
    case 2
    then have last: "i * 1024 + 1024 = Suc ?k"
      using j(1) i by (simp add: xstack_page_eq)
    have "dup_inv c e s0 (i * 1024 + 1024) s"
      unfolding last by (rule dup_inv_skip [OF Suc.prems(2)]) (use 2 in simp)
    then show ?thesis
      unfolding run dup_outcome_def using 2 Suc.prems(1) by simp
  next
    case 3
    have "va_entry s0 c (pg ?k) = Some w"
      using here [OF pg_index(3) [OF k(2)]] 3 by simp
    then obtain r s1 where s1: "duppage child (of_nat ?k) s = Ok r s1" "kinv M {} s1"
        "r = 0 \<and> dup_inv c e s0 (Suc ?k) s1 \<and> (\<forall>d. pde_of s c d \<noteq> None \<longrightarrow> pde_of s1 c d \<noteq> None)
          \<or> r = - E_NO_MEM \<and> dup_stopped c e s0 s1"
      using duppage_step [OF Suc.prems(1) curs Suc.prems(2) ec ne 3(2) k(1) _ child] by blast
    then show ?thesis
      unfolding run using 3 go [OF s1(2)] Suc.prems(3) by (auto simp: dup_outcome_def const_defs simp del: of_nat_add of_nat_mult)
  qed
qed

lemma dup_inv_skip_table:
  assumes "dup_inv c e s0 (i * 1024) s" and "pde_of s c i = None" and "n \<le> 1024"
  shows "dup_inv c e s0 (i * 1024 + n) s"
  using assms(3)
proof (induction n)
  case (Suc n)
  have "va_entry s0 c va = None" if "unat (VPN va) = i * 1024 + n" for va
  proof -
    have "unat (PDX va) = i"
      using that Suc.prems unfolding unat_VPN by (metis Suc_le_eq div_mult_self3 div_less add.commute add.left_neutral unat_PTX_less zero_neq_numeral)
    then have "va_entry s c va = None"
      using assms(2) by (simp add: va_entry_def)
    then show ?thesis
      using dup_inv_page [OF Suc.IH that] Suc.prems by simp
  qed
  then show ?case
    using dup_inv_skip [of c e s0 "i * 1024 + n" s] Suc by simp
qed (use assms(1) in simp)

lemma dup_tables_step:
  assumes "kinv M {} s" and cur: "live c s0" and "dup_inv c e s0 (i * 1024) s" and ec: "e \<noteq> c"
    and ne: "\<And>va. va_entry s0 e va = None"
    and child: "envid2env child True s0 = Ok (Inr (Some e)) s0" and "i \<le> 955"
  shows "dup_outcome M c e s0 (955 * 1024) (dup_tables child [i..<955] s)"
  using assms(1,3,7)
proof (induction "955 - i" arbitrary: i s)
  case 0
  then show ?case
    by (simp add: dup_outcome_def)
next
  case (Suc n)
  have i: "i < 955" "[i..<955] = i # [Suc i..<955]"
    using Suc.hyps(2) by (simp_all add: upt_conv_Cons)
  have curs: "live c s"
    using live_pframe [OF dup_inv_frame [OF Suc.prems(2)]] cur by simp
  obtain pd where pd: "dir_of s c = Some pd"
    using live_dir [OF Suc.prems(1) curs] by blast
  have vpd: "vpd (of_nat i) s = Ok (mem s pd i) s"
    using vpd_eq [OF Suc.prems(1) curs pd] i(1) by simp
  have pde: "pde_of s c i = None \<longleftrightarrow> mem s pd i AND PTE_P = 0"
    using pd i(1) by (simp add: pde_of_def pte_target_def NPDE_def)
  have go: "dup_outcome M c e s0 (955 * 1024) (dup_tables child [Suc i..<955] s1)"
    if "kinv M {} s1" "dup_inv c e s0 (i * 1024 + 1024) s1" for s1
    using Suc.hyps(1) [of "Suc i" s1] Suc.hyps(2) that i(1) by (simp add: add.commute)
  show ?case
  proof (cases "pde_of s c i = None")
    case True
    then show ?thesis
      using go [OF Suc.prems(1) dup_inv_skip_table [OF Suc.prems(2) True]] pde i(2) vpd by simp
  next
    case False
    then have "dup_outcome M c e s0 (i * 1024 + 1024) (dup_entries child i [0..<1024] s)"
      using Suc.prems(2) by (intro dup_entries_step [OF Suc.prems(1) cur _ ec ne i(1) child]) simp_all
    then show ?thesis
      using go False pde i(2) vpd by (auto simp: dup_outcome_def NPTENTRIES_def const_defs)
  qed
qed

section \<open>Making the child\<close>

lemma lib_exofork_spec:
  assumes inv: "kinv M {} s" and cur: "current c s"
  obtains (fail) "lib_exofork s = Ok (- E_NO_FREE_ENV) s"
  | (made) e s' where "lib_exofork s = Ok (sint (env_id (envs s' e))) s'" "kinv M {} s'" "live c s'" "e < NENV" "e \<noteq> c"
      "env_status (envs s e) = ENV_FREE" "0 < sint (env_id (envs s' e))"
      "envid2env (env_id (envs s' e)) True s' = Ok (Inr (Some e)) s'" "\<And>va. va_entry s' e va = None"
      "\<And>j va. j \<noteq> e \<Longrightarrow> va_entry s' j va = va_entry s j va"
      "\<And>j va w. va_entry s j va = Some w \<Longrightarrow> mem s' (unat (PPN w)) = mem s (unat (PPN w))"
      "\<And>j. j \<noteq> e \<Longrightarrow> envs s' j = envs s j"
      "env_tf (envs s' e) = env_tf (set_eax 0 (envs s c))" "env_parent_id (envs s' e) = env_id (envs s c)"
  using inv cur
proof (cases rule: sys_exofork_eq)
  case fail
  then show ?thesis
    using that(1) by (simp add: lib_calls)
next
  case (made e p r q m eq s')
  have ok: "env_ok e (envs s e)" "env_ok e (envs s' e)"
    using einvD(1) kinvD(2) [OF inv] kinvD(2) [OF made(3)] made(5) by blast+
  have env': "env_status (envs s' e) = ENV_NOT_RUNNABLE" "env_parent_id (envs s' e) = env_id (envs s c)"
    "env_tf (envs s' e) = env_tf (set_eax 0 (envs s c))" "\<And>j. j \<noteq> e \<Longrightarrow> envs s' j = envs s j"
    by (simp_all add: made(1) set_eax_def add_env_def)
  have id: "0 < sint (env_id (envs s' e))" "unat (ENVX (env_id (envs s' e))) = e"
    using ok(2) env'(1) by (simp_all add: env_ok_def const_defs)
  then have "env_id (envs s' e) \<noteq> 0"
    by auto
  then have found: "envid2env (env_id (envs s' e)) True s' = Ok (Inr (Some e)) s'"
    using made(4,6) env' id(2) by (simp add: envid2env_def live_def the_curenv_def Let_def const_defs)
  have "dir_of s e = None"
    using ok(1) made(7) by (simp add: env_ok_def dir_of_def)
  then have none: "va_entry s' e va = None" for va
    using fun_cong [OF made(8), of "Pd e (unat (PDX va))"] by (simp add: va_entry_def pde_of_cases)
  have mem: "mem s' q = mem s q" if "refs (target s) q \<noteq> {}" for q
  proof -
    have "q \<noteq> p"
      using made(10) that by blast
    then show ?thesis
      using made(9) by (simp add: made(1) add_env_def)
  qed
  have others: "va_entry s' j va = va_entry s j va" if "j \<noteq> e" for j va
  proof (rule va_entry_cong)
    show "pde_of s' j (unat (PDX va)) = pde_of s j (unat (PDX va))"
      using fun_cong [OF made(8), of "Pd j (unat (PDX va))"] by simp
    show "mem s' pt (unat (PTX va)) = mem s pt (unat (PTX va))" if "pde_of s j (unat (PDX va)) = Some pt" for pt
    proof -
      have "Pd j (unat (PDX va)) \<in> refs (target s) pt"
        using that by (simp add: refs_def)
      then show ?thesis
        using mem [of pt] by (metis empty_iff)
    qed
  qed
  show ?thesis
    using that(2) [OF _ made(3-7) id(1) found none others mem [OF va_entry_ref] env'(4,3,2)] made(2) by (simp add: lib_calls)
qed

lemma set_pgfault_handler_spec:
  assumes inv: "kinv M {} s" and cur: "current c s"
  obtains (panic) "installed = 0" "set_pgfault_handler installed upcall handler s = Panic ''set_pgfault_handler''"
  | (installed) s1 where "set_pgfault_handler installed upcall handler s = Ok handler s1" "kinv M {} s1" "current c s1"
      "\<And>j va. \<not> (j = c \<and> unat (VPN va) = xstack_page) \<Longrightarrow> va_entry s1 j va = va_entry s j va"
      "\<And>j va w. va_entry s j va = Some w \<Longrightarrow> mem s1 (unat (PPN w)) = mem s (unat (PPN w))"
      "\<And>j. envs s1 j = (if j = c \<and> installed = 0 then (envs s c)\<lparr>env_pgfault_upcall := upcall\<rparr> else envs s j)"
proof (cases "installed = 0")
  case False
  then show ?thesis
    using inv cur by (intro that(2) [of s]) (simp_all add: set_pgfault_handler_def)
next
  case True
  have c: "c < NENV" "envid2env 0 True s' = Ok (Inr (Some c)) s'" if "live c s'" for s'
    using that by (simp_all add: envid2env_def live_def)
  note live = current_live [OF cur]
  have k: "xstack_page < 955 * 1024"
    by (simp add: xstack_page_eq)
  have perm: "(PTE_P OR PTE_W OR PTE_U) AND PTE_U \<noteq> 0" "(PTE_P OR PTE_W OR PTE_U) AND PTE_P \<noteq> 0"
    "(PTE_P OR PTE_W OR PTE_U) AND NOT PTE_USER = 0"
    by (simp_all add: const_defs)
  show ?thesis
    using inv live k c(2) [OF live] perm
  proof (cases rule: lib_page_alloc_ok)
    case (no_mem s')
    then show ?thesis
      using True by (intro that(1)) (simp_all add: set_pgfault_handler_def xstack_page_eq(3) E_NO_MEM_def)
  next
    case (mapped p s')
    let ?f = "\<lambda>x. x\<lparr>env_pgfault_upcall := upcall\<rparr>"
    have live': "live c s'"
      using live_pframe [OF mapped(3)] live by simp
    have up: "lib_env_set_pgfault_upcall 0 upcall s' = Ok 0 (upd_env c ?f s')"
      by (rule set_upcall_eq [OF mapped(2) c(2) [OF live'] c(1) [OF live']])
    have "kinv M {} (upd_env c ?f s')"
      using harmless_upd_env(1) [OF mapped(2) live'] live' by (simp add: live_def)
    moreover have "current c (upd_env c ?f s')"
      using cur pframe_simps(1,6) [OF mapped(3)] by (simp add: current_def)
    moreover have "va_entry (upd_env c ?f s') = va_entry s'"
      by (rule va_entry_upd_env) simp
    ultimately show ?thesis
      using True mapped(1,5,7) up pframe_simps(1) [OF mapped(3)]
      by (intro that(2) [of "upd_env c ?f s'"]) (auto simp: set_pgfault_handler_def xstack_page_eq(3) upd_env_def)
  qed
qed

text \<open>What a successful fork makes of the state: \<open>e\<close> is the child of \<open>c\<close>.\<close>

definition forked :: "nat \<Rightarrow> nat \<Rightarrow> u32 \<Rightarrow> kstate \<Rightarrow> kstate \<Rightarrow> bool" where
  "forked c e upcall s s' \<longleftrightarrow> e < NENV \<and> e \<noteq> c \<and> env_status (envs s e) = ENV_FREE \<and> 0 < sint (env_id (envs s' e))
     \<and> env_status (envs s' e) = ENV_RUNNABLE \<and> env_parent_id (envs s' e) = env_id (envs s c)
     \<and> env_pgfault_upcall (envs s' e) = upcall \<and> env_tf (envs s' e) = env_tf (set_eax 0 (envs s c))
     \<and> (\<forall>va. unat (VPN va) \<noteq> xstack_page \<longrightarrow> va_entry s' e va = map_option child_entry (va_entry s c va)
          \<and> va_entry s' c va = map_option parent_entry (va_entry s c va))
     \<and> (\<exists>p. va_entry s' e (UXSTACKTOP - PGSIZE) = Some (page2pa p OR (PTE_W OR PTE_U OR PTE_P) OR PTE_P) \<and> (\<forall>i. mem s' p i = 0))
     \<and> (\<forall>j va w. va_entry s j va = Some w \<longrightarrow> \<not> (j = c \<and> unat (VPN va) = xstack_page) \<longrightarrow>
          mem s' (unat (PPN w)) = mem s (unat (PPN w)))"

text \<open>The rest of fork after the address space has been copied.\<close>

lemma fork_rest:
  fixes upcall :: u32 and envid :: int
  assumes inv: "kinv M {} s" and cur: "live c s0" and d: "dup_inv c e s0 (955 * 1024) s" and e: "e < NENV" "e \<noteq> c"
    and child: "envid2env child True s0 = Ok (Inr (Some e)) s0" and ne: "\<And>va. va_entry s0 e va = None"
    and st: "env_status (envs s0 e) \<noteq> ENV_FREE"
  defines "m \<equiv> kbind (lib_page_alloc child (UXSTACKTOP - PGSIZE) (PTE_W OR PTE_U OR PTE_P) s) (\<lambda>r s.
         if r < 0 then Ok r s
         else
           kbind (lib_env_set_pgfault_upcall child upcall s) (\<lambda>r s.
           if r < 0 then Ok r s
           else
             kbind (lib_env_set_status child ENV_RUNNABLE s) (\<lambda>r s.
             if r < 0 then Ok r s else Ok envid s)))"
  obtains (no_mem) s' where "m = Ok (- E_NO_MEM) s'" "kinv M {} s'" "\<And>j va. j \<noteq> c \<Longrightarrow> j \<noteq> e \<Longrightarrow> va_entry s' j va = va_entry s0 j va"
  | (ready) p s' where "m = Ok envid s'" "kinv M {} s'"
      "envs s' = (envs s0)(e := (envs s0 e)\<lparr>env_pgfault_upcall := upcall, env_status := ENV_RUNNABLE\<rparr>)"
      "\<And>j va. va_entry s' j va = (if j = e \<and> unat (VPN va) = xstack_page
          then Some (page2pa p OR (PTE_W OR PTE_U OR PTE_P) OR PTE_P) else va_entry s j va)"
      "\<And>i. mem s' p i = 0"
      "\<And>j va w. va_entry s0 j va = Some w \<Longrightarrow> mem s' (unat (PPN w)) = mem s0 (unat (PPN w))"
proof -
  have k: "xstack_page < 955 * 1024"
    by (simp add: xstack_page_eq)
  have perm: "(PTE_W OR PTE_U OR PTE_P) AND PTE_U \<noteq> 0" "(PTE_W OR PTE_U OR PTE_P) AND PTE_P \<noteq> 0"
    "(PTE_W OR PTE_U OR PTE_P) AND NOT PTE_USER = 0"
    by (simp_all add: const_defs)
  note fr = dup_inv_frame [OF d]
  have live: "live c s"
    using live_pframe [OF fr] cur by simp
  show ?thesis
    using inv live k envid2env_pframe [OF fr child] perm
  proof (cases rule: lib_page_alloc_ok)
    case (no_mem s')
    have "m = Ok (- E_NO_MEM) s'"
      using no_mem(1) unfolding m_def xstack_page_eq(3) by (simp add: E_NO_MEM_def)
    then show ?thesis
      using no_mem(2,4) d by (intro that(1) [of s']) (simp_all add: dup_inv_def)
  next
    case (mapped p s')
    note fr' = pframe_trans [OF fr mapped(3)]
    have live': "live c s'"
      using live_pframe [OF fr'] cur by simp
    have ch: "envid2env child True s' = Ok (Inr (Some e)) s'"
      by (rule envid2env_pframe [OF fr' child])
    let ?s1 = "upd_env e (\<lambda>x. x\<lparr>env_pgfault_upcall := upcall\<rparr>) s'"
    let ?s2 = "upd_env e (\<lambda>x. x\<lparr>env_status := ENV_RUNNABLE\<rparr>) ?s1"
    have st': "env_status (envs s' e) \<noteq> ENV_FREE"
      using st pframe_simps(1) [OF fr'] by simp
    note i1 = harmless_upd_env [OF mapped(2) live' e(1) st' harmless_simps(2)]
    have "kinv M {} ?s2"
      by (rule harmless_upd_env(1) [OF i1 e(1)]) (use st' in simp_all)
    moreover have "envid2env child True ?s1 = Ok (Inr (Some e)) ?s1"
      using ch by (auto simp: envid2env_def the_curenv_def Let_def upd_env_def split: if_splits option.splits)
    then have "m = Ok envid ?s2"
      using mapped(1) set_upcall_eq [OF mapped(2) ch e(1)] set_status_eq [OF i1(1) _ e(1)]
      unfolding m_def xstack_page_eq(3) by simp
    moreover have "va_entry ?s2 = va_entry s'"
      by (simp add: va_entry_upd_env)
    moreover have "mem s' (unat (PPN w)) = mem s0 (unat (PPN w))" if "va_entry s0 j va = Some w" for j va w
    proof -
      obtain w' where "va_entry s j va = Some w'" "PPN w' = PPN w"
        using dup_inv_pages [OF d ne \<open>va_entry s0 j va = Some w\<close>] by blast
      with mapped(7) [of j va w'] show ?thesis
        using d that by (simp add: dup_inv_def)
    qed
    ultimately show ?thesis
      using mapped(5,6) pframe_simps(1) [OF fr'] by (intro that(2) [of ?s2 p]) (simp_all add: upd_env_def)
  qed
qed

text \<open>The outcome of fork in the parent.\<close>

definition fork_outcome :: "nat set \<Rightarrow> nat \<Rightarrow> u32 \<Rightarrow> kstate \<Rightarrow> (int, kstate) kres \<Rightarrow> bool" where
  "fork_outcome M c upcall s m \<longleftrightarrow> (\<exists>r s'. m = Ok r s' \<and> kinv M {} s'
     \<and> (\<forall>j va. j \<noteq> c \<longrightarrow> env_status (envs s j) \<noteq> ENV_FREE \<longrightarrow> va_entry s' j va = va_entry s j va)
     \<and> (r = - E_NO_FREE_ENV \<or> r = - E_NO_MEM \<or> (\<exists>e. r = sint (env_id (envs s' e)) \<and> forked c e upcall s s')))"

lemma dup_inv_all:
  assumes "dup_inv c e s0 (955 * 1024) s" and "unat (VPN va) \<noteq> xstack_page"
  shows "va_entry s e va = map_option child_entry (va_entry s0 c va)" "va_entry s c va = map_option parent_entry (va_entry s0 c va)"
  using assms va_entry_above [of va s0 c] by (cases "unat (VPN va) < 955 * 1024"; simp add: dup_inv_def copied_def not_less)+

lemma fork_installed:
  assumes inv: "kinv M {} s1" and cur: "current c s1" and run: "set_pgfault_handler installed upcall handler s = Ok handler s1"
    and va: "\<And>j va. \<not> (j = c \<and> unat (VPN va) = xstack_page) \<Longrightarrow> va_entry s1 j va = va_entry s j va"
    and mem: "\<And>j va w. va_entry s j va = Some w \<Longrightarrow> mem s1 (unat (PPN w)) = mem s (unat (PPN w))"
    and envs: "\<And>j. envs s1 j = (if j = c \<and> installed = 0 then (envs s c)\<lparr>env_pgfault_upcall := upcall\<rparr> else envs s j)"
  shows "fork_outcome M c upcall s (fork installed upcall handler s)"
  using inv cur
proof (cases rule: lib_exofork_spec)
  case fail
  then show ?thesis
    using inv run va by (simp add: fork_outcome_def fork_def E_NO_FREE_ENV_def)
next
  case (made e s2)
  let ?id = "sint (env_id (envs s2 e))" and ?child = "env_id (envs s2 e)"
  have free: "env_status (envs s e) = ENV_FREE"
    using made(5,6) envs [of e] by simp
  then have alive: "env_status (envs s j) \<noteq> ENV_FREE \<Longrightarrow> j \<noteq> e" for j
    by auto
  have fork: "fork installed upcall handler s = kbind (dup_tables ?child [0..<955] s2) (\<lambda>r s.
       if r < 0 then Ok r s
       else
         kbind (lib_page_alloc ?child (UXSTACKTOP - PGSIZE) (PTE_W OR PTE_U OR PTE_P) s) (\<lambda>r s.
         if r < 0 then Ok r s
         else
           kbind (lib_env_set_pgfault_upcall ?child upcall s) (\<lambda>r s.
           if r < 0 then Ok r s
           else
             kbind (lib_env_set_status ?child ENV_RUNNABLE s) (\<lambda>r s.
             if r < 0 then Ok r s else Ok ?id s))))"
  proof -
    have "unat (VPD UTOP) = 955"
      by (simp add: const_defs addr_macros)
    then show ?thesis
      unfolding fork_def run using made(1,7) by (simp add: Let_def)
  qed
  have d: "dup_inv c e s2 (0 * 1024) s2"
    by (simp add: dup_inv_def copied_def made(9))
  have outcome: "dup_outcome M c e s2 (955 * 1024) (dup_tables ?child [0..<955] s2)"
    by (rule dup_tables_step [OF made(2,3) d made(5,9,8)]) simp
  have keep: "va_entry s2 j va = va_entry s j va" if "j \<noteq> e" "\<not> (j = c \<and> unat (VPN va) = xstack_page)" for j va
    using made(10) va that by simp
  obtain r s3 where s3: "dup_tables ?child [0..<955] s2 = Ok r s3" "kinv M {} s3"
      "r = 0 \<and> dup_inv c e s2 (955 * 1024) s3 \<or> r = - E_NO_MEM \<and> dup_stopped c e s2 s3"
    using outcome unfolding dup_outcome_def by blast
  show ?thesis
  proof (cases "r = 0")
    case False
    then have "fork_outcome M c upcall s (Ok r s3)"
      using s3(2,3) keep alive unfolding fork_outcome_def dup_stopped_def by auto
    moreover have "r < 0"
      using False s3(3) by (simp add: const_defs)
    ultimately show ?thesis
      using fork s3(1) by simp
  next
    case True
    then have d3: "dup_inv c e s2 (955 * 1024) s3"
      using s3(3) by (simp add: const_defs)
    have st: "env_status (envs s2 e) \<noteq> ENV_FREE"
      using made(2,3) by (cases rule: envid2env_spec [where envid = ?child and checkperm = True]) (use made(8) in auto)
    show ?thesis
      using s3(2) made(3) d3 made(4,5,8,9) st
    proof (cases rule: fork_rest [where upcall = upcall and envid = ?id])
      case (no_mem s')
      then have "fork_outcome M c upcall s (Ok (- E_NO_MEM) s')"
        using keep alive unfolding fork_outcome_def by auto
      then show ?thesis
        using fork s3(1) True no_mem(1) by simp
    next
      case (ready p s')
      have pages: "mem s' (unat (PPN w)) = mem s (unat (PPN w))"
        if w: "va_entry s j va = Some w" and "\<not> (j = c \<and> unat (VPN va) = xstack_page)" for j va w
      proof -
        have w1: "va_entry s1 j va = Some w"
          using va that by simp
        moreover have "j \<noteq> e"
          using va_entry_free [OF inv made(4,6), of va] w1 by auto
        ultimately have "va_entry s2 j va = Some w"
          using made(10) by simp
        then show ?thesis
          using ready(6) made(11) [OF w1] mem [OF w] by simp
      qed
      have "unat (VPN (UXSTACKTOP - PGSIZE)) = xstack_page"
        using pg_index(3) [of xstack_page] by (simp add: xstack_page_eq(1,3))
      then have "forked c e upcall s s'"
        using made(4,5,7,13,14) free ready(3-5) dup_inv_all [OF d3] keep envs [of c] pages
        unfolding forked_def by (auto simp: set_eax_def)
      moreover have "?id = sint (env_id (envs s' e))"
        by (simp add: ready(3))
      ultimately have "fork_outcome M c upcall s (Ok ?id s')"
        using ready(2,4) keep alive d3 unfolding fork_outcome_def dup_inv_def by auto
      then show ?thesis
        using fork s3(1) True ready(1) by simp
    qed
  qed
qed



end
