(* ===== verification/Ide.thy ===== *)
theory Ide
  imports Prelude "HOL-Library.Monad_Syntax"
begin

text \<open>
  The disk driver of the file server, \<^verbatim>\<open>fs/ide.c\<close>. The drive is its sectors of 128 words and the sequence of values its
  status register shows: reading the register for the \<open>t\<close>-th time gives \<open>status t\<close>. Each drive of the channel has
  its own sectors. A transfer moves one sector after every wait for the drive and stops at the first error.
\<close>

section \<open>The driver\<close>

definition SECTSIZE :: nat where [const_defs]: "SECTSIZE = 512"
definition IDE_BSY :: u8 where [const_defs]: "IDE_BSY = 0x80"
definition IDE_DRDY :: u8 where [const_defs]: "IDE_DRDY = 0x40"
definition IDE_DF :: u8 where [const_defs]: "IDE_DF = 0x20"
definition IDE_ERR :: u8 where [const_defs]: "IDE_ERR = 0x01"

type_synonym sector = "nat \<Rightarrow> u32"

record ide =
  status :: "nat \<Rightarrow> u8"
  clock :: nat
  drive :: "nat \<Rightarrow> nat \<Rightarrow> sector"
  diskno :: nat

definition is_ready :: "u8 \<Rightarrow> bool" where
  "is_ready r \<longleftrightarrow> r AND (IDE_BSY OR IDE_DRDY) = IDE_DRDY"

text \<open>Polling the status register until it shows a ready drive; no value if it never does.\<close>

partial_function (option) ide_poll :: "(nat \<Rightarrow> u8) \<Rightarrow> nat \<Rightarrow> nat option" where
  "ide_poll st t = (if is_ready (st t) then Some t else ide_poll st (t + 1))"

definition ide_wait_ready :: "bool \<Rightarrow> 'a ide_scheme \<Rightarrow> (int, 'a ide_scheme) kres" where
  "ide_wait_ready check_error s =
     (case ide_poll (status s) (clock s) of None \<Rightarrow> Hang
      | Some t \<Rightarrow>
          let r = status s t; s = s\<lparr>clock := t + 1\<rparr>
          in if check_error \<and> r AND (IDE_DF OR IDE_ERR) \<noteq> 0 then Ok (- 1) s else Ok 0 s)"

fun probe_loop :: "nat \<Rightarrow> nat \<Rightarrow> (nat \<Rightarrow> u8) \<Rightarrow> nat \<times> nat" where
  "probe_loop 0 t st = (1000, t)"
| "probe_loop (Suc n) t st =
     (if st t AND (IDE_BSY OR IDE_DF OR IDE_ERR) \<noteq> 0 then probe_loop n (t + 1) st else (999 - n, t + 1))"

definition ide_probe_disk1 :: "'a ide_scheme \<Rightarrow> (bool, 'a ide_scheme) kres" where
  "ide_probe_disk1 s =
     kbind (ide_wait_ready False s) (\<lambda>_ s.
     let (x, t) = probe_loop 1000 (clock s) (status s) in Ok (x < 1000) (s\<lparr>clock := t\<rparr>))"

definition ide_set_disk :: "nat \<Rightarrow> 'a ide_scheme \<Rightarrow> (unit, 'a ide_scheme) kres" where
  "ide_set_disk d s = (if d \<noteq> 0 \<and> d \<noteq> 1 then Panic ''bad disk number'' else Ok () (s\<lparr>diskno := d\<rparr>))"

text \<open>The sector number as the drive receives it: 28 bits, in four registers.\<close>

definition lba :: "u32 \<Rightarrow> nat" where
  "lba secno = unat ((secno AND 0xFF) OR push_bit 8 (drop_bit 8 secno AND 0xFF) OR push_bit 16 (drop_bit 16 secno AND 0xFF)
     OR push_bit 24 (drop_bit 24 secno AND 0x0F))"

text \<open>The transfer loops: the sectors read until the end or the first error, and the sectors written.\<close>

fun ide_read_loop :: "nat \<Rightarrow> nat \<Rightarrow> 'a ide_scheme \<Rightarrow> (int \<times> sector list, 'a ide_scheme) kres" where
  "ide_read_loop 0 sec s = Ok (0, []) s"
| "ide_read_loop (Suc n) sec s =
     kbind (ide_wait_ready True s) (\<lambda>r s.
     if r < 0 then Ok (r, []) s
     else kbind (ide_read_loop n (sec + 1) s) (\<lambda>(r, ds) s'. Ok (r, drive s (diskno s) sec # ds) s'))"

definition ide_read :: "u32 \<Rightarrow> nat \<Rightarrow> 'a ide_scheme \<Rightarrow> (int \<times> sector list, 'a ide_scheme) kres" where
  "ide_read secno nsecs s =
     kbind (kassert (nsecs \<le> 256) ''assertion failed: nsecs <= 256'' s) (\<lambda>_ s.
     kbind (ide_wait_ready False s) (\<lambda>_ s. ide_read_loop nsecs (lba secno) s))"

definition put_sector :: "nat \<Rightarrow> sector \<Rightarrow> 'a ide_scheme \<Rightarrow> 'a ide_scheme" where
  "put_sector sec d s = s\<lparr>drive := (drive s)(diskno s := (drive s (diskno s))(sec := d))\<rparr>"

fun ide_write_loop :: "sector list \<Rightarrow> nat \<Rightarrow> 'a ide_scheme \<Rightarrow> (int, 'a ide_scheme) kres" where
  "ide_write_loop [] sec s = Ok 0 s"
| "ide_write_loop (d # ds) sec s =
     kbind (ide_wait_ready True s) (\<lambda>r s.
     if r < 0 then Ok r s else ide_write_loop ds (sec + 1) (put_sector sec d s))"

definition ide_write :: "u32 \<Rightarrow> sector list \<Rightarrow> 'a ide_scheme \<Rightarrow> (int, 'a ide_scheme) kres" where
  "ide_write secno ds s =
     kbind (kassert (length ds \<le> 256) ''assertion failed: nsecs <= 256'' s) (\<lambda>_ s.
     kbind (ide_wait_ready False s) (\<lambda>_ s. ide_write_loop ds (lba secno) s))"

section \<open>A working drive\<close>

text \<open>The drive becomes ready again and again, and shows no error when it is ready.\<close>

definition drive_ok :: "'a ide_scheme \<Rightarrow> bool" where
  "drive_ok s \<longleftrightarrow> (\<forall>t. \<exists>u \<ge> t. is_ready (status s u))
     \<and> (\<forall>t. is_ready (status s t) \<longrightarrow> status s t AND (IDE_DF OR IDE_ERR) = 0)"

lemma ide_poll_ready: "\<exists>u \<ge> t. is_ready (st u) \<Longrightarrow> \<exists>v. ide_poll st t = Some v \<and> is_ready (st v)"
proof -
  assume "\<exists>u \<ge> t. is_ready (st u)"
  then obtain k where "is_ready (st (t + k))"
    using le_Suc_ex by blast
  then show ?thesis
  proof (induction k arbitrary: t)
    case 0
    then show ?case
      by (subst ide_poll.simps) simp
  next
    case (Suc k)
    then show ?case
      using Suc.IH [of "t + 1"] by (subst ide_poll.simps) simp
  qed
qed

lemma wait_ready_ok:
  assumes "drive_ok s"
  obtains t where "ide_wait_ready chk s = Ok 0 (s\<lparr>clock := t\<rparr>)"
  using assms ide_poll_ready [of "clock s" "status s"] that by (auto simp: drive_ok_def ide_wait_ready_def)

lemma drive_ok_cong [simp]: "drive_ok (s\<lparr>clock := t\<rparr>) = drive_ok s" "drive_ok (put_sector sec d s) = drive_ok s"
  by (simp_all add: drive_ok_def put_sector_def)

lemma read_loop_ok:
  assumes "drive_ok s"
  shows "\<exists>t. ide_read_loop n sec s = Ok (0, map (\<lambda>k. drive s (diskno s) (sec + k)) [0..<n]) (s\<lparr>clock := t\<rparr>)"
  using assms
proof (induction n arbitrary: sec s)
  case 0
  have "s = s\<lparr>clock := clock s\<rparr>"
    by simp
  then show ?case
    by (auto intro!: exI [of _ "clock s"])
next
  case (Suc n)
  obtain t where t: "ide_wait_ready True s = Ok 0 (s\<lparr>clock := t\<rparr>)"
    by (rule wait_ready_ok [OF Suc.prems])
  obtain t' where "ide_read_loop n (sec + 1) (s\<lparr>clock := t\<rparr>) =
      Ok (0, map (\<lambda>k. drive s (diskno s) (sec + 1 + k)) [0..<n]) (s\<lparr>clock := t'\<rparr>)"
    using Suc.IH [of "s\<lparr>clock := t\<rparr>" "sec + 1"] Suc.prems by auto
  then have "ide_read_loop (Suc n) sec s =
      Ok (0, drive s (diskno s) sec # map (\<lambda>k. drive s (diskno s) (sec + 1 + k)) [0..<n]) (s\<lparr>clock := t'\<rparr>)"
    by (simp add: t)
  moreover have "drive s (diskno s) sec # map (\<lambda>k. drive s (diskno s) (sec + 1 + k)) [0..<n] =
      map (\<lambda>k. drive s (diskno s) (sec + k)) [0..<Suc n]"
    by (simp only: map_upt_Suc) simp
  ultimately show ?case
    by metis
qed

definition put_range :: "nat \<Rightarrow> 'b list \<Rightarrow> (nat \<Rightarrow> 'b) \<Rightarrow> nat \<Rightarrow> 'b" where
  "put_range sec ds f = (\<lambda>k. if sec \<le> k \<and> k < sec + length ds then ds ! (k - sec) else f k)"

definition write_sectors :: "nat \<Rightarrow> sector list \<Rightarrow> 'a ide_scheme \<Rightarrow> 'a ide_scheme" where
  "write_sectors sec ds s = s\<lparr>drive := (drive s)(diskno s := put_range sec ds (drive s (diskno s)))\<rparr>"

lemma put_range_simps:
  "put_range sec [] f = f" "put_range (Suc sec) ds (f(sec := d)) = put_range sec (d # ds) f"
  by (auto simp: put_range_def fun_eq_iff nth_Cons' Suc_le_eq)

lemma write_sectors_Cons: "write_sectors (sec + 1) ds (put_sector sec d s) = write_sectors sec (d # ds) s"
  by (simp add: write_sectors_def put_sector_def put_range_simps)

lemma write_loop_ok:
  assumes "drive_ok s"
  shows "\<exists>t. ide_write_loop ds sec s = Ok 0 ((write_sectors sec ds s)\<lparr>clock := t\<rparr>)"
  using assms
proof (induction ds arbitrary: sec s)
  case Nil
  have "s = (write_sectors sec [] s)\<lparr>clock := clock s\<rparr>"
    by (simp add: write_sectors_def put_range_simps)
  then show ?case
    by (auto intro!: exI [of _ "clock s"])
next
  case (Cons d ds)
  obtain t where t: "ide_wait_ready True s = Ok 0 (s\<lparr>clock := t\<rparr>)"
    by (rule wait_ready_ok [OF Cons.prems])
  obtain t' where "ide_write_loop ds (sec + 1) (put_sector sec d (s\<lparr>clock := t\<rparr>)) =
      Ok 0 ((write_sectors (sec + 1) ds (put_sector sec d (s\<lparr>clock := t\<rparr>)))\<lparr>clock := t'\<rparr>)"
    using Cons.IH [of "put_sector sec d (s\<lparr>clock := t\<rparr>)" "sec + 1"] Cons.prems by auto
  moreover have "(write_sectors (sec + 1) ds (put_sector sec d (s\<lparr>clock := t\<rparr>)))\<lparr>clock := t'\<rparr> = (write_sectors sec (d # ds) s)\<lparr>clock := t'\<rparr>"
    unfolding write_sectors_Cons by (simp add: write_sectors_def)
  ultimately show ?case
    by (auto simp: t)
qed

lemma lba_small: "unat secno < 2 ^ 28 \<Longrightarrow> lba secno = unat secno"
proof -
  assume small: "unat secno < 2 ^ 28"
  have "(secno AND 0xFF) OR push_bit 8 (drop_bit 8 secno AND 0xFF) OR push_bit 16 (drop_bit 16 secno AND 0xFF)
      OR push_bit 24 (drop_bit 24 secno AND 0x0F) = take_bit 28 secno"
  proof (rule bit_word_eqI)
    fix n
    assume n: "n < LENGTH(32)"
    have m: "(0xFF :: u32) = mask 8" "(0x0F :: u32) = mask 4"
      by (simp_all add: mask_eq_exp_minus_1)
    consider "n < 8" | "8 \<le> n" "n < 16" | "16 \<le> n" "n < 24" | "24 \<le> n" "n < 32"
      using n by force
    then show "bit ((secno AND 0xFF) OR push_bit 8 (drop_bit 8 secno AND 0xFF) OR push_bit 16 (drop_bit 16 secno AND 0xFF)
      OR push_bit 24 (drop_bit 24 secno AND 0x0F)) n = bit (take_bit 28 secno) n"
      unfolding m by cases (auto simp: bit_or_iff bit_and_iff bit_push_bit_iff bit_drop_bit_eq bit_mask_iff bit_take_bit_iff)
  qed
  moreover have "take_bit 28 secno = secno"
    using small by (simp add: word_unat_eq_iff unat_take_bit)
  ultimately show ?thesis
    unfolding lba_def by simp
qed

lemma ide_read_ok:
  assumes "drive_ok s" and "n \<le> 256" and "unat secno < 2 ^ 28"
  shows "\<exists>t. ide_read secno n s = Ok (0, map (\<lambda>k. drive s (diskno s) (unat secno + k)) [0..<n]) (s\<lparr>clock := t\<rparr>)"
proof -
  obtain t where t: "ide_wait_ready False s = Ok 0 (s\<lparr>clock := t\<rparr>)"
    by (rule wait_ready_ok [OF assms(1)])
  then show ?thesis
    using assms read_loop_ok [of "s\<lparr>clock := t\<rparr>" n "unat secno"] by (auto simp: ide_read_def lba_small)
qed

lemma ide_write_ok:
  assumes "drive_ok s" and "length ds \<le> 256" and "unat secno < 2 ^ 28"
  shows "\<exists>t. ide_write secno ds s = Ok 0 ((write_sectors (unat secno) ds s)\<lparr>clock := t\<rparr>)"
proof -
  obtain t where t: "ide_wait_ready False s = Ok 0 (s\<lparr>clock := t\<rparr>)"
    by (rule wait_ready_ok [OF assms(1)])
  then show ?thesis
    using assms write_loop_ok [of "s\<lparr>clock := t\<rparr>" ds "unat secno"] by (auto simp: ide_write_def lba_small write_sectors_def)
qed

end
