(* ===== verification/Fs.thy ===== *)
theory Fs
  imports Ide Kstate "HOL-Library.Signed_Division"
begin

text \<open>
  The file system of the file server, \<^verbatim>\<open>fs/fs.c\<close>: the block cache over the disk driver, the free block bitmap, the block
  map of files, directories and path names.

  Memory is the part of the server's address space from \<^verbatim>\<open>DISKMAP\<close>, where block \<open>n\<close> of the disk appears when it is
  cached: \<open>blk n i\<close> is word \<open>i\<close> of block \<open>n\<close>, \<open>mapped\<close> and \<open>dirty\<close> are the bits of its page table entry that
  \<^verbatim>\<open>va_is_mapped\<close> and \<^verbatim>\<open>va_is_dirty\<close> read. An access to a block that is not mapped faults, and a store sets the dirty bit, as
  the processor does. The superblock pointer, when it is set, points to block 1, and the bitmap to block 2. A
  \<^verbatim>\<open>struct File *\<close> is the pair of a block and the word where the structure starts. The answer of the kernel to the
  \<open>n\<close>-th request for a page is \<open>grant n\<close>: the page or \<^verbatim>\<open>-E_NO_MEM\<close>.
\<close>

section \<open>Layout\<close>

definition BLKSIZE :: nat where [const_defs]: "BLKSIZE = 4096"
definition BLKBITSIZE :: u32 where [const_defs]: "BLKBITSIZE = 32768"
definition BLKSECTS :: nat where [const_defs]: "BLKSECTS = 8"
definition MAXNAMELEN :: nat where [const_defs]: "MAXNAMELEN = 128"
definition MAXPATHLEN :: nat where [const_defs]: "MAXPATHLEN = 1024"
definition NDIRECT :: nat where [const_defs]: "NDIRECT = 10"
definition NINDIRECT :: nat where [const_defs]: "NINDIRECT = 1024"
definition BLKFILES :: nat where [const_defs]: "BLKFILES = 16"
definition FTYPE_REG :: u32 where [const_defs]: "FTYPE_REG = 0"
definition FTYPE_DIR :: u32 where [const_defs]: "FTYPE_DIR = 1"
definition FS_MAGIC :: u32 where [const_defs]: "FS_MAGIC = 0x4A0530AE"
definition DISKMAP :: u32 where [const_defs]: "DISKMAP = 0x10000000"
definition DISKSIZE :: u32 where [const_defs]: "DISKSIZE = 0xC0000000"

record fs = ide +
  blk :: "nat \<Rightarrow> nat \<Rightarrow> u32"
  mapped :: "nat \<Rightarrow> bool"
  dirty :: "nat \<Rightarrow> bool"
  super :: bool
  bitmap :: bool
  grant :: "nat \<Rightarrow> bool"
  asked :: nat

type_synonym fptr = "nat \<times> nat"

text \<open>The fields of \<^verbatim>\<open>struct File\<close>, in words from its start, and of \<^verbatim>\<open>struct Super\<close> in block 1.\<close>

definition f_size :: nat where [const_defs]: "f_size = 32"
definition f_type :: nat where [const_defs]: "f_type = 33"
definition f_direct :: nat where [const_defs]: "f_direct = 34"
definition f_indirect :: nat where [const_defs]: "f_indirect = 44"
definition f_dir :: nat where [const_defs]: "f_dir = 45"
definition s_magic :: nat where [const_defs]: "s_magic = 0"
definition s_nblocks :: nat where [const_defs]: "s_nblocks = 1"
definition s_root :: fptr where [const_defs]: "s_root = (1, 2)"

section \<open>Memory accesses\<close>

definition ldw :: "nat \<Rightarrow> nat \<Rightarrow> fs \<Rightarrow> (u32, fs) kres" where
  "ldw b i s = (if mapped s b then Ok (blk s b i) s else Panic ''page fault'')"

definition stw :: "nat \<Rightarrow> nat \<Rightarrow> u32 \<Rightarrow> fs \<Rightarrow> (unit, fs) kres" where
  "stw b i w s =
     (if mapped s b then Ok () (s\<lparr>blk := (blk s)(b := (blk s b)(i := w)), dirty := (dirty s)(b := True)\<rparr>)
      else Panic ''page fault'')"

definition fld :: "fptr \<Rightarrow> nat \<Rightarrow> fs \<Rightarrow> (u32, fs) kres" where
  "fld f k = ldw (fst f) (snd f + k)"

definition fst_word :: "fptr \<Rightarrow> nat \<Rightarrow> u32 \<Rightarrow> fs \<Rightarrow> (unit, fs) kres" where
  "fst_word f k = stw (fst f) (snd f + k)"

text \<open>Word \<open>k\<close> of the bitmap, whose blocks follow each other in memory from block 2.\<close>

definition bitmap_ld :: "nat \<Rightarrow> fs \<Rightarrow> (u32, fs) kres" where
  "bitmap_ld k = ldw (2 + k div 1024) (k mod 1024)"

definition bitmap_st :: "nat \<Rightarrow> u32 \<Rightarrow> fs \<Rightarrow> (unit, fs) kres" where
  "bitmap_st k = stw (2 + k div 1024) (k mod 1024)"

text \<open>A pointer to a file structure as the word stored in \<^verbatim>\<open>f_dir\<close>.\<close>

definition faddr :: "fptr \<Rightarrow> u32" where
  "faddr f = DISKMAP + of_nat (fst f) * of_nat BLKSIZE + of_nat (4 * snd f)"

definition fptr_of :: "u32 \<Rightarrow> fptr" where
  "fptr_of a = (unat (a - DISKMAP) div BLKSIZE, unat (a - DISKMAP) mod BLKSIZE div 4)"

section \<open>The block cache\<close>

definition bad_block :: "u32 \<Rightarrow> fs \<Rightarrow> (bool, fs) kres" where
  "bad_block b s = (if super s then kbind (ldw 1 s_nblocks s) (\<lambda>n s. Ok (b \<ge> n) s) else Ok False s)"

text \<open>The address of a block is represented by its number.\<close>

definition diskaddr :: "u32 \<Rightarrow> fs \<Rightarrow> (nat, fs) kres" where
  "diskaddr b s = kbind (bad_block b s) (\<lambda>bad s. if bad then Panic ''bad block number in diskaddr'' else Ok (unat b) s)"

definition block_is_mapped :: "u32 \<Rightarrow> fs \<Rightarrow> (bool, fs) kres" where
  "block_is_mapped b s = kbind (diskaddr b s) (\<lambda>a s. Ok (mapped s a) s)"

definition block_is_dirty :: "u32 \<Rightarrow> fs \<Rightarrow> (bool, fs) kres" where
  "block_is_dirty b s = kbind (diskaddr b s) (\<lambda>a s. Ok (mapped s a \<and> dirty s a) s)"

text \<open>
  The effect of \<^verbatim>\<open>sys_page_alloc\<close> at the address of a block: a zeroed clean page or an error; and of
  \<^verbatim>\<open>sys_page_map\<close> of a page onto itself, which rewrites the page table entry without the dirty bit.
\<close>

definition alloc_page_at :: "nat \<Rightarrow> fs \<Rightarrow> (int, fs) kres" where
  "alloc_page_at a s =
     (let ok = grant s (asked s); s = s\<lparr>asked := asked s + 1\<rparr>
      in if ok then Ok 0 (s\<lparr>blk := (blk s)(a := (\<lambda>_. 0)), mapped := (mapped s)(a := True), dirty := (dirty s)(a := False)\<rparr>)
         else Ok (- E_NO_MEM) s)"

definition remap_clean :: "nat \<Rightarrow> fs \<Rightarrow> fs" where
  "remap_clean a s = s\<lparr>dirty := (dirty s)(a := False)\<rparr>"

definition map_block :: "u32 \<Rightarrow> fs \<Rightarrow> (int, fs) kres" where
  "map_block b s =
     kbind (block_is_mapped b s) (\<lambda>m s.
     if m then Ok 0 s else kbind (diskaddr b s) (\<lambda>a s. alloc_page_at a s))"

definition block_is_free :: "u32 \<Rightarrow> fs \<Rightarrow> (bool, fs) kres" where
  "block_is_free b s =
     (if \<not> super s then Ok False s
      else kbind (ldw 1 s_nblocks s) (\<lambda>n s.
        if b \<ge> n then Ok False s
        else kbind (bitmap_ld (unat b div 32) s) (\<lambda>w s. Ok (bit w (unat b mod 32)) s)))"

text \<open>The words of the sectors read, stored at the start of the block, and the sectors of a block.\<close>

definition store_sectors :: "nat \<Rightarrow> sector list \<Rightarrow> fs \<Rightarrow> fs" where
  "store_sectors a ds s =
     (if ds = [] then s
      else s\<lparr>blk := (blk s)(a := (\<lambda>i. if i div 128 < length ds then (ds ! (i div 128)) (i mod 128) else blk s a i)),
             dirty := (dirty s)(a := True)\<rparr>)"

definition sectors_of :: "nat \<Rightarrow> fs \<Rightarrow> sector list" where
  "sectors_of a s = map (\<lambda>k i. blk s a (128 * k + i)) [0..<BLKSECTS]"

definition read_block :: "u32 \<Rightarrow> fs \<Rightarrow> (int \<times> nat, fs) kres" where
  "read_block b s =
     kbind (bad_block b s) (\<lambda>bad s.
     if bad then Panic ''reading non-existent block'' else
     kbind (if bitmap s then block_is_free b s else Ok False s) (\<lambda>free s.
     if free then Panic ''reading free block'' else
     kbind (diskaddr b s) (\<lambda>a s.
     kbind (block_is_mapped b s) (\<lambda>m s.
     if m then Ok (0, a) s else
     kbind (alloc_page_at a s) (\<lambda>r s.
     if r < 0 then Ok (r, a) s else
     kbind (ide_read (b * of_nat BLKSECTS) BLKSECTS s) (\<lambda>(r, ds) s.
     let s = store_sectors a ds s
     in if r < 0 then Ok (r, a) s else Ok (0, a) (remap_clean a s)))))))"

definition write_block :: "u32 \<Rightarrow> fs \<Rightarrow> (unit, fs) kres" where
  "write_block b s =
     kbind (block_is_mapped b s) (\<lambda>m s.
     if \<not> m then Panic ''write unmapped block'' else
     kbind (diskaddr b s) (\<lambda>a s.
     kbind (ide_write (b * of_nat BLKSECTS) (sectors_of a s) s) (\<lambda>r s.
     if r < 0 then Panic ''ATA write error'' else Ok () (remap_clean a s))))"

definition unmap_block :: "u32 \<Rightarrow> fs \<Rightarrow> (unit, fs) kres" where
  "unmap_block b s =
     kbind (block_is_mapped b s) (\<lambda>m s.
     if \<not> m then Ok () s else
     kbind (block_is_free b s) (\<lambda>free s.
     kbind (if free then Ok True s else kbind (block_is_dirty b s) (\<lambda>d s. Ok (\<not> d) s)) (\<lambda>ok s.
     kbind (kassert ok ''assertion failed: block_is_free(blockno) || !block_is_dirty(blockno)'' s) (\<lambda>_ s.
     kbind (diskaddr b s) (\<lambda>a s.
     let s = s\<lparr>mapped := (mapped s)(a := False)\<rparr>
     in kbind (block_is_mapped b s) (\<lambda>m s. kassert (\<not> m) ''assertion failed: !block_is_mapped(blockno)'' s))))))"

section \<open>The bitmap\<close>

definition free_block :: "u32 \<Rightarrow> fs \<Rightarrow> (unit, fs) kres" where
  "free_block b s =
     (if b = 0 then Panic ''attempt to free zero block''
      else kbind (bitmap_ld (unat b div 32) s) (\<lambda>w s. bitmap_st (unat b div 32) (set_bit (unat b mod 32) w) s))"

text \<open>The search for a word of the bitmap with a bit set, and for the lowest bit in it; no bit would be 32.\<close>

fun find_word :: "nat list \<Rightarrow> fs \<Rightarrow> (nat option, fs) kres" where
  "find_word [] s = Ok None s"
| "find_word (i # is) s = kbind (bitmap_ld i s) (\<lambda>w s. if w = 0 then find_word is s else Ok (Some i) s)"

fun find_bit :: "nat list \<Rightarrow> u32 \<Rightarrow> nat" where
  "find_bit [] w = 32"
| "find_bit (j # js) w = (if bit w j then j else find_bit js w)"

definition alloc_block_num :: "fs \<Rightarrow> (int, fs) kres" where
  "alloc_block_num s =
     kbind (ldw 1 s_nblocks s) (\<lambda>n s.
     kbind (find_word [0..<unat n div 32] s) (\<lambda>found s.
     case found of None \<Rightarrow> Ok (- E_NO_DISK) s
     | Some i \<Rightarrow>
         kbind (bitmap_ld i s) (\<lambda>w s.
         let j = find_bit [0..<32] w
         in kbind (bitmap_st i (unset_bit j w) s) (\<lambda>_ s. Ok (int (i * 32 + j)) s))))"

definition alloc_block :: "fs \<Rightarrow> (int, fs) kres" where
  "alloc_block s =
     kbind (alloc_block_num s) (\<lambda>bno s.
     if bno < 0 then Ok bno s else
     kbind (map_block (of_int bno) s) (\<lambda>r s.
     if r < 0 then kbind (free_block (of_int bno) s) (\<lambda>_ s. Ok r s)
     else kbind (write_block (2 + of_int bno div BLKBITSIZE) s) (\<lambda>_ s. Ok bno s)))"

section \<open>Mounting\<close>

definition read_super :: "fs \<Rightarrow> (unit, fs) kres" where
  "read_super s =
     kbind (read_block 1 s) (\<lambda>(r, a) s.
     if r < 0 then Panic ''cannot read superblock'' else
     let s = s\<lparr>super := True\<rparr>
     in kbind (ldw 1 s_magic s) (\<lambda>m s.
        if m \<noteq> FS_MAGIC then Panic ''bad file system magic number'' else
        kbind (ldw 1 s_nblocks s) (\<lambda>n s.
        if n > DISKSIZE div of_nat BLKSIZE then Panic ''file system is too large'' else Ok () s)))"

definition read_bitmap_block :: "nat \<Rightarrow> fs \<Rightarrow> (unit, fs) kres" where
  "read_bitmap_block i s =
     kbind (read_block (2 + of_nat i) s) (\<lambda>(r, a) s.
     if r < 0 then Panic ''cannot read bitmap block'' else
     let s = (if i = 0 then s\<lparr>bitmap := True\<rparr> else s)
     in kbind (block_is_free (2 + of_nat i) s) (\<lambda>free s.
        kassert (\<not> free) ''assertion failed: !block_is_free(2+i)'' s))"

text \<open>\<^verbatim>\<open>i * BLKBITSIZE < super->s_nblocks\<close> holds for as many \<open>i\<close> as the bitmap has blocks.\<close>

definition read_bitmap :: "fs \<Rightarrow> (unit, fs) kres" where
  "read_bitmap s =
     kbind (ldw 1 s_nblocks s) (\<lambda>n s.
     kbind (kfor [0..<(unat n + unat BLKBITSIZE - 1) div unat BLKBITSIZE] read_bitmap_block s) (\<lambda>_ s.
     kbind (block_is_free 0 s) (\<lambda>free0 s.
     kbind (kassert (\<not> free0) ''assertion failed: !block_is_free(0)'' s) (\<lambda>_ s.
     kbind (block_is_free 1 s) (\<lambda>free1 s.
     kbind (kassert (\<not> free1) ''assertion failed: !block_is_free(1)'' s) (\<lambda>_ s.
     kassert (bitmap s) ''assertion failed: bitmap'' s))))))"

definition fs_init :: "fs \<Rightarrow> (unit, fs) kres" where
  "fs_init s =
     kbind (ide_probe_disk1 s) (\<lambda>present s.
     kbind (ide_set_disk (if present then 1 else 0) s) (\<lambda>_ s.
     kbind (read_super s) (\<lambda>_ s. read_bitmap s)))"

section \<open>The blocks of a file\<close>

text \<open>
  \<^verbatim>\<open>file_block_walk\<close> returns its result and, when it has set \<^verbatim>\<open>*ppdiskbno\<close>, the slot it points to. The assignment
  \<^verbatim>\<open>f->f_indirect = r = alloc_block()\<close> has the unsigned type of the field, so the test \<^verbatim>\<open>< 0\<close> on it never succeeds;
  and a failure to read the indirect block is reported as success without a slot.
\<close>

definition file_block_walk :: "fptr \<Rightarrow> u32 \<Rightarrow> bool \<Rightarrow> fs \<Rightarrow> (int \<times> (nat \<times> nat) option, fs) kres" where
  "file_block_walk f filebno alloc s =
     (if unat filebno < NDIRECT then Ok (0, Some (fst f, snd f + f_direct + unat filebno)) s
      else if unat filebno < NINDIRECT then
        kbind (fld f f_indirect s) (\<lambda>ind s.
        if ind = 0 then
          if \<not> alloc then Ok (- E_NOT_FOUND, None) s
          else
            kbind (alloc_block s) (\<lambda>r s.
            kbind (fst_word f f_indirect (of_int r) s) (\<lambda>_ s.
            kbind (diskaddr (of_int r) s) (\<lambda>ptr s. Ok (0, Some (ptr, unat filebno)) s)))
        else
          kbind (read_block ind s) (\<lambda>(r, ptr) s.
          if r < 0 then Ok (0, None) s else Ok (0, Some (ptr, unat filebno)) s))
      else Ok (- E_INVAL, None) s)"

definition the_slot :: "(nat \<times> nat) option \<Rightarrow> fs \<Rightarrow> (nat \<times> nat, fs) kres" where
  "the_slot p s = (case p of None \<Rightarrow> Panic ''uninitialised pointer'' | Some p \<Rightarrow> Ok p s)"

definition file_map_block :: "fptr \<Rightarrow> u32 \<Rightarrow> bool \<Rightarrow> fs \<Rightarrow> (int \<times> u32, fs) kres" where
  "file_map_block f filebno alloc s =
     kbind (file_block_walk f filebno alloc s) (\<lambda>(r, p) s.
     if r < 0 then Ok (r, 0) s else
     kbind (the_slot p s) (\<lambda>(b, i) s.
     kbind (ldw b i s) (\<lambda>w s.
     if w = 0 then
       if \<not> alloc then Ok (- E_NOT_FOUND, 0) s
       else
         kbind (alloc_block s) (\<lambda>r s.
         if r < 0 then Ok (r, 0) s else
         kbind (stw b i (of_int r) s) (\<lambda>_ s.
         kbind (ldw b i s) (\<lambda>w s. Ok (0, w) s)))
     else Ok (0, w) s)))"

definition file_clear_block :: "fptr \<Rightarrow> u32 \<Rightarrow> fs \<Rightarrow> (int, fs) kres" where
  "file_clear_block f filebno s =
     kbind (file_block_walk f filebno False s) (\<lambda>(r, p) s.
     if r < 0 then Ok r s else
     kbind (the_slot p s) (\<lambda>(b, i) s.
     kbind (ldw b i s) (\<lambda>w s.
     if w \<noteq> 0 then kbind (free_block w s) (\<lambda>_ s. kbind (stw b i 0 s) (\<lambda>_ s. Ok 0 s))
     else Ok 0 s)))"

definition file_get_block :: "fptr \<Rightarrow> u32 \<Rightarrow> fs \<Rightarrow> (int \<times> nat, fs) kres" where
  "file_get_block f filebno s =
     kbind (file_map_block f filebno True s) (\<lambda>(r, diskbno) s.
     if r < 0 then Ok (r, 0) s else read_block diskbno s)"

text \<open>Division of an \<^verbatim>\<open>off_t\<close> by the block size, which rounds towards zero.\<close>

definition off_div :: "u32 \<Rightarrow> u32" where
  "off_div off = of_int (sint off sdiv int BLKSIZE)"

definition file_dirty :: "fptr \<Rightarrow> u32 \<Rightarrow> fs \<Rightarrow> (int, fs) kres" where
  "file_dirty f off s =
     kbind (file_get_block f (off_div off) s) (\<lambda>(r, a) s.
     if r < 0 then Ok r s else
     kbind (ldw a 0 s) (\<lambda>w s. kbind (stw a 0 w s) (\<lambda>_ s. Ok 0 s)))"

section \<open>Directories\<close>

text \<open>Byte \<open>k\<close> of the name of a file, and the comparison of the name with a string.\<close>

definition name_byte :: "(nat \<Rightarrow> u32) \<Rightarrow> nat \<Rightarrow> nat \<Rightarrow> u8" where
  "name_byte ws o' k = ucast (drop_bit (8 * (k mod 4)) (ws (o' + k div 4)))"

definition name_is :: "(nat \<Rightarrow> u32) \<Rightarrow> nat \<Rightarrow> u8 list \<Rightarrow> bool" where
  "name_is ws o' name \<longleftrightarrow>
     list_all (\<lambda>k. name_byte ws o' k = name ! k) [0..<length name] \<and> name_byte ws o' (length name) = 0"

text \<open>The first entry of a directory block that satisfies a test; entry \<open>j\<close> starts at word \<open>64 * j\<close>.\<close>

definition find_entry :: "((nat \<Rightarrow> u32) \<Rightarrow> nat \<Rightarrow> bool) \<Rightarrow> (nat \<Rightarrow> u32) \<Rightarrow> nat option" where
  "find_entry P ws = find (\<lambda>j. P ws (64 * j)) [0..<BLKFILES]"

text \<open>
  The search loop that \<^verbatim>\<open>dir_lookup\<close> and \<^verbatim>\<open>dir_alloc_file\<close> share: over the blocks of the directory and the entries
  of each block. The entry found is linked to its directory.
\<close>

fun dir_scan :: "((nat \<Rightarrow> u32) \<Rightarrow> nat \<Rightarrow> bool) \<Rightarrow> fptr \<Rightarrow> nat list \<Rightarrow> fs \<Rightarrow> (int \<times> fptr option, fs) kres" where
  "dir_scan P dir [] s = Ok (0, None) s"
| "dir_scan P dir (i # is) s =
     kbind (file_get_block dir (of_nat i) s) (\<lambda>(r, a) s.
     if r < 0 then Ok (r, None) s else
     kbind (ldw a 0 s) (\<lambda>_ s.
     case find_entry P (blk s a) of
       Some j \<Rightarrow> kbind (fst_word (a, 64 * j) f_dir (faddr dir) s) (\<lambda>_ s. Ok (0, Some (a, 64 * j)) s)
     | None \<Rightarrow> dir_scan P dir is s))"

text \<open>The number of blocks of a directory, whose size must be a multiple of the block size.\<close>

definition dir_blocks :: "fptr \<Rightarrow> fs \<Rightarrow> (nat, fs) kres" where
  "dir_blocks dir s =
     kbind (fld dir f_size s) (\<lambda>sz s.
     kbind (kassert (sint sz smod int BLKSIZE = 0) ''assertion failed: (dir->f_size % BLKSIZE) == 0'' s) (\<lambda>_ s.
     Ok (unat (off_div sz)) s))"

definition dir_lookup :: "fptr \<Rightarrow> u8 list \<Rightarrow> fs \<Rightarrow> (int \<times> fptr option, fs) kres" where
  "dir_lookup dir name s =
     kbind (dir_blocks dir s) (\<lambda>nblock s.
     kbind (dir_scan (\<lambda>ws o'. name_is ws o' name) dir [0..<nblock] s) (\<lambda>(r, f) s.
     if r < 0 then Ok (r, None) s
     else case f of None \<Rightarrow> Ok (- E_NOT_FOUND, None) s | Some f \<Rightarrow> Ok (0, Some f) s))"

definition dir_alloc_file :: "fptr \<Rightarrow> fs \<Rightarrow> (int \<times> fptr option, fs) kres" where
  "dir_alloc_file dir s =
     kbind (dir_blocks dir s) (\<lambda>nblock s.
     kbind (dir_scan (\<lambda>ws o'. name_byte ws o' 0 = 0) dir [0..<nblock] s) (\<lambda>(r, f) s.
     if r < 0 then Ok (r, None) s
     else case f of Some f \<Rightarrow> Ok (0, Some f) s
     | None \<Rightarrow>
         kbind (fld dir f_size s) (\<lambda>sz s.
         kbind (fst_word dir f_size (sz + of_nat BLKSIZE) s) (\<lambda>_ s.
         kbind (file_get_block dir (of_nat nblock) s) (\<lambda>(r, a) s.
         if r < 0 then Ok (r, None) s
         else kbind (fst_word (a, 0) f_dir (faddr dir) s) (\<lambda>_ s. Ok (0, Some (a, 0)) s))))))"

section \<open>Path names\<close>

definition slash :: u8 where [const_defs]: "slash = 0x2F"

definition skip_slash :: "u8 list \<Rightarrow> u8 list" where
  "skip_slash p = dropWhile (\<lambda>c. c = slash) p"

text \<open>
  The loop of \<^verbatim>\<open>walk_path\<close>, from the current file and path. The result is the return value, \<^verbatim>\<open>*pdir\<close>, \<^verbatim>\<open>*pf\<close> and
  \<^verbatim>\<open>lastelem\<close>, the last two where they are set.
\<close>

function walk_loop :: "u8 list \<Rightarrow> fptr option \<Rightarrow> fptr \<Rightarrow> fs \<Rightarrow> (int \<times> fptr option \<times> fptr option \<times> u8 list, fs) kres" where
  "walk_loop path dir f s =
     (if path = [] then Ok (0, dir, Some f, []) s
      else
        let name = takeWhile (\<lambda>c. c \<noteq> slash) path; path = skip_slash (dropWhile (\<lambda>c. c \<noteq> slash) path)
        in if length name \<ge> MAXNAMELEN then Ok (- E_BAD_PATH, None, None, []) s
           else
             kbind (fld f f_type s) (\<lambda>ty s.
             if ty \<noteq> FTYPE_DIR then Ok (- E_NOT_FOUND, None, None, []) s else
             kbind (dir_lookup f name s) (\<lambda>(r, g) s.
             if r < 0 then Ok (if r = - E_NOT_FOUND \<and> path = [] then (r, Some f, None, name) else (r, None, None, [])) s
             else case g of None \<Rightarrow> Ok (r, None, None, []) s
             | Some g \<Rightarrow> walk_loop path (Some f) g s)))"
  by pat_completeness auto

termination
proof (relation "measure (\<lambda>(path, dir, f, s). length path)")
  fix path :: "u8 list" and name and path' :: "u8 list" and dir :: "fptr option" and f g :: fptr and s s' :: fs
  assume name: "name = takeWhile (\<lambda>c. c \<noteq> slash) path" and path': "path' = skip_slash (dropWhile (\<lambda>c. c \<noteq> slash) path)"
    and "path \<noteq> []"
  then obtain c cs where path: "path = c # cs"
    by (cases path) auto
  have "length path' \<le> length (dropWhile (\<lambda>c. c \<noteq> slash) cs)" if "c \<noteq> slash"
    using that unfolding path' path skip_slash_def by (simp add: length_dropWhile_le)
  moreover have "length path' \<le> length cs" if "c = slash"
    using that unfolding path' path skip_slash_def by (simp add: length_dropWhile_le)
  ultimately have "length path' < length path"
    using length_dropWhile_le [of "\<lambda>c. c \<noteq> slash" cs] path by (cases "c = slash") auto
  then show "((path', Some f, g, s'), (path, dir, f, s)) \<in> measure (\<lambda>(path, dir, f, s). length path)"
    by simp
qed simp

declare walk_loop.simps [simp del]

definition walk_path :: "u8 list \<Rightarrow> fs \<Rightarrow> (int \<times> fptr option \<times> fptr option \<times> u8 list, fs) kres" where
  "walk_path path s = walk_loop (skip_slash path) None s_root s"

text \<open>\<^verbatim>\<open>strcpy\<close> into the name of a file: the bytes of the string and the terminator.\<close>

definition put_byte :: "nat \<Rightarrow> u8 \<Rightarrow> u32 \<Rightarrow> u32" where
  "put_byte k c w = (w AND NOT (push_bit (8 * k) 0xFF)) OR push_bit (8 * k) (ucast c)"

fun put_name :: "fptr \<Rightarrow> nat \<Rightarrow> u8 list \<Rightarrow> fs \<Rightarrow> (unit, fs) kres" where
  "put_name f k [] s = kbind (fld f (k div 4) s) (\<lambda>w s. fst_word f (k div 4) (put_byte (k mod 4) 0 w) s)"
| "put_name f k (c # cs) s =
     kbind (fld f (k div 4) s) (\<lambda>w s. kbind (fst_word f (k div 4) (put_byte (k mod 4) c w) s) (\<lambda>_ s. put_name f (k + 1) cs s))"

definition file_create :: "u8 list \<Rightarrow> fs \<Rightarrow> (int \<times> fptr option, fs) kres" where
  "file_create path s =
     kbind (walk_path path s) (\<lambda>(r, dir, f, name) s.
     if r = 0 then Ok (- E_FILE_EXISTS, None) s
     else case dir of None \<Rightarrow> Ok (r, None) s
     | Some dir \<Rightarrow>
         if r \<noteq> - E_NOT_FOUND then Ok (r, None) s else
         kbind (dir_alloc_file dir s) (\<lambda>(r', f) s.
         if r' < 0 then Ok (r, None) s
         else case f of None \<Rightarrow> Ok (r, None) s
         | Some f \<Rightarrow> kbind (put_name f 0 name s) (\<lambda>_ s. Ok (0, Some f) s)))"

definition file_open :: "u8 list \<Rightarrow> fs \<Rightarrow> (int \<times> fptr option, fs) kres" where
  "file_open path s = kbind (walk_path path s) (\<lambda>(r, _, f, _) s. Ok (r, f) s)"

section \<open>Size, flushing and removal\<close>

text \<open>\<^verbatim>\<open>(size + BLKSIZE - 1) / BLKSIZE\<close> for a signed size.\<close>

definition size_blocks :: "u32 \<Rightarrow> u32" where
  "size_blocks sz = off_div (sz + of_nat BLKSIZE - 1)"

definition file_truncate_blocks :: "fptr \<Rightarrow> u32 \<Rightarrow> fs \<Rightarrow> (unit, fs) kres" where
  "file_truncate_blocks f newsize s =
     kbind (fld f f_size s) (\<lambda>sz s.
     kbind (kfor [unat (size_blocks newsize)..<unat (size_blocks sz)]
              (\<lambda>bno s. kbind (file_clear_block f (of_nat bno) s) (\<lambda>_ s. Ok () s)) s) (\<lambda>_ s.
     if unat (size_blocks newsize) \<le> NDIRECT then
       kbind (fld f f_indirect s) (\<lambda>ind s.
       if ind \<noteq> 0 then kbind (free_block ind s) (\<lambda>_ s. fst_word f f_indirect 0 s) else Ok () s)
     else Ok () s))"

definition file_flush :: "fptr \<Rightarrow> fs \<Rightarrow> (unit, fs) kres" where
  "file_flush f s =
     kbind (fld f f_size s) (\<lambda>sz s.
     kfor [0..<nat (sint (size_blocks sz))] (\<lambda>i s.
       kbind (file_map_block f (of_nat i) False s) (\<lambda>(r, diskbno) s.
       if r < 0 then Ok () s else
       kbind (block_is_dirty diskbno s) (\<lambda>d s. if d then write_block diskbno s else Ok () s))) s)"

text \<open>Flushing the directory of a file, if it has one.\<close>

definition flush_dir :: "fptr \<Rightarrow> fs \<Rightarrow> (unit, fs) kres" where
  "flush_dir f s = kbind (fld f f_dir s) (\<lambda>d s. if d \<noteq> 0 then file_flush (fptr_of d) s else Ok () s)"

definition file_set_size :: "fptr \<Rightarrow> u32 \<Rightarrow> fs \<Rightarrow> (int, fs) kres" where
  "file_set_size f newsize s =
     kbind (fld f f_size s) (\<lambda>sz s.
     kbind (if sint sz > sint newsize then file_truncate_blocks f newsize s else Ok () s) (\<lambda>_ s.
     kbind (fst_word f f_size newsize s) (\<lambda>_ s.
     kbind (flush_dir f s) (\<lambda>_ s. Ok 0 s))))"

definition fs_sync :: "fs \<Rightarrow> (unit, fs) kres" where
  "fs_sync s =
     kbind (ldw 1 s_nblocks s) (\<lambda>n s.
     kfor [0..<unat n] (\<lambda>i s.
       kbind (block_is_dirty (of_nat i) s) (\<lambda>d s. if d then write_block (of_nat i) s else Ok () s)) s)"

definition file_close :: "fptr \<Rightarrow> fs \<Rightarrow> (unit, fs) kres" where
  "file_close f s = kbind (file_flush f s) (\<lambda>_ s. flush_dir f s)"

definition file_remove :: "u8 list \<Rightarrow> fs \<Rightarrow> (int, fs) kres" where
  "file_remove path s =
     kbind (walk_path path s) (\<lambda>(r, _, f, _) s.
     if r < 0 then Ok r s
     else case f of None \<Rightarrow> Ok r s
     | Some f \<Rightarrow>
         kbind (file_truncate_blocks f 0 s) (\<lambda>_ s.
         kbind (fld f 0 s) (\<lambda>w s.
         kbind (fst_word f 0 (put_byte 0 0 w) s) (\<lambda>_ s.
         kbind (fst_word f f_size 0 s) (\<lambda>_ s.
         kbind (flush_dir f s) (\<lambda>_ s. Ok 0 s))))))"

end
