(* ===== verification/Fs_Props.thy ===== *)
theory Fs_Props
  imports Fs
begin

text \<open>
  Properties of the file system: the cache and the disk agree wherever the cache is clean, and a sync makes them
  agree everywhere; the bitmap allocator hands out the lowest free block and nothing else changes; path names are
  walked component by component.
\<close>

section \<open>A mounted file system\<close>

abbreviation nblocks :: "fs \<Rightarrow> u32" where "nblocks s \<equiv> blk s 1 s_nblocks"

definition nbitmaps :: "fs \<Rightarrow> nat" where
  "nbitmaps s = (unat (nblocks s) + unat BLKBITSIZE - 1) div unat BLKBITSIZE"

text \<open>What \<^verbatim>\<open>fs_init\<close> establishes, on a drive that works.\<close>

definition mounted :: "fs \<Rightarrow> bool" where
  "mounted s \<longleftrightarrow> super s \<and> bitmap s \<and> mapped s 1 \<and> drive_ok s \<and> unat (nblocks s) \<le> 786432
     \<and> 2 + nbitmaps s \<le> unat (nblocks s) \<and> (\<forall>k < nbitmaps s. mapped s (2 + k))"

lemma mountedD:
  assumes "mounted s"
  shows "super s" "bitmap s" "mapped s 1" "drive_ok s" "unat (nblocks s) \<le> 786432" "2 + nbitmaps s \<le> unat (nblocks s)"
    "\<And>k. k < nbitmaps s \<Longrightarrow> mapped s (2 + k)"
  using assms by (simp_all add: mounted_def)

lemma nblocks_read [simp]: "mounted s \<Longrightarrow> ldw 1 s_nblocks s = Ok (nblocks s) s" "mounted s \<Longrightarrow> ldw (Suc 0) s_nblocks s = Ok (nblocks s) s"
  by (simp_all add: ldw_def mounted_def)

lemma bad_block_eq: "mounted s \<Longrightarrow> bad_block b s = Ok (b \<ge> nblocks s) s"
  by (simp add: bad_block_def mountedD(1))

lemma cache_eqs:
  assumes "mounted s" and "b < nblocks s"
  shows "diskaddr b s = Ok (unat b) s" and "block_is_mapped b s = Ok (mapped s (unat b)) s"
    and "block_is_dirty b s = Ok (mapped s (unat b) \<and> dirty s (unat b)) s"
  using assms bad_block_eq [OF assms(1), of b] by (simp_all add: diskaddr_def block_is_mapped_def block_is_dirty_def not_le)

text \<open>Word \<open>i\<close> of block \<open>b\<close> as it is on the disk.\<close>

definition on_disk :: "fs \<Rightarrow> nat \<Rightarrow> nat \<Rightarrow> u32" where
  "on_disk s b i = drive s (diskno s) (8 * b + i div 128) (i mod 128)"

text \<open>Clean blocks of the cache agree with the disk.\<close>

definition coherent :: "fs \<Rightarrow> bool" where
  "coherent s \<longleftrightarrow> (\<forall>b i. b < unat (nblocks s) \<longrightarrow> i < 1024 \<longrightarrow> mapped s b \<longrightarrow> \<not> dirty s b \<longrightarrow> on_disk s b i = blk s b i)"

lemma block_secno:
  assumes "mounted s" and "b < nblocks s"
  shows "unat (b * of_nat BLKSECTS) = 8 * unat b" and "8 * unat b < 2 ^ 28"
proof -
  have b: "unat b < 786432"
    using mountedD(5) [OF assms(1)] assms(2) by (simp add: word_less_nat_alt)
  then show "unat (b * of_nat BLKSECTS) = 8 * unat b" "8 * unat b < 2 ^ 28"
    by (simp_all add: BLKSECTS_def unat_word_ariths)
qed

lemma same_octet: "k < 8 \<Longrightarrow> 8 * u \<le> 8 * c + k \<and> 8 * c + k < 8 * u + 8 \<longleftrightarrow> c = (u :: nat)"
  by (cases c u rule: linorder_cases) auto

text \<open>Writing back one block changes nothing but its copy on the disk and its dirty bit.\<close>

definition written :: "nat \<Rightarrow> fs \<Rightarrow> fs \<Rightarrow> bool" where
  "written b s s' \<longleftrightarrow> (\<exists>t d. s' = s\<lparr>drive := d, clock := t, dirty := (dirty s)(b := False)\<rparr>)
     \<and> (\<forall>c i. i < 1024 \<longrightarrow> on_disk s' c i = (if c = b then blk s b i else on_disk s c i))"

lemma write_block_ok:
  assumes m: "mounted s" and b: "b < nblocks s" "mapped s (unat b)"
  shows "\<exists>s'. write_block b s = Ok () s' \<and> written (unat b) s s'"
proof -
  let ?ds = "sectors_of (unat b) s"
  have len: "length ?ds = 8"
    by (simp add: sectors_of_def BLKSECTS_def)
  obtain t where w: "ide_write (b * of_nat BLKSECTS) ?ds s = Ok 0 ((write_sectors (8 * unat b) ?ds s)\<lparr>clock := t\<rparr>)"
    using ide_write_ok [OF mountedD(4) [OF m], of ?ds "b * of_nat BLKSECTS"] block_secno [OF m b(1)] len by auto
  let ?s' = "remap_clean (unat b) ((write_sectors (8 * unat b) ?ds s)\<lparr>clock := t\<rparr>)"
  have "on_disk ?s' c i = (if c = unat b then blk s (unat b) i else on_disk s c i)" if i: "i < 1024" for c i
  proof -
    have k: "i div 128 < 8"
      using i by (simp add: less_mult_imp_div_less)
    then have range: "8 * unat b \<le> 8 * c + i div 128 \<and> 8 * c + i div 128 < 8 * unat b + 8 \<longleftrightarrow> c = unat b"
      by (rule same_octet)
    have nth: "?ds ! (i div 128) = (\<lambda>j. blk s (unat b) (128 * (i div 128) + j))"
      using k by (simp add: sectors_of_def BLKSECTS_def)
    show ?thesis
      using range by (auto simp: on_disk_def remap_clean_def write_sectors_def put_range_def len nth)
  qed
  moreover have "write_block b s = Ok () ?s'"
    using w b by (simp add: write_block_def cache_eqs [OF m])
  moreover have "\<exists>t d. ?s' = s\<lparr>drive := d, clock := t, dirty := (dirty s)(unat b := False)\<rparr>"
    by (auto simp: remap_clean_def write_sectors_def)
  ultimately show ?thesis
    unfolding written_def by blast
qed

lemma written_frame:
  assumes "written b s s'"
  shows "blk s' = blk s" and "mapped s' = mapped s" and "dirty s' = (dirty s)(b := False)" and "mounted s' = mounted s"
  using assms by (auto simp: written_def mounted_def nbitmaps_def drive_ok_def)

section \<open>Syncing\<close>

text \<open>The state after the first \<open>k\<close> blocks have been visited.\<close>

definition synced :: "nat \<Rightarrow> fs \<Rightarrow> fs \<Rightarrow> bool" where
  "synced k s s' \<longleftrightarrow> blk s' = blk s \<and> mapped s' = mapped s \<and> mounted s'
     \<and> (\<forall>b. mapped s b \<longrightarrow> dirty s' b = (if b < k then False else dirty s b))
     \<and> (\<forall>b i. i < 1024 \<longrightarrow> on_disk s' b i = (if b < k \<and> mapped s b \<and> dirty s b then blk s b i else on_disk s b i))"

lemma synced_step:
  assumes k: "k < unat (nblocks s)" and inv: "synced k s s1"
  shows "returns (\<lambda>_ s'. synced (Suc k) s s') (\<lambda>_. False)
    (kbind (block_is_dirty (of_nat k) s1) (\<lambda>d s. if d then write_block (of_nat k) s else Ok () s))"
proof -
  have s1: "blk s1 = blk s" "mapped s1 = mapped s" "mounted s1"
    using inv by (simp_all add: synced_def)
  have u: "unat (of_nat k :: u32) = k"
    using k unat_u32_less [of "nblocks s"] by (simp add: unat_of_nat)
  then have kn: "(of_nat k :: u32) < nblocks s1"
    using k s1(1) by (simp add: word_less_nat_alt)
  show ?thesis
  proof (cases "mapped s1 k \<and> dirty s1 k")
    case True
    then obtain s' where s': "write_block (of_nat k) s1 = Ok () s'" "written k s1 s'"
      using write_block_ok [OF s1(3) kn] u by auto
    have "synced (Suc k) s s'"
      using inv s'(2) True written_frame [OF s'(2)] unfolding synced_def written_def
      by (auto simp: less_Suc_eq split: if_splits)
    then show ?thesis
      using s'(1) True by (simp add: cache_eqs [OF s1(3) kn] u)
  next
    case False
    then have "synced (Suc k) s s1"
      using inv s1(2) unfolding synced_def by (auto simp: less_Suc_eq split: if_splits)
    then show ?thesis
      using False by (auto simp: cache_eqs [OF s1(3) kn] u)
  qed
qed


section \<open>The bitmap\<close>

text \<open>The bit of block \<open>b\<close>, and the blocks that the allocator can find: those with a complete word of the bitmap.\<close>

definition free_bit :: "fs \<Rightarrow> nat \<Rightarrow> bool" where
  "free_bit s b = bit (blk s (2 + b div 32 div 1024) (b div 32 mod 1024)) (b mod 32)"

definition avail :: "fs \<Rightarrow> nat set" where
  "avail s = {b. b < 32 * (unat (nblocks s) div 32) \<and> free_bit s b}"

lemma bitmap_block_range:
  assumes "mounted s" and "b < unat (nblocks s)"
  shows "b div 32 div 1024 < nbitmaps s"
proof -
  have "b div 32768 \<le> (unat (nblocks s) - 1) div 32768"
    using assms(2) by (intro div_le_mono) simp
  also have "\<dots> < (unat (nblocks s) + 32767) div 32768"
    using assms(2) div_add_self2 [of 32768 "unat (nblocks s) - 1"] by simp
  finally show ?thesis
    by (simp add: nbitmaps_def BLKBITSIZE_def div_mult2_eq [symmetric])
qed

lemma bitmap_mapped:
  assumes "mounted s" and "b < unat (nblocks s)"
  shows "mapped s (2 + b div 32 div 1024)" and "2 + b div 32 div 1024 < unat (nblocks s)"
  using bitmap_block_range [OF assms] mountedD(6,7) [OF assms(1)] by auto

lemma bitmap_ld_ok:
  assumes "mounted s" and "k < unat (nblocks s) div 32"
  shows "bitmap_ld k s = Ok (blk s (2 + k div 1024) (k mod 1024)) s"
proof -
  have "32 * k < unat (nblocks s)"
    using assms(2) by (simp add: mult.commute less_mult_imp_div_less) 
  then show ?thesis
    using bitmap_mapped(1) [OF assms(1), of "32 * k"] by (simp add: bitmap_ld_def ldw_def)
qed

lemma block_is_free_eq:
  assumes "mounted s"
  shows "block_is_free b s = Ok (b < nblocks s \<and> free_bit s (unat b)) s"
proof (cases "b < nblocks s")
  case True
  then have "bitmap_ld (unat b div 32) s = Ok (blk s (2 + unat b div 32 div 1024) (unat b div 32 mod 1024)) s"
    using bitmap_mapped(1) [OF assms, of "unat b"] by (simp add: bitmap_ld_def ldw_def word_less_nat_alt)
  then show ?thesis
    using True assms mountedD(1) [OF assms] by (auto simp: block_is_free_def free_bit_def not_le)
qed (use assms mountedD(1) [OF assms] in \<open>simp add: block_is_free_def not_less\<close>)

lemma find_bit_first:
  assumes "\<exists>j \<in> set js. bit w j"
  shows "find_bit js w \<in> set js \<and> bit w (find_bit js w)"
  using assms by (induction js) auto

lemma find_bit_least:
  assumes "w \<noteq> 0"
  shows "find_bit [0..<32] w < 32 \<and> bit w (find_bit [0..<32] w) \<and> (\<forall>j < find_bit [0..<32] w. \<not> bit w j)"
proof -
  have ex: "\<exists>j \<in> set [0..<32]. bit w j"
    using assms bit_imp_le_length [of w] by (auto simp: bit_eq_iff)
  have "\<forall>j < find_bit [0..<n] w. \<not> bit w j" if "\<exists>j \<in> set [0..<n]. bit w j" for n
    using that
  proof (induction n)
    case (Suc n)
    have app: "find_bit (xs @ ys) w = (if \<exists>j \<in> set xs. bit w j then find_bit xs w else find_bit ys w)" for xs ys
      by (induction xs) auto
    show ?case
    proof (cases "\<exists>j \<in> set [0..<n]. bit w j")
      case True
      then show ?thesis
        using Suc.IH by (simp add: app)
    next
      case False
      then show ?thesis
        using Suc.prems by (auto simp: app less_Suc_eq)
    qed
  qed simp
  then show ?thesis
    using find_bit_first [OF ex] ex by auto
qed

abbreviation bitmap_word :: "fs \<Rightarrow> nat \<Rightarrow> u32" where "bitmap_word s k \<equiv> blk s (2 + k div 1024) (k mod 1024)"

lemma find_word_eq:
  assumes "mounted s" and "\<forall>k \<in> set ks. k < unat (nblocks s) div 32"
  shows "find_word ks s = Ok (find (\<lambda>k. bitmap_word s k \<noteq> 0) ks) s"
  using assms(2) bitmap_ld_ok [OF assms(1)] by (induction ks) simp_all

text \<open>The state after word \<open>k\<close> of the bitmap has been stored.\<close>

definition set_word :: "nat \<Rightarrow> u32 \<Rightarrow> fs \<Rightarrow> fs" where
  "set_word k w s = s\<lparr>blk := (blk s)(2 + k div 1024 := (blk s (2 + k div 1024))(k mod 1024 := w)),
     dirty := (dirty s)(2 + k div 1024 := True)\<rparr>"

lemma bitmap_st_ok:
  assumes "mounted s" and "32 * k < unat (nblocks s)"
  shows "bitmap_st k w s = Ok () (set_word k w s)"
  using bitmap_mapped(1) [OF assms] by (simp add: bitmap_st_def stw_def set_word_def)

lemma set_word_frame:
  shows "nblocks (set_word k w s) = nblocks s" and "mounted (set_word k w s) = mounted s" and "mapped (set_word k w s) = mapped s"
    and "bitmap_word (set_word k w s) j = (if j = k then w else bitmap_word s j)"
    and "b < 2 \<Longrightarrow> blk (set_word k w s) b = blk s b"
proof -
  show nb: "nblocks (set_word k w s) = nblocks s" "mapped (set_word k w s) = mapped s"
    by (simp_all add: set_word_def)
  then show "mounted (set_word k w s) = mounted s"
    by (simp add: mounted_def nbitmaps_def) (simp add: set_word_def drive_ok_def)
  show "bitmap_word (set_word k w s) j = (if j = k then w else bitmap_word s j)"
    using div_mod_eqI [of j 1024 k] by (auto simp: set_word_def)
  show "b < 2 \<Longrightarrow> blk (set_word k w s) b = blk s b"
    by (simp add: set_word_def)
qed

lemma free_bit_word: "free_bit s b = bit (bitmap_word s (b div 32)) (b mod 32)"
  by (simp add: free_bit_def)

lemma free_bit_set_word: "free_bit (set_word k w s) b = (if b div 32 = k then bit w (b mod 32) else free_bit s b)"
  unfolding free_bit_word set_word_frame(4) by simp

lemma avail_empty_iff:
  assumes "mounted s"
  shows "avail s = {} \<longleftrightarrow> (\<forall>k < unat (nblocks s) div 32. bitmap_word s k = 0)"
proof
  assume e: "avail s = {}"
  show "\<forall>k < unat (nblocks s) div 32. bitmap_word s k = 0"
  proof (intro allI impI)
    fix k
    assume k: "k < unat (nblocks s) div 32"
    have "\<not> bit (bitmap_word s k) j" if "j < 32" for j
    proof -
      have "(32 * k + j) div 32 = k" "(32 * k + j) mod 32 = j" "32 * k + j < 32 * (unat (nblocks s) div 32)"
        using that k by simp_all
      then show ?thesis
        using e by (auto simp: avail_def free_bit_word)
    qed
    then show "bitmap_word s k = 0"
      using bit_imp_le_length [of "bitmap_word s k"] by (auto simp: bit_eq_iff)
  qed
next
  assume "\<forall>k < unat (nblocks s) div 32. bitmap_word s k = 0"
  then have "bitmap_word s (b div 32) = 0" if "b < 32 * (unat (nblocks s) div 32)" for b
    using that by (simp add: less_mult_imp_div_less mult.commute)
  then show "avail s = {}"
    by (auto simp: avail_def free_bit_word)
qed

text \<open>The block \<open>b\<close> marked in use.\<close>

definition take_block :: "nat \<Rightarrow> fs \<Rightarrow> fs" where
  "take_block b s = set_word (b div 32) (unset_bit (b mod 32) (bitmap_word s (b div 32))) s"

lemma div_mod_32_unique: "c div 32 = b div 32 \<Longrightarrow> c mod 32 = b mod 32 \<longleftrightarrow> c = (b :: nat)"
  using div_mod_eqI by blast

lemma take_block_free: "free_bit (take_block b s) c = (c \<noteq> b \<and> free_bit s c)"
proof (cases "c div 32 = b div 32")
  case True
  then show ?thesis
    using div_mod_32_unique [OF True] unfolding take_block_def free_bit_set_word
    by (auto simp: bit_unset_bit_iff free_bit_word)
qed (auto simp: take_block_def free_bit_set_word)

lemma take_block_frame:
  "mounted (take_block b s) = mounted s" "nblocks (take_block b s) = nblocks s" "mapped (take_block b s) = mapped s"
  "avail (take_block b s) = avail s - {b}" "grant (take_block b s) = grant s" "asked (take_block b s) = asked s"
proof -
  show nb: "nblocks (take_block b s) = nblocks s"
    unfolding take_block_def by (rule set_word_frame(1))
  show "avail (take_block b s) = avail s - {b}"
    unfolding avail_def nb take_block_free by auto
qed (simp_all add: take_block_def set_word_frame, simp_all add: set_word_def)

lemma alloc_block_num_eq:
  assumes m: "mounted s"
  shows "alloc_block_num s = (if avail s = {} then Ok (- E_NO_DISK) s
    else Ok (int (Min (avail s))) (take_block (Min (avail s)) s))"
proof -
  let ?n = "unat (nblocks s) div 32"
  have search: "find_word [0..<?n] s = Ok (find (\<lambda>k. bitmap_word s k \<noteq> 0) [0..<?n]) s"
    by (rule find_word_eq [OF m]) simp
  show ?thesis
  proof (cases "find (\<lambda>k. bitmap_word s k \<noteq> 0) [0..<?n]")
    case None
    then have "avail s = {}"
      by (simp add: avail_empty_iff [OF m] find_None_iff)
    then show ?thesis
      using m search None by (simp add: alloc_block_num_def)
  next
    case (Some i)
    then have i: "i < ?n" "bitmap_word s i \<noteq> 0" "\<forall>k < i. bitmap_word s k = 0"
      by (auto simp: find_Some_iff)
    define j where "j = find_bit [0..<32] (bitmap_word s i)"
    have j: "j < 32" "bit (bitmap_word s i) j" "\<forall>k < j. \<not> bit (bitmap_word s i) k"
      using find_bit_least [OF i(2)] by (simp_all add: j_def)
    have b: "(i * 32 + j) div 32 = i" "(i * 32 + j) mod 32 = j"
      using j(1) by simp_all
    have least: "Min (avail s) = i * 32 + j"
    proof (rule Min_eqI)
      show "finite (avail s)"
        by (rule finite_subset [of _ "{..< 32 * ?n}"]) (auto simp: avail_def)
      show "i * 32 + j \<in> avail s"
        using i(1) j(1,2) b by (simp add: avail_def free_bit_word)
      fix c
      assume "c \<in> avail s"
      then have c: "bit (bitmap_word s (c div 32)) (c mod 32)"
        by (simp add: avail_def free_bit_word)
      then have "i \<le> c div 32"
        using i(3) by (metis bit_0_eq bot_apply bot_bool_def not_le)
      moreover have "j \<le> c mod 32" if "c div 32 = i"
        using j(3) c that not_le by blast
      ultimately show "i * 32 + j \<le> c"
        using j(1) div_mult_mod_eq [of c 32] by (cases "c div 32 = i") auto
    qed
    have "avail s \<noteq> {}"
      using i(1,2) by (auto simp: avail_empty_iff [OF m])
    moreover have "alloc_block_num s = Ok (int (i * 32 + j)) (take_block (i * 32 + j) s)"
    proof -
      have "32 * i < unat (nblocks s)"
        using i(1) by linarith
      then show ?thesis
        using search Some bitmap_ld_ok [OF m i(1)] m
        unfolding take_block_def b by (simp add: alloc_block_num_def bitmap_st_ok Let_def j_def)
    qed
    ultimately show ?thesis
      by (simp add: least)
  qed
qed

text \<open>The superblock and the bitmap are marked in use.\<close>

definition reserved :: "fs \<Rightarrow> bool" where
  "reserved s \<longleftrightarrow> (\<forall>c < 2 + nbitmaps s. \<not> free_bit s c)"

lemma avail_Min:
  assumes "mounted s" and "avail s \<noteq> {}"
  shows "Min (avail s) < unat (nblocks s)" and "free_bit s (Min (avail s))" and "unat (of_nat (Min (avail s)) :: u32) = Min (avail s)"
proof -
  have "finite (avail s)"
    by (rule finite_subset [of _ "{..< 32 * (unat (nblocks s) div 32)}"]) (auto simp: avail_def)
  then have "Min (avail s) \<in> avail s"
    using assms(2) by (rule Min_in)
  then show "Min (avail s) < unat (nblocks s)" "free_bit s (Min (avail s))"
    by (auto simp: avail_def)
  then show "unat (of_nat (Min (avail s)) :: u32) = Min (avail s)"
    using unat_u32_less [of "nblocks s"] by (simp add: unat_of_nat)
qed

text \<open>A page allocated for a block that is not cached.\<close>

definition fresh_page :: "nat \<Rightarrow> fs \<Rightarrow> fs" where
  "fresh_page b s = s\<lparr>asked := asked s + 1, blk := (blk s)(b := (\<lambda>_. 0)), mapped := (mapped s)(b := True), dirty := (dirty s)(b := False)\<rparr>"

lemma fresh_page_frame:
  assumes "mounted s" and "\<not> mapped s b"
  shows "mounted (fresh_page b s)" and "nblocks (fresh_page b s) = nblocks s"
    and "c < unat (nblocks s) \<Longrightarrow> free_bit (fresh_page b s) c = free_bit s c"
proof -
  have b: "b \<noteq> 1" "\<And>k. k < nbitmaps s \<Longrightarrow> b \<noteq> 2 + k"
    using assms mountedD(3,7) [OF assms(1)] by blast+
  then show nb: "nblocks (fresh_page b s) = nblocks s"
    by (simp add: fresh_page_def)
  then show "mounted (fresh_page b s)"
    using assms(1) unfolding mounted_def nbitmaps_def nb by (simp add: fresh_page_def drive_ok_def)
  show "free_bit (fresh_page b s) c = free_bit s c" if "c < unat (nblocks s)"
  proof -
    have "mapped s (2 + c div 32 div 1024)"
      using bitmap_mapped(1) [OF assms(1) that] .
    then have "b \<noteq> 2 + c div 32 div 1024"
      using assms(2) by blast
    then show ?thesis
      by (simp add: free_bit_def fresh_page_def)
  qed
qed

lemma map_block_eq:
  assumes m: "mounted s" and b: "b < nblocks s"
  shows "map_block b s = (if mapped s (unat b) then Ok 0 s else if grant s (asked s) then Ok 0 (fresh_page (unat b) s)
    else Ok (- E_NO_MEM) (s\<lparr>asked := asked s + 1\<rparr>))"
  using b by (simp add: map_block_def cache_eqs [OF m] alloc_page_at_def fresh_page_def Let_def)

lemma give_back:
  assumes m: "mounted s" and b: "b < unat (nblocks s)" "b \<noteq> 0" "free_bit s b"
  defines "s1 \<equiv> (take_block b s)\<lparr>asked := asked s + 1\<rparr>"
  shows "\<exists>s'. free_block (of_nat b) s1 = Ok () s' \<and> mounted s' \<and> blk s' = blk s \<and> mapped s' = mapped s"
proof -
  let ?k = "b div 32" and ?w = "bitmap_word s (b div 32)"
  have u: "unat (of_nat b :: u32) = b"
    using b(1) unat_u32_less [of "nblocks s"] by (simp add: unat_of_nat)
  have m1: "mounted s1" "nblocks s1 = nblocks s"
    using m take_block_frame(1,2) [of b s] unfolding s1_def mounted_def nbitmaps_def drive_ok_def by simp_all
  have k: "32 * ?k < unat (nblocks s1)"
    using b(1) m1(2) by (simp add: div_times_less_eq_dividend order_le_less_trans mult.commute)
  have w1: "bitmap_word s1 ?k = unset_bit (b mod 32) ?w"
    unfolding s1_def take_block_def by (simp add: set_word_def)
  have set: "set_bit (b mod 32) (unset_bit (b mod 32) ?w) = ?w"
    using b(3) by (intro bit_eqI) (auto simp: bit_set_bit_iff bit_unset_bit_iff free_bit_word)
  have ld: "bitmap_ld ?k s1 = Ok (bitmap_word s1 ?k) s1"
    using bitmap_mapped(1) [OF m1(1) k] by (simp add: bitmap_ld_def ldw_def)
  have "((of_nat b :: u32) = 0) = False"
    using u b(2) by (metis unat_0)
  then have "free_block (of_nat b) s1 = Ok () (set_word ?k ?w s1)"
    by (simp only: free_block_def u if_False ld w1 kbind.simps set bitmap_st_ok [OF m1(1) k])
  moreover have "blk (set_word ?k ?w s1) = blk s" "mapped (set_word ?k ?w s1) = mapped s"
    by (auto simp: set_word_def s1_def take_block_def fun_eq_iff)
  ultimately show ?thesis
    using m1(1) set_word_frame(2) by blast
qed

text \<open>What \<^verbatim>\<open>alloc_block\<close> does with the block it has found, once the block is cached: the bitmap block goes to the disk.\<close>

lemma alloc_flush:
  assumes m: "mounted s" and b: "b < unat (nblocks s)"
  shows "\<exists>s'. write_block (2 + of_nat b div BLKBITSIZE) s = Ok () s' \<and> mounted s' \<and> blk s' = blk s \<and> mapped s' = mapped s
    \<and> (\<forall>i < 1024. on_disk s' (2 + b div 32768) i = blk s (2 + b div 32768) i)"
proof -
  let ?c = "2 + of_nat b div BLKBITSIZE :: u32"
  have "b div 32 div 1024 = b div 32768"
    by (simp add: div_mult2_eq [symmetric])
  then have c: "mapped s (2 + b div 32768)" "2 + b div 32768 < unat (nblocks s)"
    using bitmap_mapped [OF m b] by simp_all
  have "b < 2 ^ 32"
    using b unat_u32_less [of "nblocks s"] by simp
  then have "unat (of_nat b div BLKBITSIZE :: u32) = b div 32768"
    by (simp add: unat_div unat_of_nat BLKBITSIZE_def)
  moreover have "b div 32768 < 2 ^ 32 - 2"
    using \<open>b < 2 ^ 32\<close> by (simp add: less_mult_imp_div_less)
  ultimately have u: "unat ?c = 2 + b div 32768"
    by (simp add: unat_word_ariths)
  then have "?c < nblocks s"
    using c(2) by (simp add: word_less_nat_alt)
  then obtain s' where s': "write_block ?c s = Ok () s'" "written (2 + b div 32768) s s'"
    using write_block_ok [OF m, of ?c, unfolded u] c(1) by blast
  then show ?thesis
    using written_frame [OF s'(2)] m unfolding written_def by auto
qed

text \<open>
  C35. \<^verbatim>\<open>alloc_block\<close> takes the lowest block that the bitmap marks free among those with a complete bitmap word, marks it in
  use in the cache and on the disk, caches it, and changes no other block and no other bit of the bitmap. A block
  that is cached already keeps its old contents. Without a free block it changes nothing and reports a full disk; without
  memory for the page it gives the block back and leaves every block as it was.
\<close>

theorem alloc_block_correct:
  assumes m: "mounted s" and res: "reserved s"
  shows "if avail s = {} then alloc_block s = Ok (- E_NO_DISK) s
    else if mapped s (Min (avail s)) \<or> grant s (asked s) then
      \<exists>s' b. b = Min (avail s) \<and> alloc_block s = Ok (int b) s' \<and> mounted s' \<and> mapped s' b
        \<and> (\<forall>c < unat (nblocks s). free_bit s' c = (c \<noteq> b \<and> free_bit s c))
        \<and> (\<forall>c. c \<noteq> b \<longrightarrow> c < 2 \<or> 2 + nbitmaps s \<le> c \<longrightarrow> blk s' c = blk s c)
        \<and> blk s' b = (if mapped s b then blk s b else (\<lambda>_. 0))
        \<and> (\<forall>i < 1024. on_disk s' (2 + b div 32768) i = blk s' (2 + b div 32768) i)
    else \<exists>s'. alloc_block s = Ok (- E_NO_MEM) s' \<and> mounted s' \<and> blk s' = blk s \<and> mapped s' = mapped s"
proof (cases "avail s = {}")
  case True
  then show ?thesis
    using alloc_block_num_eq [OF m] by (simp add: alloc_block_def const_defs)
next
  case False
  define b where "b = Min (avail s)"
  note B = avail_Min [OF m False, folded b_def]
  let ?s1 = "take_block b s"
  have m1: "mounted ?s1" and nb: "nblocks ?s1 = nblocks s" and mp: "mapped ?s1 = mapped s"
    and gr: "grant ?s1 = grant s" "asked ?s1 = asked s"
    using take_block_frame [of b s] m by simp_all
  have bn: "(of_nat b :: u32) < nblocks ?s1"
    using B(1,3) nb by (simp add: word_less_nat_alt)
  have far: "2 + nbitmaps s \<le> b"
    using res B(2) not_less unfolding reserved_def by blast
  have num: "alloc_block_num s = Ok (int b) ?s1"
    using alloc_block_num_eq [OF m] False by (simp add: b_def)
  have other: "blk ?s1 c = blk s c" if "c < 2 \<or> 2 + nbitmaps s \<le> c" for c
  proof -
    have "c \<noteq> 2 + b div 32 div 1024"
      using that bitmap_block_range [OF m B(1)] by auto
    then show ?thesis
      by (simp add: take_block_def set_word_def)
  qed
  show ?thesis
  proof (cases "mapped s b \<or> grant s (asked s)")
    case True
    define s2 where "s2 = (if mapped s b then ?s1 else fresh_page b ?s1)"
    have map: "map_block (of_nat b) ?s1 = Ok 0 s2"
      using True map_block_eq [OF m1 bn] by (auto simp: s2_def mp gr B(3))
    have m2: "mounted s2" "nblocks s2 = nblocks s"
      using fresh_page_frame(1,2) [OF m1, of b] m1 nb by (auto simp: s2_def mp)
    have free: "free_bit s2 c = (c \<noteq> b \<and> free_bit s c)" if "c < unat (nblocks s)" for c
      using fresh_page_frame(3) [OF m1, of b c] that nb by (auto simp: s2_def mp take_block_free)
    have blk: "blk s2 c = blk s c" if "c \<noteq> b" "c < 2 \<or> 2 + nbitmaps s \<le> c" for c
      using that other [of c] by (auto simp: s2_def fresh_page_def)
    have own: "blk s2 b = (if mapped s b then blk s b else (\<lambda>_. 0))" "mapped s2 b"
      using other [of b] far by (auto simp: s2_def fresh_page_def mp)
    obtain s' where s': "write_block (2 + of_nat b div BLKBITSIZE) s2 = Ok () s'" "mounted s'" "blk s' = blk s2" "mapped s' = mapped s2"
        "\<forall>i < 1024. on_disk s' (2 + b div 32768) i = blk s2 (2 + b div 32768) i"
      using alloc_flush [OF m2(1), of b] B(1) m2(2) by auto
    have "alloc_block s = Ok (int b) s'"
      using s'(1) by (simp add: alloc_block_def num map)
    moreover have "free_bit s' c = free_bit s2 c" for c
      using s'(3) by (simp add: free_bit_def)
    ultimately show ?thesis
      using False True s'(2-5) free blk own unfolding b_def [symmetric] by auto
  next
    case no: False
    obtain s' where s': "free_block (of_nat b) (?s1\<lparr>asked := asked s + 1\<rparr>) = Ok () s'" "mounted s'" "blk s' = blk s" "mapped s' = mapped s"
      using give_back [OF m B(1) _ B(2)] far by auto
    have "alloc_block s = Ok (- E_NO_MEM) s'"
      using s'(1) no map_block_eq [OF m1 bn, unfolded B(3) mp gr] by (simp add: alloc_block_def num E_NO_MEM_def)
    then show ?thesis
      using False no s'(2-4) unfolding b_def [symmetric] by auto
  qed
qed

section \<open>Reading a block\<close>

text \<open>The state after block \<open>b\<close> has been loaded.\<close>

definition loaded :: "nat \<Rightarrow> fs \<Rightarrow> fs \<Rightarrow> bool" where
  "loaded b s s' \<longleftrightarrow> (\<exists>t w. s' = s\<lparr>asked := asked s + 1, clock := t, blk := (blk s)(b := w), mapped := (mapped s)(b := True), dirty := (dirty s)(b := False)\<rparr>
     \<and> (\<forall>i < 1024. w i = on_disk s b i))"

lemma read_block_load:
  assumes m: "mounted s" and b: "b < nblocks s" "\<not> free_bit s (unat b)" "\<not> mapped s (unat b)" "grant s (asked s)"
  shows "\<exists>s'. read_block b s = Ok (0, unat b) s' \<and> loaded (unat b) s s'"
proof -
  let ?a = "unat b" and ?s1 = "fresh_page (unat b) s"
  let ?ds = "map (\<lambda>k. drive s (diskno s) (8 * unat b + k)) [0..<8]"
  have dev: "drive_ok ?s1" "drive ?s1 = drive s" "diskno ?s1 = diskno s"
    using mountedD(4) [OF m] by (simp_all add: fresh_page_def drive_ok_def)
  have "unat (b * of_nat BLKSECTS) < 2 ^ 28"
    using block_secno [OF m b(1)] by simp
  then obtain t where rd: "ide_read (b * of_nat BLKSECTS) BLKSECTS ?s1 = Ok (0, ?ds) (?s1\<lparr>clock := t\<rparr>)"
    using ide_read_ok [OF dev(1), of BLKSECTS "b * of_nat BLKSECTS"] block_secno(1) [OF m b(1)] dev(2,3)
    by (auto simp: BLKSECTS_def)
  let ?s' = "remap_clean ?a (store_sectors ?a ?ds (?s1\<lparr>clock := t\<rparr>))"
  have "alloc_page_at ?a s = Ok 0 ?s1"
    using b(4) by (simp add: alloc_page_at_def fresh_page_def)
  then have "read_block b s = Ok (0, ?a) ?s'"
    using b rd mountedD(2) [OF m]
    by (simp add: read_block_def bad_block_eq [OF m] block_is_free_eq [OF m] cache_eqs [OF m] not_le)
  moreover have "(?ds ! (i div 128)) (i mod 128) = on_disk s ?a i" if "i < 1024" for i
    using that by (simp add: on_disk_def less_mult_imp_div_less)
  then have "loaded ?a s ?s'"
    unfolding loaded_def
    by (intro exI [of _ t] exI [of _ "blk ?s' ?a"])
      (auto simp: remap_clean_def store_sectors_def fresh_page_def less_mult_imp_div_less fun_eq_iff)
  ultimately show ?thesis
    by blast
qed

lemma loaded_keeps:
  assumes m: "mounted s" and b: "\<not> mapped s b" and ld: "loaded b s s'"
  shows "mounted s'" and "nblocks s' = nblocks s" and "drive s' = drive s" and "coherent s \<Longrightarrow> coherent s'"
proof -
  obtain t w where s': "s' = s\<lparr>asked := asked s + 1, clock := t, blk := (blk s)(b := w), mapped := (mapped s)(b := True), dirty := (dirty s)(b := False)\<rparr>"
      "\<forall>i < 1024. w i = on_disk s b i"
    using ld unfolding loaded_def by blast
  have "b \<noteq> 1"
    using b mountedD(3) [OF m] by blast
  then show nb: "nblocks s' = nblocks s"
    by (simp add: s'(1))
  then show "mounted s'"
    using m unfolding mounted_def nbitmaps_def nb by (simp add: s'(1) drive_ok_def)
  show "drive s' = drive s"
    by (simp add: s'(1))
  show "coherent s'" if "coherent s"
    using that s'(2) unfolding coherent_def nb by (auto simp: s'(1) on_disk_def)
qed

text \<open>
  C36. \<^verbatim>\<open>read_block\<close> of a block in use leaves it cached with the contents it had in the cache or, if it was not cached, the
  contents on the disk; it fails only when the kernel has no page for it. It touches no other block and not the
  disk, and clean blocks still agree with the disk.
\<close>

theorem read_block_correct:
  assumes m: "mounted s" and coh: "coherent s" and b: "b < nblocks s" "\<not> free_bit s (unat b)"
  shows "\<exists>r s'. read_block b s = Ok (r, unat b) s' \<and> r = (if mapped s (unat b) \<or> grant s (asked s) then 0 else - E_NO_MEM)
    \<and> mounted s' \<and> coherent s' \<and> drive s' = drive s
    \<and> (r = 0 \<longrightarrow> mapped s' (unat b) \<and> (\<forall>i < 1024. blk s' (unat b) i = (if mapped s (unat b) then blk s (unat b) i else on_disk s (unat b) i)))
    \<and> (\<forall>c. c \<noteq> unat b \<longrightarrow> blk s' c = blk s c \<and> mapped s' c = mapped s c \<and> dirty s' c = dirty s c)"
proof -
  note eqs = bad_block_eq [OF m] block_is_free_eq [OF m] cache_eqs [OF m]
  consider "mapped s (unat b)" | "\<not> mapped s (unat b)" "grant s (asked s)" | "\<not> mapped s (unat b)" "\<not> grant s (asked s)"
    by blast
  then show ?thesis
  proof cases
    case 1
    then have "read_block b s = Ok (0, unat b) s"
      using b mountedD(2) [OF m] by (simp add: read_block_def eqs not_le)
    then show ?thesis
      using 1 m coh by auto
  next
    case 2
    then obtain s' where s': "read_block b s = Ok (0, unat b) s'" "loaded (unat b) s s'"
      using read_block_load [OF m b] by blast
    then show ?thesis
      using 2 loaded_keeps [OF m 2(1) s'(2)] coh by (auto simp: loaded_def)
  next
    case 3
    let ?s' = "s\<lparr>asked := asked s + 1\<rparr>"
    have "read_block b s = Ok (- E_NO_MEM, unat b) ?s'"
      using 3 b mountedD(2) [OF m] by (simp add: read_block_def eqs not_le alloc_page_at_def const_defs)
    moreover have "mounted ?s'" "coherent ?s'"
      using m coh by (simp_all add: mounted_def nbitmaps_def drive_ok_def coherent_def on_disk_def)
    ultimately show ?thesis
      using 3 by (auto simp: const_defs)
  qed
qed

section \<open>Path names\<close>

text \<open>The components of a path: the pieces between slashes that are not empty.\<close>

fun pieces :: "u8 list \<Rightarrow> u8 list \<Rightarrow> u8 list list" where
  "pieces [] w = [w]"
| "pieces (c # cs) w = (if c = slash then w # pieces cs [] else pieces cs (w @ [c]))"

definition components :: "u8 list \<Rightarrow> u8 list list" where
  "components path = filter (\<lambda>w. w \<noteq> []) (pieces path [])"

text \<open>Walking a list of names, starting at file \<open>f\<close> in directory \<open>dir\<close>.\<close>

fun walk_names :: "u8 list list \<Rightarrow> fptr option \<Rightarrow> fptr \<Rightarrow> fs \<Rightarrow> (int \<times> fptr option \<times> fptr option \<times> u8 list, fs) kres" where
  "walk_names [] dir f s = Ok (0, dir, Some f, []) s"
| "walk_names (name # names) dir f s =
     (if length name \<ge> MAXNAMELEN then Ok (- E_BAD_PATH, None, None, []) s
      else
        kbind (fld f f_type s) (\<lambda>ty s.
        if ty \<noteq> FTYPE_DIR then Ok (- E_NOT_FOUND, None, None, []) s else
        kbind (dir_lookup f name s) (\<lambda>(r, g) s.
        if r < 0 then Ok (if r = - E_NOT_FOUND \<and> names = [] then (r, Some f, None, name) else (r, None, None, [])) s
        else case g of None \<Rightarrow> Ok (r, None, None, []) s | Some g \<Rightarrow> walk_names names (Some f) g s)))"

lemma pieces_scan:
  "pieces path w = (w @ takeWhile (\<lambda>c. c \<noteq> slash) path) #
     (case dropWhile (\<lambda>c. c \<noteq> slash) path of [] \<Rightarrow> [] | c # cs \<Rightarrow> pieces cs [])"
  by (induction path arbitrary: w) auto

lemma components_skip: "components (skip_slash path) = components path"
  by (induction path) (auto simp: skip_slash_def components_def)

lemma components_Cons:
  assumes "path \<noteq> []" and "hd path \<noteq> slash"
  shows "components path = takeWhile (\<lambda>c. c \<noteq> slash) path # components (skip_slash (dropWhile (\<lambda>c. c \<noteq> slash) path))"
proof -
  define d where "d = dropWhile (\<lambda>c. c \<noteq> slash) path"
  have "takeWhile (\<lambda>c. c \<noteq> slash) path \<noteq> []"
    using assms by (cases path) auto
  then have "components path = takeWhile (\<lambda>c. c \<noteq> slash) path # filter (\<lambda>w. w \<noteq> []) (case d of [] \<Rightarrow> [] | c # cs \<Rightarrow> pieces cs [])"
    unfolding components_def d_def by (subst pieces_scan) simp
  moreover have "filter (\<lambda>w. w \<noteq> []) (case d of [] \<Rightarrow> [] | c # cs \<Rightarrow> pieces cs []) = components d"
    using hd_dropWhile [of "\<lambda>c. c \<noteq> slash" path, folded d_def] by (cases d) (auto simp: components_def)
  ultimately show ?thesis
    unfolding components_skip d_def by simp
qed

lemma components_empty: "hd path \<noteq> slash \<Longrightarrow> components path = [] \<longleftrightarrow> path = []"
  using components_Cons [of path] by (cases "path = []") (auto simp: components_def)

lemma skip_slash_hd: "hd (skip_slash path) \<noteq> slash \<or> skip_slash path = []"
  unfolding skip_slash_def using hd_dropWhile by blast

lemma walk_loop_names:
  assumes "hd path \<noteq> slash \<or> path = []"
  shows "walk_loop path dir f s = walk_names (components path) dir f s"
  using assms
proof (induction path dir f s rule: walk_loop.induct)
  case (1 path dir f s)
  show ?case
  proof (cases "path = []")
    case True
    then show ?thesis
      by (simp add: walk_loop.simps components_def)
  next
    case False
    let ?name = "takeWhile (\<lambda>c. c \<noteq> slash) path" and ?rest = "skip_slash (dropWhile (\<lambda>c. c \<noteq> slash) path)"
    have hd: "hd ?rest \<noteq> slash \<or> ?rest = []"
      by (rule skip_slash_hd)
    have empty: "components ?rest = [] \<longleftrightarrow> ?rest = []"
      using hd components_empty [of ?rest] by (auto simp: components_def)
    have cs: "components path = ?name # components ?rest"
      using components_Cons False 1(2) by blast
    show ?thesis
    proof (cases "MAXNAMELEN \<le> length ?name")
      case True
      then show ?thesis
        using False by (simp add: walk_loop.simps [of path] cs Let_def)
    next
      case short: False
      have IH: "walk_loop ?rest (Some f) g s' = walk_names (components ?rest) (Some f) g s'" for g s'
        by (rule 1(1) [OF False refl refl short _ _ refl hd, of FTYPE_DIR 0]) simp_all
      show ?thesis
        unfolding walk_loop.simps [of path] cs walk_names.simps Let_def IH empty using False short by simp
    qed
  qed
qed

text \<open>
  C37. Path names are walked component by component: a path leads where the sequence of its components leads, whatever the
  number of slashes before, between and after them, and the walk ends for every path.
\<close>

theorem walk_path_components: "walk_path path s = walk_names (components path) None s_root s"
  using walk_loop_names [OF skip_slash_hd [of path]] by (simp add: walk_path_def components_skip)

section \<open>An example file system\<close>

text \<open>A disk of 64 blocks of which the first ten are in use; the superblock and the bitmap are cached.\<close>

definition disk_image :: "nat \<Rightarrow> nat \<Rightarrow> u32" where
  "disk_image b i =
     (if b = 1 \<and> i = 0 then FS_MAGIC else if b = 1 \<and> i = 1 then 64
      else if b = 2 \<and> i = 0 then 0xFFFFFC00 else if b = 2 \<and> i = 1 then 0xFFFFFFFF else 0)"

definition fs_example :: fs where
  "fs_example = \<lparr>status = \<lambda>_. 0x40, clock = 0, drive = \<lambda>_ sec i. disk_image (sec div 8) (128 * (sec mod 8) + i), diskno = 1,
     blk = disk_image, mapped = (\<lambda>b. b = 1 \<or> b = 2), dirty = (\<lambda>_. False), super = True, bitmap = True, grant = (\<lambda>_. True), asked = 0\<rparr>"

lemma fs_example_simps [simp]:
  "blk fs_example = disk_image" "mapped fs_example b = (b = 1 \<or> b = 2)" "\<not> dirty fs_example b" "super fs_example"
  "bitmap fs_example" "grant fs_example n" "asked fs_example = 0"
  by (simp_all add: fs_example_def)

lemma fs_example_nblocks [simp]: "disk_image 1 s_nblocks = 64" "disk_image (Suc 0) s_nblocks = 64"
  by (simp_all add: disk_image_def const_defs)

lemma fs_example_mounted: "mounted fs_example"
proof -
  have "drive_ok fs_example"
    by (auto simp: drive_ok_def fs_example_def is_ready_def const_defs)
  moreover have "nbitmaps fs_example = 1"
    by (simp add: nbitmaps_def BLKBITSIZE_def)
  ultimately show ?thesis
    by (simp add: mounted_def)
qed

lemma fs_example_disk: "on_disk fs_example b i = disk_image b i" if "i < 1024"
proof -
  have "(8 * b + i div 128) div 8 = b" "(8 * b + i div 128) mod 8 = i div 128"
    using that by (simp_all add: less_mult_imp_div_less)
  then show ?thesis
    unfolding on_disk_def fs_example_def by simp
qed

lemma fs_example_coherent: "coherent fs_example"
  by (simp add: coherent_def fs_example_disk)

lemma fs_example_free: "b < 64 \<Longrightarrow> free_bit fs_example b \<longleftrightarrow> 10 \<le> b"
proof -
  assume b: "b < 64"
  have w0: "(0xFFFFFC00 :: u32) = NOT (mask 10)"
    by (simp add: mask_eq_exp_minus_1)
  have w1: "(0xFFFFFFFF :: u32) = mask 32"
    by (simp add: mask_eq_exp_minus_1)
  show ?thesis
  proof (cases "b < 32")
    case True
    then have "free_bit fs_example b = bit (0xFFFFFC00 :: u32) b"
      by (simp add: free_bit_def disk_image_def)
    then show ?thesis
      unfolding w0 using True by (simp add: bit_not_iff bit_mask_iff not_less)
  next
    case False
    then have "free_bit fs_example b = bit (0xFFFFFFFF :: u32) (b mod 32)"
      using b by (simp add: free_bit_def disk_image_def div_nat_eqI [of 1])
    then show ?thesis
      unfolding w1 using False by (simp add: bit_mask_iff)
  qed
qed

lemma fs_example_avail: "Min (avail fs_example) = 10" "avail fs_example \<noteq> {}" "reserved fs_example"
proof -
  have a: "avail fs_example = {10..<64}"
    using fs_example_free by (auto simp: avail_def)
  then show "Min (avail fs_example) = 10" "avail fs_example \<noteq> {}"
    by (auto intro!: Min_eqI)
  have "nbitmaps fs_example = 1"
    by (simp add: nbitmaps_def BLKBITSIZE_def)
  then show "reserved fs_example"
    using fs_example_free by (simp add: reserved_def)
qed

definition dirty_example :: fs where
  "dirty_example = fs_example\<lparr>mapped := (\<lambda>b. b = 1 \<or> b = 2 \<or> b = 5), dirty := (\<lambda>b. b = 5), blk := disk_image(5 := \<lambda>_. 7)\<rparr>"

lemma dirty_example_ok: "mounted dirty_example" "coherent dirty_example"
proof -
  have nb: "nbitmaps dirty_example = 1"
    by (simp add: nbitmaps_def BLKBITSIZE_def dirty_example_def)
  have d: "drive_ok dirty_example"
    using fs_example_mounted by (simp add: mounted_def drive_ok_def dirty_example_def)
  show "mounted dirty_example"
    unfolding mounted_def nb using d by (simp add: dirty_example_def)
  have "on_disk dirty_example = on_disk fs_example"
    by (simp add: on_disk_def fun_eq_iff dirty_example_def)
  then show "coherent dirty_example"
    by (simp add: coherent_def fs_example_disk) (simp add: dirty_example_def)
qed


theorem alloc_block_correct_witness:
  "\<exists>s'. alloc_block fs_example = Ok 10 s' \<and> mapped s' 10 \<and> \<not> free_bit s' 10 \<and> free_bit s' 11"
  using alloc_block_correct [OF fs_example_mounted fs_example_avail(3)] fs_example_avail(1,2) fs_example_free by auto

theorem read_block_correct_witness:
  "\<exists>s'. read_block 3 fs_example = Ok (0, 3) s' \<and> mapped s' 3 \<and> blk s' 3 7 = 0"
proof -
  have "3 < nblocks fs_example" "\<not> free_bit fs_example 3"
    using fs_example_free [of 3] by simp_all
  moreover have "on_disk fs_example 3 7 = 0"
    by (simp add: fs_example_disk disk_image_def)
  ultimately show ?thesis
    using read_block_correct [OF fs_example_mounted fs_example_coherent, of 3] by auto
qed

end
