(* ===== verification/Serv.thy ===== *)
theory Serv
  imports Fs_Props
begin

text \<open>
  The file server, \<^verbatim>\<open>fs/serv.c\<close>: the table of open files and the requests of clients, on top of the file system.

  The \<^verbatim>\<open>struct Fd\<close> of table entry \<open>i\<close> lives on its own page, at \<^verbatim>\<open>FILEVA + i * PGSIZE\<close> in the server, which clients that have the
  file open share; \<open>fd_ref i\<close> is the number of mappings of that page, 0 when the server has none, and \<open>fd_word i\<close> its
  words. A client that maps or unmaps the page changes \<open>fd_ref\<close> without the server. A request is the number, the
  permissions and the page that the client has sent; \<open>replies\<close> logs the answers. An answer to an environment that no longer
  exists makes \<^verbatim>\<open>ipc_send\<close> panic; \<open>alive\<close> tells which do.
\<close>

section \<open>State\<close>

definition MAXOPEN :: nat where [const_defs]: "MAXOPEN = 1024"

record openfile =
  o_fileid :: u32
  o_file :: "fptr option"
  o_mode :: u32

datatype reply_page = No_page | Fd_page nat u32 | Block_page nat u32

record serv =
  sfs :: fs
  opentab :: "nat \<Rightarrow> openfile"
  fd_ref :: "nat \<Rightarrow> nat"
  fd_word :: "nat \<Rightarrow> nat \<Rightarrow> u32"
  alive :: "u32 \<Rightarrow> bool"
  replies :: "(u32 \<times> int \<times> reply_page) list"

text \<open>A step of the file system as a step of the server.\<close>

fun with_fs :: "('a, fs) kres \<Rightarrow> serv \<Rightarrow> ('a, serv) kres" where
  "with_fs (Ok x f) s = Ok x (s\<lparr>sfs := f\<rparr>)"
| "with_fs (Iret f) s = Iret (s\<lparr>sfs := f\<rparr>)"
| "with_fs (Idle f) s = Idle (s\<lparr>sfs := f\<rparr>)"
| "with_fs (Panic msg) s = Panic msg"
| "with_fs Hang s = Hang"

abbreviation on_fs :: "(fs \<Rightarrow> ('a, fs) kres) \<Rightarrow> serv \<Rightarrow> ('a, serv) kres" where
  "on_fs f s \<equiv> with_fs (f (sfs s)) s"

text \<open>The words of \<^verbatim>\<open>struct Fd\<close>.\<close>

definition fd_dev_id :: nat where [const_defs]: "fd_dev_id = 0"
definition fd_omode :: nat where [const_defs]: "fd_omode = 2"
definition fd_file_id :: nat where [const_defs]: "fd_file_id = 3"
definition fd_file_file :: nat where [const_defs]: "fd_file_file = 4"

definition put_fd :: "nat \<Rightarrow> nat \<Rightarrow> u32 \<Rightarrow> serv \<Rightarrow> serv" where
  "put_fd i k w s = s\<lparr>fd_word := (fd_word s)(i := (fd_word s i)(k := w))\<rparr>"

definition ipc_send :: "u32 \<Rightarrow> int \<Rightarrow> reply_page \<Rightarrow> serv \<Rightarrow> (unit, serv) kres" where
  "ipc_send to_env val p s =
     (if \<not> alive s to_env then Panic ''icp_send''
      else
        let s = s\<lparr>replies := replies s @ [(to_env, val, p)]\<rparr>
        in Ok () (case p of Fd_page i perm \<Rightarrow> s\<lparr>fd_ref := (fd_ref s)(i := fd_ref s i + 1)\<rparr> | _ \<Rightarrow> s))"

section \<open>The table of open files\<close>

definition serve_init :: "serv \<Rightarrow> serv" where
  "serve_init s = s\<lparr>opentab := (\<lambda>i. if i < MAXOPEN then (opentab s i)\<lparr>o_fileid := of_nat i\<rparr> else opentab s i)\<rparr>"

text \<open>
  \<^verbatim>\<open>openfile_alloc\<close>; the result is the return value and the entry, if \<^verbatim>\<open>*o\<close> has been set. The comparison
  of \<^verbatim>\<open>sys_page_alloc\<close> with 0 is inside the assignment to \<^verbatim>\<open>r\<close>, so a failure is returned as 1.
\<close>

fun openfile_loop :: "nat list \<Rightarrow> serv \<Rightarrow> (int \<times> nat option, serv) kres" where
  "openfile_loop [] s = Ok (- E_MAX_OPEN, None) s"
| "openfile_loop (i # is) s =
     (if fd_ref s i \<ge> 2 then openfile_loop is s
      else
        let ok = grant (sfs s) (asked (sfs s));
            s' = s\<lparr>sfs := (sfs s)\<lparr>asked := asked (sfs s) + 1\<rparr>\<rparr>
        in if fd_ref s i = 0 \<and> \<not> ok then Ok (1, None) s'
           else
             let s = (if fd_ref s i = 0 then s'\<lparr>fd_ref := (fd_ref s')(i := 1)\<rparr> else s);
                 fileid = o_fileid (opentab s i) + of_nat MAXOPEN;
                 s = s\<lparr>opentab := (opentab s)(i := (opentab s i)\<lparr>o_fileid := fileid\<rparr>),
                       fd_word := (fd_word s)(i := (\<lambda>_. 0))\<rparr>
             in Ok (sint fileid, Some i) s)"

definition openfile_alloc :: "serv \<Rightarrow> (int \<times> nat option, serv) kres" where
  "openfile_alloc s = openfile_loop [0..<MAXOPEN] s"

definition openfile_lookup :: "u32 \<Rightarrow> serv \<Rightarrow> int \<times> nat option" where
  "openfile_lookup fileid s =
     (let i = unat fileid mod MAXOPEN
      in if fd_ref s i = 1 \<or> o_fileid (opentab s i) \<noteq> fileid then (- E_INVAL, None) else (0, Some i))"

section \<open>Requests\<close>

text \<open>The request page as bytes; a word of it, and the path, which is copied and terminated.\<close>

definition req_word :: "(nat \<Rightarrow> u8) \<Rightarrow> nat \<Rightarrow> u32" where
  "req_word rq k = ucast (rq (4 * k)) OR push_bit 8 (ucast (rq (4 * k + 1))) OR push_bit 16 (ucast (rq (4 * k + 2)))
     OR push_bit 24 (ucast (rq (4 * k + 3)))"

definition req_path :: "(nat \<Rightarrow> u8) \<Rightarrow> u8 list" where
  "req_path rq = takeWhile (\<lambda>c. c \<noteq> 0) (map rq [0..<MAXPATHLEN - 1])"

definition req_fileid :: "(nat \<Rightarrow> u8) \<Rightarrow> u32" where "req_fileid rq = req_word rq 0"
definition req_offset :: "(nat \<Rightarrow> u8) \<Rightarrow> u32" where "req_offset rq = req_word rq 1"
definition req_size :: "(nat \<Rightarrow> u8) \<Rightarrow> u32" where "req_size rq = req_word rq 1"
definition req_omode :: "(nat \<Rightarrow> u8) \<Rightarrow> u32" where "req_omode rq = req_word rq (MAXPATHLEN div 4)"

definition O_WRONLY :: u32 where [const_defs]: "O_WRONLY = 1"
definition O_RDWR :: u32 where [const_defs]: "O_RDWR = 2"
definition devfile_id :: u32 where [const_defs]: "devfile_id = 0x66"

text \<open>The pointer to the file of an entry, null before the entry has first been used.\<close>

definition the_file :: "nat \<Rightarrow> serv \<Rightarrow> (fptr, serv) kres" where
  "the_file i s = (case o_file (opentab s i) of None \<Rightarrow> Panic ''page fault'' | Some f \<Rightarrow> Ok f s)"

definition copy_file :: "nat \<Rightarrow> fptr \<Rightarrow> serv \<Rightarrow> (unit, serv) kres" where
  "copy_file i f s = kfor [0..<64] (\<lambda>k s. kbind (on_fs (fld f k) s) (\<lambda>w s. Ok () (put_fd i (fd_file_file + k) w s))) s"

text \<open>The end of \<^verbatim>\<open>serve_open\<close>: the entry and its \<^verbatim>\<open>struct Fd\<close> are filled in and the page is sent.\<close>

definition fill_fd :: "u32 \<Rightarrow> (nat \<Rightarrow> u8) \<Rightarrow> nat \<Rightarrow> fptr \<Rightarrow> serv \<Rightarrow> (unit, serv) kres" where
  "fill_fd envid rq i f s =
     (let s = s\<lparr>opentab := (opentab s)(i := (opentab s i)\<lparr>o_file := Some f\<rparr>)\<rparr>
      in kbind (copy_file i f s) (\<lambda>_ s.
         let s = put_fd i fd_file_id (o_fileid (opentab s i)) s;
             s = put_fd i fd_omode (req_omode rq) s;
             s = put_fd i fd_dev_id devfile_id s;
             s = s\<lparr>opentab := (opentab s)(i := (opentab s i)\<lparr>o_mode := req_omode rq\<rparr>)\<rparr>
         in ipc_send envid 0 (Fd_page i (PTE_P OR PTE_U OR PTE_W OR PTE_SHARE)) s))"

definition serve_open :: "u32 \<Rightarrow> (nat \<Rightarrow> u8) \<Rightarrow> serv \<Rightarrow> (unit, serv) kres" where
  "serve_open envid rq s =
     (let path = req_path rq
      in kbind (openfile_alloc s) (\<lambda>(r, o') s.
         if r < 0 then ipc_send envid r No_page s
         else
           kbind (on_fs (file_open path) s) (\<lambda>(r, f) s.
           if r < 0 then ipc_send envid r No_page s
           else (case (o', f) of (Some i, Some f) \<Rightarrow> fill_fd envid rq i f s | _ \<Rightarrow> Panic ''uninitialised pointer''))))"

definition serve_set_size :: "u32 \<Rightarrow> (nat \<Rightarrow> u8) \<Rightarrow> serv \<Rightarrow> (unit, serv) kres" where
  "serve_set_size envid rq s =
     (case openfile_lookup (req_fileid rq) s of
        (r, None) \<Rightarrow> ipc_send envid r No_page s
      | (_, Some i) \<Rightarrow>
          kbind (the_file i s) (\<lambda>f s.
          kbind (on_fs (file_set_size f (req_size rq)) s) (\<lambda>r s.
          if r < 0 then ipc_send envid r No_page s
          else ipc_send envid r No_page (put_fd i (fd_file_file + f_size) (req_size rq) s))))"

text \<open>
  \<^verbatim>\<open>file_get_block\<close> through the pointer of an entry: with a null pointer a block number out of range is refused before
  the pointer is used.
\<close>

definition entry_get_block :: "nat \<Rightarrow> u32 \<Rightarrow> serv \<Rightarrow> (int \<times> nat, serv) kres" where
  "entry_get_block i filebno s =
     (case o_file (opentab s i) of
        Some f \<Rightarrow> on_fs (file_get_block f filebno) s
      | None \<Rightarrow> if unat filebno < NINDIRECT then Panic ''page fault'' else Ok (- E_INVAL, 0) s)"

definition serve_map :: "u32 \<Rightarrow> (nat \<Rightarrow> u8) \<Rightarrow> serv \<Rightarrow> (unit, serv) kres" where
  "serve_map envid rq s =
     (case openfile_lookup (req_fileid rq) s of
        (r, None) \<Rightarrow> ipc_send envid r No_page s
      | (_, Some i) \<Rightarrow>
          kbind (entry_get_block i (off_div (req_offset rq)) s) (\<lambda>(r, b) s.
          if r < 0 then ipc_send envid r No_page s
          else
            let perm = (if o_mode (opentab s i) AND (O_WRONLY OR O_RDWR) \<noteq> 0 then PTE_U OR PTE_P OR PTE_W else PTE_U OR PTE_P)
            in ipc_send envid 0 (Block_page b (perm OR PTE_SHARE)) s))"

definition serve_close :: "u32 \<Rightarrow> (nat \<Rightarrow> u8) \<Rightarrow> serv \<Rightarrow> (unit, serv) kres" where
  "serve_close envid rq s =
     (case openfile_lookup (req_fileid rq) s of
        (r, None) \<Rightarrow> ipc_send envid r No_page s
      | (_, Some i) \<Rightarrow>
          kbind (the_file i s) (\<lambda>f s.
          kbind (on_fs (file_close f) s) (\<lambda>_ s. ipc_send envid 0 No_page s)))"

definition serve_remove :: "u32 \<Rightarrow> (nat \<Rightarrow> u8) \<Rightarrow> serv \<Rightarrow> (unit, serv) kres" where
  "serve_remove envid rq s =
     (let path = req_path rq in kbind (on_fs (file_remove path) s) (\<lambda>r s. ipc_send envid r No_page s))"

definition serve_dirty :: "u32 \<Rightarrow> (nat \<Rightarrow> u8) \<Rightarrow> serv \<Rightarrow> (unit, serv) kres" where
  "serve_dirty envid rq s =
     (case openfile_lookup (req_fileid rq) s of
        (r, None) \<Rightarrow> ipc_send envid r No_page s
      | (_, Some i) \<Rightarrow>
          kbind
            (case o_file (opentab s i) of
               Some f \<Rightarrow> on_fs (file_dirty f (req_offset rq)) s
             | None \<Rightarrow> if unat (off_div (req_offset rq)) < NINDIRECT then Panic ''page fault'' else Ok (- E_INVAL) s) (\<lambda>r s.
          ipc_send envid r No_page s))"

definition serve_sync :: "u32 \<Rightarrow> serv \<Rightarrow> (unit, serv) kres" where
  "serve_sync envid s = kbind (on_fs fs_sync s) (\<lambda>_ s. ipc_send envid 0 No_page s)"

definition FSREQ_OPEN :: u32 where [const_defs]: "FSREQ_OPEN = 1"
definition FSREQ_MAP :: u32 where [const_defs]: "FSREQ_MAP = 2"
definition FSREQ_SET_SIZE :: u32 where [const_defs]: "FSREQ_SET_SIZE = 3"
definition FSREQ_CLOSE :: u32 where [const_defs]: "FSREQ_CLOSE = 4"
definition FSREQ_DIRTY :: u32 where [const_defs]: "FSREQ_DIRTY = 5"
definition FSREQ_REMOVE :: u32 where [const_defs]: "FSREQ_REMOVE = 6"
definition FSREQ_SYNC :: u32 where [const_defs]: "FSREQ_SYNC = 7"

text \<open>One round of the loop of \<^verbatim>\<open>serve\<close>, for a request that has been received.\<close>

definition serve_request :: "u32 \<Rightarrow> u32 \<Rightarrow> u32 \<Rightarrow> (nat \<Rightarrow> u8) \<Rightarrow> serv \<Rightarrow> (unit, serv) kres" where
  "serve_request req whom perm rq s =
     (if perm AND PTE_P = 0 then Ok () s
      else if req = FSREQ_OPEN then serve_open whom rq s
      else if req = FSREQ_MAP then serve_map whom rq s
      else if req = FSREQ_SET_SIZE then serve_set_size whom rq s
      else if req = FSREQ_CLOSE then serve_close whom rq s
      else if req = FSREQ_DIRTY then serve_dirty whom rq s
      else if req = FSREQ_REMOVE then serve_remove whom rq s
      else if req = FSREQ_SYNC then serve_sync whom s
      else Ok () s)"

fun serve :: "(u32 \<times> u32 \<times> u32 \<times> (nat \<Rightarrow> u8)) list \<Rightarrow> serv \<Rightarrow> (unit, serv) kres" where
  "serve [] s = Ok () s"
| "serve ((req, whom, perm, rq) # rs) s = kbind (serve_request req whom perm rq s) (\<lambda>_ s. serve rs s)"

section \<open>What a request leaves unchanged\<close>

text \<open>\<open>yields Q m\<close>: if \<open>m\<close> returns, the result and the state satisfy \<open>Q\<close>.\<close>

definition yields :: "('a \<Rightarrow> 's \<Rightarrow> bool) \<Rightarrow> ('a, 's) kres \<Rightarrow> bool" where
  "yields Q m \<longleftrightarrow> (\<forall>x s. m = Ok x s \<longrightarrow> Q x s)"

lemma yields_simps [simp]: "yields Q (Ok x s) = Q x s" "yields Q (Panic msg)"
  by (simp_all add: yields_def)

lemma yieldsD: "yields Q m \<Longrightarrow> m = Ok x s \<Longrightarrow> Q x s"
  by (simp add: yields_def)

lemma yields_bind: "yields P m \<Longrightarrow> (\<And>x s. P x s \<Longrightarrow> yields Q (f x s)) \<Longrightarrow> yields Q (kbind m f)"
  by (cases m) (simp_all add: yields_def)

lemma yields_mono: "yields P m \<Longrightarrow> (\<And>x s. P x s \<Longrightarrow> Q x s) \<Longrightarrow> yields Q m"
  by (simp add: yields_def)

lemma yields_fs: "yields (\<lambda>_ s'. \<exists>f. s' = s\<lparr>sfs := f\<rparr>) (with_fs m s)"
  by (cases m) (auto simp: yields_def)

lemma yields_kfor:
  assumes "\<And>i s. I s \<Longrightarrow> yields (\<lambda>_ s'. I s') (body i s)" and "I s"
  shows "yields (\<lambda>_ s'. I s') (kfor is body s)"
  using assms(2)
proof (induction "is" arbitrary: s)
  case (Cons i "is")
  show ?case
    unfolding kfor.simps by (rule yields_bind [OF assms(1) [OF Cons.prems] Cons.IH])
qed simp

text \<open>The table of open files with its page references, seen from the requests that do not open a file.\<close>

definition same_table :: "serv \<Rightarrow> serv \<Rightarrow> bool" where
  "same_table s s' \<longleftrightarrow> opentab s' = opentab s \<and> fd_ref s' = fd_ref s"

lemma same_table_trans: "same_table s t \<Longrightarrow> same_table t u \<Longrightarrow> same_table s u"
  by (simp add: same_table_def)

lemma same_table_fs [simp]: "same_table s (s\<lparr>sfs := f\<rparr>)" "same_table s (put_fd i k w s)" "same_table s s"
  by (simp_all add: same_table_def put_fd_def)

lemma yields_fs_table: "yields (\<lambda>_ s'. same_table s s') (with_fs m s)"
  by (rule yields_mono [OF yields_fs]) auto

lemma yields_send: "same_table s0 s \<Longrightarrow> yields (\<lambda>_ s'. same_table s0 s') (ipc_send w v No_page s)"
  "same_table s0 s \<Longrightarrow> yields (\<lambda>_ s'. same_table s0 s') (ipc_send w v (Block_page b perm) s)"
  by (simp_all add: ipc_send_def same_table_def)

lemma yields_fs_then:
  assumes "same_table s0 s" and "\<And>x s'. same_table s0 s' \<Longrightarrow> yields Q (f x s')"
  shows "yields Q (kbind (with_fs m s) f)"
  by (rule yields_bind [OF yields_fs_table]) (blast intro: assms same_table_trans)

lemma other_requests:
  "yields (\<lambda>_ s'. same_table s s') (serve_set_size w rq s)" "yields (\<lambda>_ s'. same_table s s') (serve_map w rq s)"
  "yields (\<lambda>_ s'. same_table s s') (serve_close w rq s)" "yields (\<lambda>_ s'. same_table s s') (serve_remove w rq s)"
  "yields (\<lambda>_ s'. same_table s s') (serve_dirty w rq s)" "yields (\<lambda>_ s'. same_table s s') (serve_sync w s)"
proof -
  have put: "same_table s u \<Longrightarrow> same_table s (put_fd i k x u)" for i k x u
    by (simp add: same_table_def put_fd_def)
  show "yields (\<lambda>_ s'. same_table s s') (serve_set_size w rq s)"
    by (auto simp: serve_set_size_def the_file_def put split: prod.split option.split intro!: yields_send yields_fs_then [of s])
  show "yields (\<lambda>_ s'. same_table s s') (serve_map w rq s)"
    by (auto simp: serve_map_def entry_get_block_def Let_def split: prod.split option.split
        intro!: yields_send yields_fs_then [of s])
  show "yields (\<lambda>_ s'. same_table s s') (serve_close w rq s)"
    by (auto simp: serve_close_def the_file_def split: prod.split option.split intro!: yields_send yields_fs_then [of s])
  show "yields (\<lambda>_ s'. same_table s s') (serve_remove w rq s)"
    by (auto simp: serve_remove_def intro!: yields_send yields_fs_then [of s])
  show "yields (\<lambda>_ s'. same_table s s') (serve_dirty w rq s)"
    by (auto simp: serve_dirty_def split: prod.split option.split intro!: yields_send yields_fs_then [of s])
  show "yields (\<lambda>_ s'. same_table s s') (serve_sync w s)"
    by (auto simp: serve_sync_def intro!: yields_send yields_fs_then [of s])
qed

section \<open>Opening a file\<close>

text \<open>
  From \<open>s\<close> to \<open>s'\<close> at most entry \<open>j\<close>, which no client had mapped, has been taken: it has a new identifier.
\<close>

definition took :: "nat \<Rightarrow> serv \<Rightarrow> serv \<Rightarrow> bool" where
  "took j s s' \<longleftrightarrow> j < MAXOPEN \<and> fd_ref s j < 2 \<and> fd_ref s' = (fd_ref s)(j := 1)
     \<and> (\<forall>i. i \<noteq> j \<longrightarrow> opentab s' i = opentab s i) \<and> o_fileid (opentab s' j) = o_fileid (opentab s j) + of_nat MAXOPEN"

lemma openfile_loop_spec:
  assumes "set is \<subseteq> {..<MAXOPEN}"
  shows "yields (\<lambda>(r, o') s'. case o' of None \<Rightarrow> same_table s s' | Some j \<Rightarrow> took j s s') (openfile_loop is s)"
  using assms
proof (induction "is")
  case (Cons i "is")
  then show ?case
    by (auto simp: same_table_def took_def Let_def)
qed simp

text \<open>The same for a whole request: the entry is shared with a client only after its file has been set.\<close>

definition opened :: "nat \<Rightarrow> serv \<Rightarrow> serv \<Rightarrow> bool" where
  "opened j s s' \<longleftrightarrow> j < MAXOPEN \<and> fd_ref s j < 2
     \<and> (\<exists>n. fd_ref s' = (fd_ref s)(j := n) \<and> (2 \<le> n \<longrightarrow> o_file (opentab s' j) \<noteq> None))
     \<and> (\<forall>i. i \<noteq> j \<longrightarrow> opentab s' i = opentab s i) \<and> o_fileid (opentab s' j) = o_fileid (opentab s j) + of_nat MAXOPEN"

lemma took_opened: "took j s s' \<Longrightarrow> opened j s s'"
  by (auto simp: took_def opened_def)

lemma copy_file_table: "yields (\<lambda>_ s'. same_table s s') (copy_file i f s)"
  unfolding copy_file_def
proof (rule yields_kfor)
  fix k t
  assume "same_table s t"
  then show "yields (\<lambda>_. same_table s) (kbind (on_fs (fld f k) t) (\<lambda>w s. Ok () (put_fd i (fd_file_file + k) w s)))"
    by (rule yields_fs_then) (simp add: same_table_def put_fd_def)
qed simp

lemma fill_fd_spec: "took j s t \<Longrightarrow> yields (\<lambda>_ s'. opened j s s') (fill_fd w rq j f t)"
  unfolding fill_fd_def Let_def
  by (rule yields_bind [OF copy_file_table]) (auto simp: ipc_send_def same_table_def opened_def took_def put_fd_def)

lemma serve_open_spec: "yields (\<lambda>_ s'. same_table s s' \<or> (\<exists>j. opened j s s')) (serve_open w rq s)"
proof -
  let ?Q = "\<lambda>_ s'. same_table s s' \<or> (\<exists>j. opened j s s')"
  let ?P = "\<lambda>o' s'. case o' of None \<Rightarrow> same_table s s' | Some j \<Rightarrow> took j s s'"
  have fail: "yields ?Q (ipc_send w r No_page t)" if "?P o' t" for r o' t
    using that took_opened by (auto simp: ipc_send_def same_table_def opened_def took_def split: option.splits)
  have fill: "yields ?Q (fill_fd w rq j f t)" if "took j s t" for j f t
    by (rule yields_mono [OF fill_fd_spec [OF that]]) blast
  have table: "?P o' u" if "?P o' t" "same_table t u" for o' t u
    using that by (auto simp: same_table_def took_def split: option.splits)
  have "yields (\<lambda>(r, o') s'. ?P o' s') (openfile_alloc s)"
    unfolding openfile_alloc_def by (rule openfile_loop_spec) auto
  then show ?thesis
    unfolding serve_open_def Let_def
  proof (rule yields_bind, clarsimp, intro conjI impI)
    fix r o' t
    assume P: "?P o' t"
    then show "yields ?Q (ipc_send w r No_page t)"
      by (rule fail)
    show "yields ?Q (kbind (on_fs (file_open (req_path rq)) t) (\<lambda>(r, f) s.
           if r < 0 then ipc_send w r No_page s
           else case o' of None \<Rightarrow> Panic ''uninitialised pointer''
             | Some i \<Rightarrow> case f of None \<Rightarrow> Panic ''uninitialised pointer'' | Some f \<Rightarrow> fill_fd w rq i f s))"
    proof (rule yields_bind [OF yields_fs_table])
      fix x u
      assume "same_table t u"
      then have P': "?P o' u"
        by (rule table [OF P])
      then show "yields ?Q ((\<lambda>(r, f) s. if r < 0 then ipc_send w r No_page s
           else case o' of None \<Rightarrow> Panic ''uninitialised pointer''
             | Some i \<Rightarrow> case f of None \<Rightarrow> Panic ''uninitialised pointer'' | Some f \<Rightarrow> fill_fd w rq i f s) x u)"
        using fail [OF P'] fill by (auto split: prod.split option.splits)
    qed
  qed
qed

lemma serve_request_spec:
  assumes "serve_request req w perm rq s = Ok () s'"
  shows "same_table s s' \<or> (\<exists>j. opened j s s')"
proof -
  have "yields (\<lambda>_ s'. same_table s s' \<or> (\<exists>j. opened j s s')) (serve_request req w perm rq s)"
  proof -
    have "yields (\<lambda>_ s'. same_table s s' \<or> (\<exists>j. opened j s s')) m" if "yields (\<lambda>_ s'. same_table s s') m" for m
      by (rule yields_mono [OF that]) simp
    note other = other_requests [THEN this]
    show ?thesis
      by (simp add: serve_request_def serve_open_spec other)
  qed
  with assms show ?thesis
    by (simp add: yields_def)
qed

section \<open>The server and its clients\<close>

text \<open>
  A step of the system: the server answers a request, or a client that has an open file shares its page, unmaps it or
  writes to it, writes to a block of a file it has mapped, or environments come and go.
\<close>

inductive serv_step :: "serv \<Rightarrow> serv \<Rightarrow> bool" where
  request: "serve_request req whom perm rq s = Ok () s' \<Longrightarrow> serv_step s s'"
| share: "2 \<le> fd_ref s i \<Longrightarrow> serv_step s (s\<lparr>fd_ref := (fd_ref s)(i := fd_ref s i + 1)\<rparr>)"
| unmap: "2 \<le> fd_ref s i \<Longrightarrow> serv_step s (s\<lparr>fd_ref := (fd_ref s)(i := fd_ref s i - 1)\<rparr>)"
| write_fd: "2 \<le> fd_ref s i \<Longrightarrow> serv_step s (s\<lparr>fd_word := (fd_word s)(i := ws)\<rparr>)"
| write_file: "mapped (sfs s) b \<Longrightarrow> serv_step s (s\<lparr>sfs := (sfs s)\<lparr>blk := (blk (sfs s))(b := ws)\<rparr>\<rparr>)"
| environments: "serv_step s (s\<lparr>alive := a\<rparr>)"

text \<open>The states the server can reach after its initialisation.\<close>

inductive serving :: "serv \<Rightarrow> bool" where
  start: "(\<And>i. fd_ref s i = 0) \<Longrightarrow> serving (serve_init s)"
| step: "serving s \<Longrightarrow> serv_step s s' \<Longrightarrow> serving s'"

text \<open>Runs during which some client keeps the page of entry \<open>i\<close> mapped.\<close>

inductive holding :: "nat \<Rightarrow> serv \<Rightarrow> serv \<Rightarrow> bool" where
  refl: "2 \<le> fd_ref s i \<Longrightarrow> holding i s s"
| step: "holding i s t \<Longrightarrow> serv_step t u \<Longrightarrow> 2 \<le> fd_ref u i \<Longrightarrow> holding i s u"

definition table_ok :: "serv \<Rightarrow> bool" where
  "table_ok s \<longleftrightarrow> (\<forall>i < MAXOPEN. unat (o_fileid (opentab s i)) mod MAXOPEN = i)
     \<and> (\<forall>i. 2 \<le> fd_ref s i \<longrightarrow> i < MAXOPEN \<and> o_file (opentab s i) \<noteq> None)"

lemma fileid_next: "unat (x + of_nat MAXOPEN) mod MAXOPEN = unat x mod MAXOPEN" for x :: u32
  by (simp add: unat_word_ariths MAXOPEN_def mod_mod_cancel)

lemma opened_other: "opened j s s' \<Longrightarrow> 2 \<le> fd_ref s i \<Longrightarrow> opentab s' i = opentab s i"
  by (cases "i = j") (auto simp: opened_def)

lemma opened_table:
  assumes "opened j s s'" and "table_ok s"
  shows "table_ok s'"
  unfolding table_ok_def
proof (intro conjI allI impI)
  show "unat (o_fileid (opentab s' i)) mod MAXOPEN = i" if "i < MAXOPEN" for i
    using assms that by (cases "i = j") (simp_all add: opened_def table_ok_def fileid_next)
  show "i < MAXOPEN" "o_file (opentab s' i) \<noteq> None" if "2 \<le> fd_ref s' i" for i
    using assms that by (cases "i = j"; auto simp: opened_def table_ok_def)+
qed

lemma step_table: "serv_step s s' \<Longrightarrow> table_ok s \<Longrightarrow> table_ok s'"
proof (induction rule: serv_step.induct)
  case (request req whom perm rq s s')
  from serve_request_spec [OF request(1)] show ?case
  proof
    assume "same_table s s'"
    with request(2) show ?thesis
      by (simp add: same_table_def table_ok_def)
  next
    assume "\<exists>j. opened j s s'"
    with request(2) show ?thesis
      using opened_table by blast
  qed
qed (auto simp: table_ok_def)

lemma serving_table: "serving s \<Longrightarrow> table_ok s"
proof (induction rule: serving.induct)
  case (start s)
  then show ?case
    by (auto simp: table_ok_def serve_init_def unat_of_nat MAXOPEN_def)
qed (rule step_table)

lemma step_holds: "serv_step s s' \<Longrightarrow> 2 \<le> fd_ref s i \<Longrightarrow> opentab s' i = opentab s i"
proof (induction rule: serv_step.induct)
  case (request req whom perm rq s s')
  then show ?case
    using serve_request_spec [OF request(1)] opened_other by (auto simp: same_table_def)
qed simp_all

lemma holding_held: "holding i s t \<Longrightarrow> 2 \<le> fd_ref t i \<and> opentab t i = opentab s i"
  by (induction rule: holding.induct) (use step_holds in auto)

section \<open>An example\<close>

text \<open>A server on the example file system, and a request with an empty path, which names the root directory.\<close>

definition serv_example :: serv where
  "serv_example = serve_init \<lparr>sfs = fs_example, opentab = (\<lambda>_. \<lparr>o_fileid = 0, o_file = None, o_mode = 0\<rparr>), fd_ref = (\<lambda>_. 0),
     fd_word = (\<lambda>_ _. 0), alive = (\<lambda>_. True), replies = []\<rparr>"

lemma copy_file_ok:
  assumes "mapped (sfs s) (fst f)"
  shows "\<exists>ws. copy_file i f s = Ok () (s\<lparr>fd_word := ws\<rparr>)"
proof -
  let ?I = "\<lambda>k t. \<exists>ws. t = s\<lparr>fd_word := ws\<rparr>"
  have "returns (\<lambda>_ t. ?I 64 t) (\<lambda>_. False) (copy_file i f s)"
    unfolding copy_file_def
  proof (rule returns_kfor_upt [where I = ?I])
    show "\<exists>ws. s = s\<lparr>fd_word := ws\<rparr>"
      by (rule exI [of _ "fd_word s"]) simp
    show "returns (\<lambda>_ t. \<exists>ws. t = s\<lparr>fd_word := ws\<rparr>) (\<lambda>_. False)
        (kbind (on_fs (fld f k) t) (\<lambda>w s. Ok () (put_fd i (fd_file_file + k) w s)))" if "\<exists>ws. t = s\<lparr>fd_word := ws\<rparr>" for k t
      using that assms by (auto simp: fld_def ldw_def put_fd_def)
  qed
  then show ?thesis
    by (cases "copy_file i f s") auto
qed

lemma root_opened: "\<exists>s'. serve_request FSREQ_OPEN 0x1001 7 (\<lambda>_. 0) serv_example = Ok () s' \<and> fd_ref s' 0 = 2 \<and> o_fileid (opentab s' 0) = 1024"
proof -
  define s where "s = serv_example\<lparr>sfs := fs_example\<lparr>asked := 1\<rparr>, fd_ref := (\<lambda>_. 0)(0 := 1),
     opentab := (opentab serv_example)(0 := \<lparr>o_fileid = 1024, o_file = None, o_mode = 0\<rparr>), fd_word := (\<lambda>_ _. 0)(0 := \<lambda>_. 0)\<rparr>"
  have alloc: "openfile_alloc serv_example = Ok (1024, Some 0) s"
  proof -
    have loop: "[0..<MAXOPEN] = 0 # [Suc 0..<MAXOPEN]"
      by (rule upt_conv_Cons) (simp add: MAXOPEN_def)
    show ?thesis
      unfolding openfile_alloc_def loop by (simp add: s_def serv_example_def serve_init_def fs_example_def Let_def MAXOPEN_def)
  qed
  have "takeWhile (\<lambda>c. c \<noteq> 0) (map (\<lambda>_. 0 :: u8) xs) = []" for xs :: "nat list"
    by (cases xs) simp_all
  then have path: "req_path (\<lambda>_. 0) = []" "req_omode (\<lambda>_. 0) = 0"
    unfolding req_path_def req_omode_def req_word_def by simp_all
  have root: "on_fs (file_open []) s = Ok (0, Some s_root) s"
    by (simp add: file_open_def walk_path_def skip_slash_def walk_loop.simps [of "[]"] s_def)
  have "mapped (sfs (s\<lparr>opentab := t\<rparr>)) (fst s_root)" for t
    by (simp add: s_def s_root_def)
  then obtain ws where ws: "copy_file 0 s_root (s\<lparr>opentab := (opentab s)(0 := (opentab s 0)\<lparr>o_file := Some s_root\<rparr>)\<rparr>)
      = Ok () (s\<lparr>opentab := (opentab s)(0 := (opentab s 0)\<lparr>o_file := Some s_root\<rparr>), fd_word := ws\<rparr>)"
    using copy_file_ok [of "s\<lparr>opentab := (opentab s)(0 := (opentab s 0)\<lparr>o_file := Some s_root\<rparr>)\<rparr>" s_root 0] by auto
  have "alive s 0x1001"
    by (simp add: s_def serv_example_def serve_init_def)
  then show ?thesis
    using alloc path root ws
    by (simp add: serve_request_def serve_open_def fill_fd_def ipc_send_def put_fd_def Let_def FSREQ_OPEN_def PTE_P_def) (simp add: s_def)
qed

section \<open>Properties of the server\<close>

text \<open>
  C4. As long as some client keeps the page of an open file mapped, whatever requests the server answers and whatever
  the clients do, the identifier of the file names the same entry with the same file and mode, and the entry has a
  file; and no two open files have the same identifier.
\<close>

theorem open_files_stable:
  assumes "serving s" and "holding i s t"
  shows "openfile_lookup (o_fileid (opentab s i)) t = (0, Some i) \<and> opentab t i = opentab s i
    \<and> o_file (opentab t i) \<noteq> None \<and> (\<forall>j. 2 \<le> fd_ref t j \<longrightarrow> o_fileid (opentab t j) = o_fileid (opentab t i) \<longrightarrow> j = i)"
proof -
  have "serving t"
    using assms(2,1) by (induction rule: holding.induct) (auto intro: serving.step)
  then have t: "table_ok t"
    by (rule serving_table)
  have h: "2 \<le> fd_ref t i" "opentab t i = opentab s i"
    using holding_held [OF assms(2)] by simp_all
  then have "i < MAXOPEN" "o_file (opentab t i) \<noteq> None" "unat (o_fileid (opentab t i)) mod MAXOPEN = i"
    using t by (auto simp: table_ok_def)
  then show ?thesis
    using h t unfolding openfile_lookup_def table_ok_def by (auto simp: Let_def)
qed

theorem open_files_stable_witness:
  "\<exists>s. serving s \<and> holding 0 s s \<and> openfile_lookup 1024 s = (0, Some 0)"
proof -
  obtain s where s: "serve_request FSREQ_OPEN 0x1001 7 (\<lambda>_. 0) serv_example = Ok () s" "fd_ref s 0 = 2" "o_fileid (opentab s 0) = 1024"
    using root_opened by blast
  have "serving serv_example"
    unfolding serv_example_def by (rule serving.start) simp
  then have "serving s"
    by (rule serving.step [OF _ serv_step.request [OF s(1)]])
  moreover have "holding 0 s s"
    by (rule holding.refl) (simp add: s(2))
  ultimately show ?thesis
    using open_files_stable [of s 0 s] s(3) by auto
qed

text \<open>
  C40. A request to close an identifier that has never been handed out is not refused: the table entry is unused, the
  check compares its page count with 1 only, and the server faults on the null pointer of the entry.
\<close>

theorem unopened_close_faults:
  assumes "fd_ref s i = 0" and "o_file (opentab s i) = None" and "i < MAXOPEN" and "o_fileid (opentab s i) = of_nat i"
    and "req_fileid rq = of_nat i" and "perm AND PTE_P \<noteq> 0"
  shows "serve_request FSREQ_CLOSE whom perm rq s = Panic ''page fault''"
  using assms by (simp add: serve_request_def serve_close_def openfile_lookup_def the_file_def const_defs unat_of_nat Let_def)

theorem unopened_close_faults_witness:
  "serve_request FSREQ_CLOSE 0x1001 7 (\<lambda>k. if k = 0 then 3 else 0) serv_example = Panic ''page fault''"
  by (rule unopened_close_faults [of _ 3]) (simp_all add: serv_example_def serve_init_def MAXOPEN_def req_fileid_def req_word_def PTE_P_def)

end
