(* ===== verification/Pipe.thy ===== *)
theory Pipe
  imports Prelude "HOL-Library.Signed_Division" "HOL-Library.Sublist"
begin

text \<open>
  Pipes, \<^verbatim>\<open>lib/pipe.c\<close>: a reader in \<^verbatim>\<open>piperead\<close> and a writer in \<^verbatim>\<open>pipewrite\<close> share a ring of 32 bytes without a lock. Each of
  them is a small program with a program counter, whose steps are the accesses to the shared page in the order of
  the source; the steps of both interleave in any way, as preemption allows. Since nothing but the order of the accesses
  protects the ring, the safety of a pipe is the invariant of this step relation.

  The page counts that \<^verbatim>\<open>_pipeisclosed\<close> compares are those of the descriptor pages of the two ends, \<open>fd0\<close> and \<open>fd1\<close>, and of the
  shared page, \<open>data\<close>. Closing and copying an end take two steps: \<^verbatim>\<open>pipeclose\<close> unmaps the descriptor first and \<^verbatim>\<open>dup\<close> maps the
  shared page first, \<open>pend\<close> counts those that are between their steps; \<^verbatim>\<open>fork\<close> copies in the order of the addresses, the
  descriptor first, and \<open>lag0\<close> and \<open>lag1\<close> count the copies of each end that have no shared page yet; nobody uses such a copy. \<open>got\<close> and \<open>sent\<close> record all bytes that were read and written.
\<close>

section \<open>The ring\<close>

definition PIPEBUFSIZ :: int where [const_defs]: "PIPEBUFSIZ = 32"

record pipe =
  p_rpos :: u32
  p_wpos :: u32
  p_buf :: "u8 list"

text \<open>The index \<^verbatim>\<open>pos % PIPEBUFSIZ\<close> of a signed position: \<open>None\<close> when it is negative.\<close>

definition ring_index :: "u32 \<Rightarrow> nat option" where
  "ring_index pos = (let r = sint pos smod PIPEBUFSIZ in if r < 0 then None else Some (nat r))"

definition pipe_empty :: "pipe \<Rightarrow> bool" where
  "pipe_empty p \<longleftrightarrow> p_rpos p = p_wpos p"

definition pipe_full :: "pipe \<Rightarrow> bool" where
  "pipe_full p \<longleftrightarrow> p_wpos p \<ge> p_rpos p + 32"

definition pipestat_size :: "pipe \<Rightarrow> u32" where
  "pipestat_size p = p_wpos p - p_rpos p"

section \<open>Reader and writer\<close>

datatype rpc = R_for | R_while | R_closed | R_take | R_inc | R_return nat
datatype wpc = W_for | W_while | W_closed | W_store | W_inc | W_return nat

record psys =
  ring :: pipe
  fd0 :: nat
  fd1 :: nat
  data :: nat
  pend :: nat
  lag0 :: nat
  lag1 :: nat
  r_pc :: rpc
  r_n :: nat
  r_i :: nat
  r_buf :: "u8 list"
  w_pc :: wpc
  w_buf :: "u8 list"
  w_i :: nat
  got :: "u8 list"
  sent :: "u8 list"

text \<open>\<^verbatim>\<open>_pipeisclosed\<close> for an end whose descriptor page has \<open>n\<close> references; the two counts are read without preemption.\<close>

definition pipeisclosed :: "nat \<Rightarrow> psys \<Rightarrow> bool" where
  "pipeisclosed n s \<longleftrightarrow> n = data s"

text \<open>One step of \<^verbatim>\<open>piperead\<close>; \<open>None\<close> for an access outside the ring, and when the call has returned.\<close>

definition piperead :: "psys \<Rightarrow> psys option" where
  "piperead s =
     (case r_pc s of
        R_for \<Rightarrow> Some (if r_i s < r_n s then s\<lparr>r_pc := R_while\<rparr> else s\<lparr>r_pc := R_return (r_i s)\<rparr>)
      | R_while \<Rightarrow>
          Some (if pipe_empty (ring s)
                then if r_i s > 0 then s\<lparr>r_pc := R_return (r_i s)\<rparr> else s\<lparr>r_pc := R_closed\<rparr>
                else s\<lparr>r_pc := R_take\<rparr>)
      | R_closed \<Rightarrow> Some (if pipeisclosed (fd0 s) s then s\<lparr>r_pc := R_return 0\<rparr> else s\<lparr>r_pc := R_while\<rparr>)
      | R_take \<Rightarrow>
          map_option (\<lambda>k. s\<lparr>r_buf := r_buf s @ [p_buf (ring s) ! k], r_pc := R_inc\<rparr>) (ring_index (p_rpos (ring s)))
      | R_inc \<Rightarrow>
          Some (s\<lparr>ring := (ring s)\<lparr>p_rpos := p_rpos (ring s) + 1\<rparr>, r_i := r_i s + 1, r_pc := R_for, got := got s @ [last (r_buf s)]\<rparr>)
      | R_return _ \<Rightarrow> None)"

definition pipewrite :: "psys \<Rightarrow> psys option" where
  "pipewrite s =
     (case w_pc s of
        W_for \<Rightarrow> Some (if w_i s < length (w_buf s) then s\<lparr>w_pc := W_while\<rparr> else s\<lparr>w_pc := W_return (w_i s)\<rparr>)
      | W_while \<Rightarrow> Some (if pipe_full (ring s) then s\<lparr>w_pc := W_closed\<rparr> else s\<lparr>w_pc := W_store\<rparr>)
      | W_closed \<Rightarrow> Some (if pipeisclosed (fd1 s) s then s\<lparr>w_pc := W_return 0\<rparr> else s\<lparr>w_pc := W_while\<rparr>)
      | W_store \<Rightarrow>
          map_option (\<lambda>k. s\<lparr>ring := (ring s)\<lparr>p_buf := (p_buf (ring s))[k := w_buf s ! w_i s]\<rparr>, w_pc := W_inc\<rparr>)
            (ring_index (p_wpos (ring s)))
      | W_inc \<Rightarrow>
          Some (s\<lparr>ring := (ring s)\<lparr>p_wpos := p_wpos (ring s) + 1\<rparr>, w_i := w_i s + 1, w_pc := W_for, sent := sent s @ [w_buf s ! w_i s]\<rparr>)
      | W_return _ \<Rightarrow> None)"

text \<open>
  The steps of the system. Each end may make a new call when the last one has returned. An end is closed, duplicated
  by \<^verbatim>\<open>dup\<close> and copied by \<^verbatim>\<open>fork\<close> in two steps each.
\<close>

inductive pipe_step :: "psys \<Rightarrow> psys \<Rightarrow> bool" where
  reader: "piperead s = Some s' \<Longrightarrow> lag0 s < fd0 s \<Longrightarrow> pipe_step s s'"
| writer: "pipewrite s = Some s' \<Longrightarrow> lag1 s < fd1 s \<Longrightarrow> pipe_step s s'"
| read_call: "r_pc s = R_return k \<Longrightarrow> pipe_step s (s\<lparr>r_pc := R_for, r_n := n, r_i := 0, r_buf := []\<rparr>)"
| write_call: "w_pc s = W_return k \<Longrightarrow> pipe_step s (s\<lparr>w_pc := W_for, w_buf := bs, w_i := 0\<rparr>)"
| close_fd0: "lag0 s < fd0 s \<Longrightarrow> pipe_step s (s\<lparr>fd0 := fd0 s - 1, pend := pend s + 1\<rparr>)"
| close_fd1: "lag1 s < fd1 s \<Longrightarrow> pipe_step s (s\<lparr>fd1 := fd1 s - 1, pend := pend s + 1\<rparr>)"
| close_data: "0 < pend s \<Longrightarrow> pipe_step s (s\<lparr>data := data s - 1, pend := pend s - 1\<rparr>)"
| dup_data: "lag0 s < fd0 s \<or> lag1 s < fd1 s \<Longrightarrow> pipe_step s (s\<lparr>data := data s + 1, pend := pend s + 1\<rparr>)"
| dup_fd0: "0 < pend s \<Longrightarrow> lag0 s < fd0 s \<Longrightarrow> pipe_step s (s\<lparr>fd0 := fd0 s + 1, pend := pend s - 1\<rparr>)"
| dup_fd1: "0 < pend s \<Longrightarrow> lag1 s < fd1 s \<Longrightarrow> pipe_step s (s\<lparr>fd1 := fd1 s + 1, pend := pend s - 1\<rparr>)"
| fork_fd0: "lag0 s < fd0 s \<Longrightarrow> pipe_step s (s\<lparr>fd0 := fd0 s + 1, lag0 := lag0 s + 1\<rparr>)"
| fork_fd1: "lag1 s < fd1 s \<Longrightarrow> pipe_step s (s\<lparr>fd1 := fd1 s + 1, lag1 := lag1 s + 1\<rparr>)"
| fork_data0: "0 < lag0 s \<Longrightarrow> pipe_step s (s\<lparr>data := data s + 1, lag0 := lag0 s - 1\<rparr>)"
| fork_data1: "0 < lag1 s \<Longrightarrow> pipe_step s (s\<lparr>data := data s + 1, lag1 := lag1 s - 1\<rparr>)"

text \<open>A new pipe: one descriptor for each end, an empty ring, and no call in progress.\<close>

definition new_pipe :: psys where
  "new_pipe = \<lparr>ring = \<lparr>p_rpos = 0, p_wpos = 0, p_buf = replicate 32 0\<rparr>, fd0 = 1, fd1 = 1, data = 2, pend = 0, lag0 = 0, lag1 = 0,
     r_pc = R_return 0, r_n = 0, r_i = 0, r_buf = [], w_pc = W_return 0, w_buf = [], w_i = 0, got = [], sent = []\<rparr>"

inductive piping :: "psys \<Rightarrow> bool" where
  start: "piping new_pipe"
| step: "piping s \<Longrightarrow> pipe_step s s' \<Longrightarrow> piping s'"

section \<open>The invariant\<close>

lemma smod_nonneg: "0 \<le> a \<Longrightarrow> (a::int) smod 32 = a mod 32"
  by (cases "a = 0") (simp_all add: signed_modulo_int_def sgn_if)

lemma ring_index_small: "unat pos < 2 ^ 31 \<Longrightarrow> ring_index pos = Some (unat pos mod 32)"
  by (simp add: ring_index_def PIPEBUFSIZ_def sint_eq_unat smod_nonneg Let_def nat_mod_distrib)

definition ring_inv :: "psys \<Rightarrow> bool" where
  "ring_inv s \<longleftrightarrow>
     unat (p_rpos (ring s)) = length (got s) \<and> unat (p_wpos (ring s)) = length (sent s) \<and>
     length (p_buf (ring s)) = 32 \<and>
     prefix (got s) (sent s) \<and> length (got s) \<le> length (sent s) \<and> length (sent s) \<le> length (got s) + 32 \<and>
     (\<forall>k. length (got s) \<le> k \<longrightarrow> k < length (sent s) \<longrightarrow> p_buf (ring s) ! (k mod 32) = sent s ! k)"

definition reader_inv :: "psys \<Rightarrow> bool" where
  "reader_inv s \<longleftrightarrow>
     r_i s \<le> r_n s \<and>
     (case r_pc s of
        R_for \<Rightarrow> length (r_buf s) = r_i s \<and> suffix (r_buf s) (got s)
      | R_while \<Rightarrow> length (r_buf s) = r_i s \<and> suffix (r_buf s) (got s) \<and> r_i s < r_n s
      | R_closed \<Rightarrow> r_buf s = [] \<and> r_i s = 0 \<and> r_i s < r_n s
      | R_take \<Rightarrow> length (r_buf s) = r_i s \<and> suffix (r_buf s) (got s) \<and> r_i s < r_n s \<and> length (got s) < length (sent s)
      | R_inc \<Rightarrow> length (r_buf s) = r_i s + 1 \<and> suffix (butlast (r_buf s)) (got s) \<and> r_i s < r_n s \<and>
          length (got s) < length (sent s) \<and> last (r_buf s) = sent s ! length (got s)
      | R_return k \<Rightarrow> length (r_buf s) = k \<and> k = r_i s \<and> suffix (r_buf s) (got s))"

definition writer_inv :: "psys \<Rightarrow> bool" where
  "writer_inv s \<longleftrightarrow>
     w_i s \<le> length (w_buf s) \<and> suffix (take (w_i s) (w_buf s)) (sent s) \<and>
     (case w_pc s of
        W_for \<Rightarrow> True
      | W_while \<Rightarrow> w_i s < length (w_buf s)
      | W_closed \<Rightarrow> w_i s < length (w_buf s)
      | W_store \<Rightarrow> w_i s < length (w_buf s) \<and> length (sent s) < length (got s) + 32
      | W_inc \<Rightarrow> w_i s < length (w_buf s) \<and> length (sent s) < length (got s) + 32 \<and>
          p_buf (ring s) ! (length (sent s) mod 32) = w_buf s ! w_i s
      | W_return k \<Rightarrow> k \<noteq> 0 \<longrightarrow> k = w_i s)"

lemmas pipe_inv_defs = ring_inv_def reader_inv_def writer_inv_def

definition pipe_inv :: "psys \<Rightarrow> bool" where
  "pipe_inv s \<longleftrightarrow> ring_inv s \<and> reader_inv s \<and> writer_inv s"

lemma pipe_empty_iff: "ring_inv s \<Longrightarrow> pipe_empty (ring s) \<longleftrightarrow> length (got s) = length (sent s)"
  by (auto simp: pipe_empty_def ring_inv_def word_unat_eq_iff)

lemma pipe_full_iff:
  assumes "ring_inv s" "length (sent s) < 2 ^ 31"
  shows "pipe_full (ring s) \<longleftrightarrow> length (got s) + 32 \<le> length (sent s)"
proof -
  have "unat (p_rpos (ring s)) + 32 < 2 ^ 32"
    using assms by (simp add: ring_inv_def)
  then have "unat (p_rpos (ring s) + 32) = length (got s) + 32"
    using assms by (subst unat_add_lem [THEN iffD1]) (simp_all add: ring_inv_def)
  then show ?thesis
    using assms by (simp add: pipe_full_def word_le_nat_alt ring_inv_def)
qed

text \<open>Bytes at different positions within 32 of each other are at different places of the ring.\<close>

lemma ring_distinct: "j < k \<Longrightarrow> k < j + 32 \<Longrightarrow> k mod 32 \<noteq> j mod (32::nat)"
  using mod_eq_dvd_iff_nat [of j k 32] by (auto dest: dvd_imp_le)

lemma unat_next:
  assumes "unat (w::u32) = n" "n < 2 ^ 31"
  shows "unat (w + 1) = n + 1"
  using assms by (subst unat_add_lem [THEN iffD1]) simp_all

lemma prefix_next: "prefix xs ys \<Longrightarrow> length xs < length ys \<Longrightarrow> prefix (xs @ [ys ! length xs]) ys"
  by (auto simp: prefix_def nth_append neq_Nil_conv)

lemma suffix_next: "xs \<noteq> [] \<Longrightarrow> suffix (butlast xs) ys \<Longrightarrow> suffix xs (ys @ [last xs])"
  by (cases xs rule: rev_cases) simp_all

text \<open>What one end relies on when the other moves: the reader only adds to \<open>got\<close>, the writer only to \<open>sent\<close>.\<close>

lemma writer_inv_frame:
  assumes "writer_inv s" "w_pc s' = w_pc s" "w_buf s' = w_buf s" "w_i s' = w_i s" "sent s' = sent s"
    "p_buf (ring s') = p_buf (ring s)" "length (got s) \<le> length (got s')"
  shows "writer_inv s'"
proof (cases "w_pc s")
qed (use assms in \<open>simp_all add: writer_inv_def\<close>)

lemma reader_inv_frame:
  assumes "reader_inv s" "r_pc s' = r_pc s" "r_n s' = r_n s" "r_i s' = r_i s" "r_buf s' = r_buf s" "got s' = got s"
    "sent s' = sent s @ bs"
  shows "reader_inv s'"
proof (cases "r_pc s")
qed (use assms in \<open>simp_all add: reader_inv_def nth_append\<close>)

lemma ring_inv_frame:
  assumes "ring_inv s" "ring s' = ring s" "got s' = got s" "sent s' = sent s"
  shows "ring_inv s'"
  using assms(1) by (simp add: ring_inv_def assms(2-4))

lemma piperead_ring:
  assumes inv: "ring_inv s" "reader_inv s" and step: "piperead s = Some s'" and bound: "length (sent s) < 2 ^ 31"
  shows "ring_inv s'"
proof (cases "r_pc s = R_inc")
  case True
  then have s': "ring s' = (ring s)\<lparr>p_rpos := p_rpos (ring s) + 1\<rparr>" "got s' = got s @ [sent s ! length (got s)]" "sent s' = sent s"
    using step inv(2) by (auto simp: piperead_def reader_inv_def)
  have lt: "length (got s) < length (sent s)"
    using True inv(2) by (simp add: reader_inv_def)
  have "unat (p_rpos (ring s) + 1) = length (got s) + 1"
    by (rule unat_next) (use inv(1) lt bound in \<open>simp_all add: ring_inv_def\<close>)
  moreover have "prefix (got s @ [sent s ! length (got s)]) (sent s)"
    by (rule prefix_next) (use inv(1) lt in \<open>simp_all add: ring_inv_def\<close>)
  ultimately show ?thesis
    using inv(1) lt by (simp add: ring_inv_def s')
next
  case False
  show ?thesis
    by (rule ring_inv_frame [OF inv(1)]) (use False step in \<open>auto simp: piperead_def split: rpc.splits if_splits\<close>)
qed

lemma piperead_reader:
  assumes inv: "ring_inv s" "reader_inv s" and step: "piperead s = Some s'" and bound: "length (sent s) < 2 ^ 31"
  shows "reader_inv s'"
proof (cases "r_pc s")
  case R_while
  then show ?thesis
    using inv step pipe_empty_iff [OF inv(1)] by (auto simp: ring_inv_def reader_inv_def piperead_def split: if_splits)
next
  case R_take
  have "ring_index (p_rpos (ring s)) = Some (length (got s) mod 32)"
    using inv(1) bound ring_index_small [of "p_rpos (ring s)"] by (simp add: ring_inv_def)
  then show ?thesis
    using R_take inv step by (auto simp: reader_inv_def ring_inv_def piperead_def)
next
  case R_inc
  have "suffix (r_buf s) (got s @ [last (r_buf s)])"
    by (rule suffix_next) (use inv(2) R_inc in \<open>auto simp: reader_inv_def\<close>)
  then show ?thesis
    using R_inc inv(2) step by (auto simp: reader_inv_def piperead_def)
qed (use inv(2) step in \<open>auto simp: reader_inv_def piperead_def split: if_splits\<close>)

lemma piperead_writer:
  assumes "writer_inv s" "piperead s = Some s'"
  shows "writer_inv s'"
  by (rule writer_inv_frame [OF assms(1)]) (use assms(2) in \<open>auto simp: piperead_def split: rpc.splits if_splits\<close>)

lemma pipewrite_store:
  assumes "ring_inv s" "length (sent s) < 2 ^ 31"
  shows "ring_index (p_wpos (ring s)) = Some (length (sent s) mod 32)"
  using assms ring_index_small [of "p_wpos (ring s)"] by (simp add: ring_inv_def)

lemma pipewrite_ring:
  assumes inv: "ring_inv s" "writer_inv s" and step: "pipewrite s = Some s'" and bound: "length (sent s) < 2 ^ 31"
  shows "ring_inv s'"
proof (cases "w_pc s")
  case W_store
  then have s': "ring s' = (ring s)\<lparr>p_buf := (p_buf (ring s))[length (sent s) mod 32 := w_buf s ! w_i s]\<rparr>" "got s' = got s" "sent s' = sent s"
    using step pipewrite_store [OF inv(1) bound] by (auto simp: pipewrite_def)
  have "length (sent s) mod 32 \<noteq> k mod 32" if "length (got s) \<le> k" "k < length (sent s)" for k
    by (rule ring_distinct) (use that inv(2) W_store in \<open>simp_all add: writer_inv_def\<close>)
  then show ?thesis
    using inv(1) by (simp add: ring_inv_def s')
next
  case W_inc
  then have s': "ring s' = (ring s)\<lparr>p_wpos := p_wpos (ring s) + 1\<rparr>" "got s' = got s" "sent s' = sent s @ [w_buf s ! w_i s]"
    using step by (auto simp: pipewrite_def)
  have "unat (p_wpos (ring s) + 1) = length (sent s) + 1"
    by (rule unat_next) (use inv(1) bound in \<open>simp_all add: ring_inv_def\<close>)
  then show ?thesis
    using inv W_inc by (auto simp: ring_inv_def writer_inv_def s' nth_append less_Suc_eq intro: prefix_prefix)
qed (rule ring_inv_frame [OF inv(1)], use step in \<open>auto simp: pipewrite_def split: if_splits\<close>)+

lemma pipewrite_writer:
  assumes inv: "ring_inv s" "writer_inv s" and step: "pipewrite s = Some s'" and bound: "length (sent s) < 2 ^ 31"
  shows "writer_inv s'"
proof (cases "w_pc s")
  case W_while
  then show ?thesis
    using inv(2) step pipe_full_iff [OF inv(1) bound] by (auto simp: writer_inv_def pipewrite_def split: if_splits)
next
  case W_store
  then show ?thesis
    using inv step pipewrite_store [OF inv(1) bound] by (auto simp: writer_inv_def ring_inv_def pipewrite_def)
next
  case W_inc
  then have "suffix (take (w_i s + 1) (w_buf s)) (sent s @ [w_buf s ! w_i s])"
    using inv(2) by (simp add: writer_inv_def take_Suc_conv_app_nth)
  then show ?thesis
    using W_inc inv(2) step by (auto simp: writer_inv_def pipewrite_def)
qed (use inv(2) step in \<open>auto simp: writer_inv_def pipewrite_def split: if_splits\<close>)

lemma pipewrite_reader:
  assumes "reader_inv s" "pipewrite s = Some s'"
  shows "reader_inv s'"
  by (rule reader_inv_frame [OF assms(1), where bs = "drop (length (sent s)) (sent s')"])
    (use assms(2) in \<open>auto simp: pipewrite_def split: wpc.splits if_splits\<close>)

lemma pipe_step_sent: "pipe_step s s' \<Longrightarrow> length (sent s) \<le> length (sent s')"
  by (induction rule: pipe_step.induct) (auto simp: piperead_def pipewrite_def split: rpc.splits wpc.splits if_splits)

lemma pipe_step_inv:
  assumes "pipe_step s s'" "pipe_inv s" "length (sent s) < 2 ^ 31"
  shows "pipe_inv s'"
  using assms
proof (induction rule: pipe_step.induct)
  case (reader s s')
  then show ?case
    unfolding pipe_inv_def using piperead_ring piperead_reader piperead_writer by blast
next
  case (writer s s')
  then show ?case
    unfolding pipe_inv_def using pipewrite_ring pipewrite_writer pipewrite_reader by blast
next
  case (read_call s k n)
  then show ?case
    using ring_inv_frame [of s] writer_inv_frame [of s] by (auto simp: pipe_inv_def reader_inv_def)
next
  case (write_call s k bs)
  then show ?case
    using ring_inv_frame [of s] reader_inv_frame [of s _ "[]"] by (auto simp: pipe_inv_def writer_inv_def)
qed (auto simp: pipe_inv_def intro: ring_inv_frame reader_inv_frame [where bs = "[]"] writer_inv_frame)

lemma piping_inv: "piping s \<Longrightarrow> length (sent s) < 2 ^ 31 \<Longrightarrow> pipe_inv s"
proof (induction rule: piping.induct)
  case start
  then show ?case
    by (simp add: pipe_inv_def pipe_inv_defs new_pipe_def)
next
  case (step s s')
  then show ?case
    using pipe_step_sent [OF step.hyps(2)] pipe_step_inv by simp
qed

text \<open>The counts: the shared page has one reference for each descriptor, up to the operations in progress.\<close>

lemma piping_refs: "piping s \<Longrightarrow> data s + lag0 s + lag1 s = fd0 s + fd1 s + pend s \<and> lag0 s \<le> fd0 s \<and> lag1 s \<le> fd1 s"
proof (induction rule: piping.induct)
  case (step s s')
  from step.hyps(2) step.IH show ?case
    by (induction rule: pipe_step.induct) (auto simp: piperead_def pipewrite_def split: rpc.splits wpc.splits if_splits)
qed (simp add: new_pipe_def)

text \<open>Schedules: the step relation, run on a list of actions.\<close>

datatype pact = A_read | A_write | A_read_call nat | A_write_call "u8 list" | A_close1 | A_unmap | A_fork0 | A_copy0

fun pipe_act :: "pact \<Rightarrow> psys \<Rightarrow> psys option" where
  "pipe_act A_read s = (if lag0 s < fd0 s then piperead s else None)"
| "pipe_act A_write s = (if lag1 s < fd1 s then pipewrite s else None)"
| "pipe_act (A_read_call n) s =
     (case r_pc s of R_return _ \<Rightarrow> Some (s\<lparr>r_pc := R_for, r_n := n, r_i := 0, r_buf := []\<rparr>) | _ \<Rightarrow> None)"
| "pipe_act (A_write_call bs) s =
     (case w_pc s of W_return _ \<Rightarrow> Some (s\<lparr>w_pc := W_for, w_buf := bs, w_i := 0\<rparr>) | _ \<Rightarrow> None)"
| "pipe_act A_close1 s = (if lag1 s < fd1 s then Some (s\<lparr>fd1 := fd1 s - 1, pend := pend s + 1\<rparr>) else None)"
| "pipe_act A_unmap s = (if 0 < pend s then Some (s\<lparr>data := data s - 1, pend := pend s - 1\<rparr>) else None)"
| "pipe_act A_fork0 s = (if lag0 s < fd0 s then Some (s\<lparr>fd0 := fd0 s + 1, lag0 := lag0 s + 1\<rparr>) else None)"
| "pipe_act A_copy0 s = (if 0 < lag0 s then Some (s\<lparr>data := data s + 1, lag0 := lag0 s - 1\<rparr>) else None)"

fun pipe_run :: "pact list \<Rightarrow> psys \<Rightarrow> psys option" where
  "pipe_run [] s = Some s"
| "pipe_run (a # as) s = (case pipe_act a s of None \<Rightarrow> None | Some s' \<Rightarrow> pipe_run as s')"

lemma pipe_act_step: "pipe_act a s = Some s' \<Longrightarrow> pipe_step s s'"
proof (cases a)
qed (auto simp del: One_nat_def add_0_right add_Suc_right intro: pipe_step.intros split: if_splits rpc.splits wpc.splits)

lemma pipe_run_piping: "pipe_run as s = Some s' \<Longrightarrow> piping s \<Longrightarrow> piping s'"
  by (induction as arbitrary: s) (auto dest: pipe_act_step piping.step split: option.splits)

lemmas pipe_eval = piperead_def pipewrite_def pipe_empty_def pipe_full_def pipeisclosed_def ring_index_small word_le_nat_alt new_pipe_def

definition pipe_example :: psys where
  "pipe_example = the (pipe_run [A_write_call [7, 9], A_write, A_read_call 4, A_read, A_write, A_read, A_write, A_write,
     A_write, A_write, A_write, A_write, A_read, A_read, A_read, A_read, A_read] new_pipe)"

definition eof_race :: psys where
  "eof_race = the (pipe_run [A_read_call 4, A_read, A_read, A_write_call [7], A_write, A_write, A_write, A_write, A_write,
     A_close1, A_unmap, A_read] new_pipe)"

definition fork_race :: psys where
  "fork_race = the (pipe_run [A_fork0, A_copy0, A_read_call 4, A_read, A_read, A_fork0, A_read] new_pipe)"

lemma pipe_example_run:
  "pipe_run [A_write_call [7, 9], A_write, A_read_call 4, A_read, A_write, A_read, A_write, A_write,
     A_write, A_write, A_write, A_write, A_read, A_read, A_read, A_read, A_read] new_pipe = Some pipe_example"
  by (simp add: pipe_example_def pipe_eval)

lemma eof_race_run:
  "pipe_run [A_read_call 4, A_read, A_read, A_write_call [7], A_write, A_write, A_write, A_write, A_write,
     A_close1, A_unmap, A_read] new_pipe = Some eof_race"
  by (simp add: eof_race_def pipe_eval)

lemma fork_race_run: "pipe_run [A_fork0, A_copy0, A_read_call 4, A_read, A_read, A_fork0, A_read] new_pipe = Some fork_race"
  by (simp add: fork_race_def pipe_eval)

section \<open>What a pipe promises\<close>

text \<open>
  C5. In every state that a reader and a writer reach on a pipe, with any interleaving of their steps and of closing, duplicating and
  forking, as long as less than 2^31 bytes were written: the bytes read are a prefix of the bytes written, at most 32 bytes are in the
  ring, both ends can access the ring at their positions, a finished \<^verbatim>\<open>piperead\<close> returns the number of bytes that it put
  into its buffer, at most as many as were asked for and the last that were read, and the size that \<^verbatim>\<open>pipestat\<close> reports is the number of unread bytes.
\<close>

theorem pipe_fifo:
  assumes "piping s" "length (sent s) < 2 ^ 31"
  shows "prefix (got s) (sent s) \<and> length (sent s) \<le> length (got s) + 32 \<and>
    (\<forall>k. r_pc s \<noteq> R_return k) = (piperead s \<noteq> None) \<and> (\<forall>k. w_pc s \<noteq> W_return k) = (pipewrite s \<noteq> None) \<and>
    (\<forall>k. r_pc s = R_return k \<longrightarrow> k \<le> r_n s \<and> length (r_buf s) = k \<and> suffix (r_buf s) (got s)) \<and>
    unat (pipestat_size (ring s)) = length (sent s) - length (got s)"
proof -
  have inv: "ring_inv s" "reader_inv s" "writer_inv s"
    using piping_inv [OF assms] by (simp_all add: pipe_inv_def)
  have ring: "prefix (got s) (sent s)" "length (got s) \<le> length (sent s)" "length (sent s) \<le> length (got s) + 32"
    "unat (p_rpos (ring s)) = length (got s)" "unat (p_wpos (ring s)) = length (sent s)"
    using inv(1) by (simp_all add: ring_inv_def)
  have idx: "ring_index (p_rpos (ring s)) \<noteq> None" "ring_index (p_wpos (ring s)) \<noteq> None"
    using ring assms(2) ring_index_small by auto
  have "(\<forall>k. r_pc s \<noteq> R_return k) = (piperead s \<noteq> None)"
    using idx by (auto simp: piperead_def split: rpc.splits)
  moreover have "(\<forall>k. w_pc s \<noteq> W_return k) = (pipewrite s \<noteq> None)"
    using idx by (auto simp: pipewrite_def split: wpc.splits)
  moreover have "\<forall>k. r_pc s = R_return k \<longrightarrow> k \<le> r_n s \<and> length (r_buf s) = k \<and> suffix (r_buf s) (got s)"
    using inv(2) by (auto simp: reader_inv_def)
  moreover have "unat (pipestat_size (ring s)) = length (sent s) - length (got s)"
    using ring by (simp add: pipestat_size_def unat_sub word_le_nat_alt)
  ultimately show ?thesis
    using ring by blast
qed

theorem pipe_fifo_witness:
  "piping pipe_example \<and> sent pipe_example = [7, 9] \<and> length (got pipe_example) = 1 \<and> prefix (got pipe_example) [7, 9]"
proof -
  have run: "piping pipe_example"
    using pipe_run_piping [OF pipe_example_run] piping.start by simp
  have ex: "sent pipe_example = [7, 9]" "length (got pipe_example) = 1"
    by (simp_all add: pipe_example_def pipe_eval)
  show ?thesis
    using pipe_fifo [OF run] run ex by simp
qed



text \<open>
  C39. A reader can be told that a pipe has ended when it has not. \<^verbatim>\<open>piperead\<close> looks whether the ring is empty before it looks whether
  the writers are gone: when a writer stores its bytes and closes its end in between, \<^verbatim>\<open>piperead\<close> returns 0 with bytes left in the ring. And
  \<^verbatim>\<open>fork\<close>, which copies the descriptor before the shared page, makes \<^verbatim>\<open>piperead\<close> of another environment return 0 while the writer is open.
\<close>

theorem pipe_false_eof:
  "(\<exists>s. piping s \<and> r_pc s = R_return 0 \<and> 0 < r_n s \<and> got s \<noteq> sent s \<and> lag0 s = 0 \<and> lag1 s = 0) \<and>
   (\<exists>s. piping s \<and> r_pc s = R_return 0 \<and> 0 < r_n s \<and> 0 < fd1 s)"
proof
  have "piping eof_race"
    using pipe_run_piping [OF eof_race_run] piping.start by simp
  moreover have "r_pc eof_race = R_return 0" "0 < r_n eof_race" "got eof_race \<noteq> sent eof_race" "lag0 eof_race = 0" "lag1 eof_race = 0"
    by (simp_all add: eof_race_def pipe_eval)
  ultimately show "\<exists>s. piping s \<and> r_pc s = R_return 0 \<and> 0 < r_n s \<and> got s \<noteq> sent s \<and> lag0 s = 0 \<and> lag1 s = 0"
    by blast
next
  have "piping fork_race"
    using pipe_run_piping [OF fork_race_run] piping.start by simp
  moreover have "r_pc fork_race = R_return 0" "0 < r_n fork_race" "0 < fd1 fork_race"
    by (simp_all add: fork_race_def pipe_eval)
  ultimately show "\<exists>s. piping s \<and> r_pc s = R_return 0 \<and> 0 < r_n s \<and> 0 < fd1 s"
    by blast
qed

end
