(* ===== verification/Chksum.thy ===== *)
theory Chksum
  imports Prelude
begin

unbundle bit_operations_syntax

text \<open>
  The Internet checksum of the network stack, \<^verbatim>\<open>net/lwip/core/ipv4/inet_chksum.c\<close>, with the byte order functions of
  \<^verbatim>\<open>inet.c\<close>: the three versions of \<^verbatim>\<open>lwip_standard_chksum\<close> (the build selects the first), and the functions over one buffer, over a
  chain of packet buffers, and with the pseudo header of TCP and UDP. A buffer is the list of its bytes; versions 2 and 3 also depend on its
  address. All are compared with one arithmetic definition, the sum of the 16-bit words in ones' complement.
\<close>

section \<open>Byte order\<close>

definition htons :: "u16 \<Rightarrow> u16" where
  "htons n = push_bit 8 (n AND 0xff) OR drop_bit 8 (n AND 0xff00)"

definition htonl :: "u32 \<Rightarrow> u32" where
  "htonl n = push_bit 24 (n AND 0xff) OR push_bit 8 (n AND 0xff00) OR drop_bit 8 (n AND 0xff0000) OR drop_bit 24 (n AND 0xff000000)"

definition SWAP_BYTES_IN_WORD :: "u32 \<Rightarrow> u32" where
  "SWAP_BYTES_IN_WORD w = push_bit 8 (w AND 0xff) OR drop_bit 8 (w AND 0xff00)"

definition FOLD_U32T :: "u32 \<Rightarrow> u32" where
  "FOLD_U32T u = drop_bit 16 u + (u AND 0xffff)"

section \<open>The versions of the sum\<close>

fun chksum1_loop :: "u32 \<Rightarrow> u8 list \<Rightarrow> u32" where
  "chksum1_loop acc (a # b # bs) = chksum1_loop (acc + ucast (push_bit 8 (ucast a) OR ucast b :: u16)) bs"
| "chksum1_loop acc [a] = acc + ucast (push_bit 8 (ucast a) :: u16)"
| "chksum1_loop acc [] = acc"

definition lwip_standard_chksum :: "u8 list \<Rightarrow> u16" where
  "lwip_standard_chksum bs =
     (let acc = chksum1_loop 0 bs;
          acc = drop_bit 16 acc + (acc AND 0xffff);
          acc = (if acc AND 0xffff0000 \<noteq> 0 then drop_bit 16 acc + (acc AND 0xffff) else acc)
      in htons (ucast acc))"

text \<open>
  Versions 2 and 3 read words in the order of the processor. \<open>t\<close> is the word of the end bytes: its high byte is the first byte of
  a buffer at an odd address, its low byte the last one that is left over.
\<close>

definition ld16 :: "u8 \<Rightarrow> u8 \<Rightarrow> u32" where
  "ld16 a b = ucast a OR push_bit 8 (ucast b)"

definition ld32le :: "u8 \<Rightarrow> u8 \<Rightarrow> u8 \<Rightarrow> u8 \<Rightarrow> u32" where
  "ld32le a b c d = ld16 a b OR push_bit 16 (ld16 c d)"

fun halfwords_loop :: "u32 \<Rightarrow> u8 list \<Rightarrow> u32 \<times> u8 list" where
  "halfwords_loop acc (a # b # bs) = halfwords_loop (acc + ld16 a b) bs"
| "halfwords_loop acc bs = (acc, bs)"

definition head_byte :: "bool \<Rightarrow> u8 list \<Rightarrow> u32 \<times> u8 list" where
  "head_byte od bs = (case bs of b # bs' \<Rightarrow> if od then (push_bit 8 (ucast b), bs') else (0, bs) | [] \<Rightarrow> (0, bs))"

definition tail_byte :: "u32 \<Rightarrow> u8 list \<Rightarrow> u32" where
  "tail_byte t bs = (case bs of b # _ \<Rightarrow> t OR ucast b | [] \<Rightarrow> t)"

definition fold_and_swap :: "bool \<Rightarrow> u32 \<Rightarrow> u16" where
  "fold_and_swap od acc =
     (let acc = FOLD_U32T (FOLD_U32T acc) in ucast (if od then SWAP_BYTES_IN_WORD acc else acc))"

definition lwip_standard_chksum2 :: "u32 \<Rightarrow> u8 list \<Rightarrow> u16" where
  "lwip_standard_chksum2 pb bs =
     (let od = (pb AND 1 \<noteq> 0);
          (t, bs) = head_byte od bs;
          (acc, bs) = halfwords_loop 0 bs
      in fold_and_swap od (acc + tail_byte t bs))"

definition add_carry :: "u32 \<Rightarrow> u32 \<Rightarrow> u32" where
  "add_carry acc w = (let tmp = acc + w in if tmp < acc then tmp + 1 else tmp)"

definition align4 :: "u32 \<Rightarrow> u8 list \<Rightarrow> u32 \<times> u8 list" where
  "align4 ps bs = (case bs of a # b # bs1 \<Rightarrow> if ps AND 3 \<noteq> 0 then (ld16 a b, bs1) else (0, bs) | _ \<Rightarrow> (0, bs))"

fun words_loop :: "u32 \<Rightarrow> u8 list \<Rightarrow> u32 \<times> u8 list" where
  "words_loop acc (a # b # c # d # e # f # g # h # bs) =
     words_loop (add_carry (add_carry acc (ld32le a b c d)) (ld32le e f g h)) bs"
| "words_loop acc bs = (acc, bs)"

definition lwip_standard_chksum3 :: "u32 \<Rightarrow> u8 list \<Rightarrow> u16" where
  "lwip_standard_chksum3 pb bs =
     (let od = (pb AND 1 \<noteq> 0);
          ps = (if od \<and> bs \<noteq> [] then pb + 1 else pb);
          (t, bs') = head_byte od bs;
          (acc, bs) = align4 ps bs';
          (acc, bs) = words_loop acc bs;
          (acc, bs) = halfwords_loop (FOLD_U32T acc) bs
      in fold_and_swap od (acc + tail_byte t bs))"

section \<open>The checksums\<close>

definition inet_chksum :: "u8 list \<Rightarrow> u16" where
  "inet_chksum bs = NOT (lwip_standard_chksum bs)"

text \<open>A chain of packet buffers is the list of their payloads. The loop carries the sum and \<^verbatim>\<open>swapped\<close>.\<close>

definition chain_step :: "u8 list \<Rightarrow> u32 \<times> bool \<Rightarrow> u32 \<times> bool" where
  "chain_step q = (\<lambda>(acc, swapped).
     let acc = FOLD_U32T (acc + ucast (lwip_standard_chksum q))
     in if odd (length q) then (SWAP_BYTES_IN_WORD acc, \<not> swapped) else (acc, swapped))"

definition chain_sum :: "u8 list list \<Rightarrow> u32" where
  "chain_sum p = (let (acc, swapped) = fold chain_step p (0, False) in if swapped then SWAP_BYTES_IN_WORD acc else acc)"

definition inet_chksum_pbuf :: "u8 list list \<Rightarrow> u16" where
  "inet_chksum_pbuf p = ucast (NOT (chain_sum p AND 0xffff))"

definition pseudo_header :: "u32 \<Rightarrow> u32 \<Rightarrow> u32 \<Rightarrow> u8 \<Rightarrow> u16 \<Rightarrow> u32" where
  "pseudo_header acc src dest proto proto_len =
     (let acc = acc + (src AND 0xffff);
          acc = acc + (drop_bit 16 src AND 0xffff);
          acc = acc + (dest AND 0xffff);
          acc = acc + (drop_bit 16 dest AND 0xffff);
          acc = acc + ucast (htons (ucast proto));
          acc = acc + ucast (htons proto_len)
      in FOLD_U32T (FOLD_U32T acc))"

definition inet_chksum_pseudo :: "u8 list list \<Rightarrow> u32 \<Rightarrow> u32 \<Rightarrow> u8 \<Rightarrow> u16 \<Rightarrow> u16" where
  "inet_chksum_pseudo p src dest proto proto_len =
     ucast (NOT (pseudo_header (chain_sum p) src dest proto proto_len AND 0xffff))"

text \<open>The part of a chain: \<open>None\<close> when the assertion of the source fails.\<close>

fun partial_loop :: "u8 list list \<Rightarrow> u16 \<Rightarrow> u32 \<times> bool \<Rightarrow> (u32 \<times> bool) option" where
  "partial_loop [] n s = Some s"
| "partial_loop (q # qs) n s =
     (if n = 0 then Some s
      else let chklen = (if of_nat (length q) > n then n else of_nat (length q));
               (acc, swapped) = s;
               acc = acc + ucast (lwip_standard_chksum (take (unat chklen) q));
               n = n - chklen
           in if n \<ge> 0x7fff then None
              else let acc = FOLD_U32T acc
                   in partial_loop qs n (if odd (length q) then (SWAP_BYTES_IN_WORD acc, \<not> swapped) else (acc, swapped)))"

definition inet_chksum_pseudo_partial :: "u8 list list \<Rightarrow> u32 \<Rightarrow> u32 \<Rightarrow> u8 \<Rightarrow> u16 \<Rightarrow> u16 \<Rightarrow> u16 option" where
  "inet_chksum_pseudo_partial p src dest proto proto_len chksum_len =
     map_option (\<lambda>(acc, swapped).
         ucast (NOT (pseudo_header (if swapped then SWAP_BYTES_IN_WORD acc else acc) src dest proto proto_len AND 0xffff)))
       (partial_loop p chksum_len (0, False))"

section \<open>Ones' complement arithmetic\<close>

text \<open>The representative of a sum: 0 only for 0, and otherwise a number from 1 to \<open>m\<close>; in ones' complement \<open>m\<close> is 65535.\<close>

definition rep :: "nat \<Rightarrow> nat \<Rightarrow> nat" where
  "rep m n = (if n = 0 then 0 else (n - 1) mod m + 1)"

abbreviation oc :: "nat \<Rightarrow> nat" where
  "oc \<equiv> rep 65535"

fun le_sum :: "u8 list \<Rightarrow> nat" where
  "le_sum (a # b # bs) = unat a + 256 * unat b + le_sum bs"
| "le_sum [a] = unat a"
| "le_sum [] = 0"

fun be_sum :: "u8 list \<Rightarrow> nat" where
  "be_sum (a # b # bs) = 256 * unat a + unat b + be_sum bs"
| "be_sum [a] = 256 * unat a"
| "be_sum [] = 0"

lemma rep_le: "0 < m \<Longrightarrow> rep m n \<le> m"
  by (simp add: rep_def Suc_le_eq)

lemma rep_eq_0 [simp]: "rep m n = 0 \<longleftrightarrow> n = 0"
  by (simp add: rep_def)

lemma rep_0 [simp]: "rep m 0 = 0"
  by (simp add: rep_def)

lemma rep_small: "n \<le> m \<Longrightarrow> rep m n = n"
  by (cases n) (simp_all add: rep_def)

lemma rep_mod: "rep m n mod m = n mod m"
  by (cases n) (simp_all add: rep_def mod_Suc_eq)

lemma rep_cong: "n mod m = k mod m \<Longrightarrow> (n = 0 \<longleftrightarrow> k = 0) \<Longrightarrow> 0 < m \<Longrightarrow> rep m n = rep m k"
proof -
  assume a: "n mod m = k mod m" "n = 0 \<longleftrightarrow> k = 0" "0 < m"
  have "x = y" if "x mod m = y mod m" "x = 0 \<longleftrightarrow> y = 0" "x \<le> m" "y \<le> m" for x y
    using that by (cases "x = m"; cases "y = m") auto
  then show ?thesis
    using a rep_le rep_mod rep_eq_0 by metis
qed

lemma rep_add: "0 < m \<Longrightarrow> rep m (rep m a + b) = rep m (a + b)"
  using mod_add_cong [OF rep_mod refl] by (intro rep_cong) simp_all

lemma rep_mult: "0 < m \<Longrightarrow> 0 < k \<Longrightarrow> rep m (k * rep m a) = rep m (k * a)"
  using mod_mult_cong [OF refl rep_mod] by (intro rep_cong) simp_all

lemma rep_radix: "0 < m \<Longrightarrow> rep m (Suc m * a + b) = rep m (a + b)"
proof -
  have "(m * a + (a + b)) mod m = (a + b) mod m"
    by simp
  then show "0 < m \<Longrightarrow> ?thesis"
    by (intro rep_cong) (simp_all add: ac_simps)
qed

lemma oc_65536: "oc (65536 * a + b) = oc (a + b)"
  using rep_radix [of 65535 a b] by simp

lemmas oc_le = rep_le [of 65535, simplified]
lemmas oc_small = rep_small [of _ 65535]
lemmas oc_add = rep_add [of 65535, simplified]
lemmas oc_mult = rep_mult [of 65535, simplified]

section \<open>The word operations\<close>

lemma bit_less:
  fixes x :: nat
  assumes "bit x k" "x < 2 ^ n"
  shows "k < n"
proof (rule ccontr)
  assume "\<not> k < n"
  then have "x < 2 ^ k"
    using assms(2) power_increasing [of n k "2::nat"] by (auto simp: not_less intro: less_le_trans)
  with assms(1) show False
    by (simp add: bit_nat_def)
qed

lemma or_shift_nat: "x < 2 ^ n \<Longrightarrow> x OR push_bit n y = x + 2 ^ n * (y::nat)"
proof -
  assume "x < 2 ^ n"
  then have "x AND push_bit n y = 0"
    by (intro bit_eqI) (auto simp: bit_simps dest: bit_less)
  then show ?thesis
    by (simp add: disjunctive_add_eq_or [symmetric] push_bit_eq_mult)
qed

text \<open>Two bytes make a half word.\<close>

lemma unat_join:
  assumes "x < 2 ^ 8" "unat (v::'a::len word) = x" "unat w = y" "y < 2 ^ 8" "16 \<le> LENGTH('a)"
  shows "unat (push_bit 8 w OR v) = 256 * y + x"
proof -
  have "2 ^ 8 * y < (2::nat) ^ 16"
    using assms(4) by simp
  also have "(2::nat) ^ 16 \<le> 2 ^ LENGTH('a)"
    by (rule power_increasing [OF assms(5)]) simp
  finally have "unat (push_bit 8 w) = push_bit 8 y"
    unfolding assms(3) [symmetric] unsigned_push_bit_eq by (intro take_bit_nat_eq_self) (simp add: push_bit_eq_mult mult.commute)
  then have "unat (push_bit 8 w OR v) = x OR push_bit 8 y"
    using assms(2) by (simp add: unsigned_or_eq or.commute)
  then show ?thesis
    using or_shift_nat [OF assms(1), of y] by simp
qed

lemma low_byte: "w AND 0xff = take_bit 8 (w::'a::len word)"
  by (simp add: take_bit_eq_mask mask_eq_exp_minus_1)

lemma high_byte:
  "drop_bit 8 (w AND 0xff00) = take_bit 8 (drop_bit 8 (w::u32))"
  "drop_bit 8 (v AND 0xff00) = take_bit 8 (drop_bit 8 (v::u16))"
  by (simp_all only: drop_bit_and take_bit_eq_mask mask_eq_exp_minus_1) simp_all

lemma low_half: "w AND 0xffff = take_bit 16 (w::u32)"
  by (simp add: take_bit_eq_mask mask_eq_exp_minus_1)

lemma unat_FOLD_U32T: "unat (FOLD_U32T u) = unat u div 65536 + unat u mod 65536"
proof -
  have u: "unat u < 2 ^ 32"
    using unat_u32_less [of u] by simp
  have parts: "unat (drop_bit 16 u) = unat u div 65536" "unat (u AND 0xffff) = unat u mod 65536"
    unfolding low_half by (simp_all only: unat_drop_bit unat_take_bit) simp_all
  moreover have "unat u div 65536 < 65536"
    using u by (simp add: less_mult_imp_div_less)
  moreover have "unat u mod 65536 < 65536"
    by simp
  ultimately have "unat (drop_bit 16 u) + unat (u AND 0xffff) < 2 ^ LENGTH(32)"
    by simp
  then show ?thesis
    unfolding FOLD_U32T_def unat_add_lem using parts by simp
qed

lemma oc_FOLD: "oc (unat (FOLD_U32T u)) = oc (unat u)"
  using oc_65536 [of "unat u div 65536" "unat u mod 65536"] by (simp add: unat_FOLD_U32T)

lemma fold_small: "n \<le> 65535 + 65535 \<Longrightarrow> n div 65536 + n mod 65536 \<le> (65535::nat)"
  by (cases "n < 65536") (simp_all add: le_div_geq le_mod_geq)

lemma unat_FOLD2: "unat (FOLD_U32T (FOLD_U32T u)) = oc (unat u)"
proof -
  have u: "unat u < 2 ^ 32"
    using unat_u32_less [of u] by simp
  then have "unat u div 65536 < 65536"
    by (simp add: less_mult_imp_div_less)
  then have "unat (FOLD_U32T u) \<le> 65535 + 65535"
    unfolding unat_FOLD_U32T by (intro add_mono) simp_all
  then have "unat (FOLD_U32T (FOLD_U32T u)) \<le> 65535"
    unfolding unat_FOLD_U32T [of "FOLD_U32T u"] by (rule fold_small)
  then show ?thesis
    using oc_small oc_FOLD by metis
qed

lemma oc_256: "n \<le> 65535 \<Longrightarrow> oc (256 * n) = n div 256 + 256 * (n mod 256)"
proof -
  assume n: "n \<le> 65535"
  have "256 * n = 256 * (256 * (n div 256) + n mod 256)"
    by simp
  then have "256 * n = 65536 * (n div 256) + 256 * (n mod 256)"
    by (simp only: distrib_left mult.assoc [symmetric])
  then have "oc (256 * n) = oc (n div 256 + 256 * (n mod 256))"
    by (metis oc_65536)
  also have "\<dots> = n div 256 + 256 * (n mod 256)"
    using n by (intro oc_small) linarith
  finally show ?thesis .
qed

lemma unat_htons: "unat (htons n) = oc (256 * unat n)"
proof -
  have n: "unat n < 65536"
    using unsigned_less [of n] by simp
  have "unat (htons n) = 256 * (unat n mod 256) + unat n div 256"
    unfolding htons_def low_byte high_byte
    by (rule unat_join) (use n in \<open>simp_all add: unat_take_bit unat_drop_bit less_mult_imp_div_less\<close>)
  then show ?thesis
    using n by (simp add: oc_256)
qed

lemma unat_SWAP: "unat w \<le> 65535 \<Longrightarrow> unat (SWAP_BYTES_IN_WORD w) = oc (256 * unat w)"
proof -
  assume w: "unat w \<le> 65535"
  have "unat (SWAP_BYTES_IN_WORD w) = 256 * (unat w mod 256) + unat w div 256"
    unfolding SWAP_BYTES_IN_WORD_def low_byte high_byte
    by (rule unat_join) (use w in \<open>simp_all add: unat_take_bit unat_drop_bit less_mult_imp_div_less\<close>)
  then show ?thesis
    using w by (simp add: oc_256)
qed

lemma unat_byte: "unat (b::u8) < 256"
  using unsigned_less [of b] by simp

lemma unat_ucast8: "unat (ucast (b::u8) :: u16) = unat b" "unat (ucast (b::u8) :: u32) = unat b"
  using unat_byte [of b] by (simp_all add: unsigned_ucast_eq take_bit_nat_eq_self)

lemma unat_be16: "unat (ucast (push_bit 8 (ucast a) OR ucast b :: u16) :: u32) = 256 * unat (a::u8) + unat (b::u8)"
proof -
  have "unat (push_bit 8 (ucast a) OR ucast b :: u16) = 256 * unat a + unat b"
    by (rule unat_join) (use unat_byte [of a] unat_byte [of b] in \<open>simp_all add: unat_ucast8\<close>)
  then show ?thesis
    using unat_byte [of a] unat_byte [of b] by (simp add: unsigned_ucast_eq take_bit_nat_eq_self)
qed

lemma unat_ld16: "unat (ld16 a b) = unat a + 256 * unat b"
proof -
  have "unat (push_bit 8 (ucast b) OR ucast a :: u32) = 256 * unat b + unat a"
    by (rule unat_join) (use unat_byte [of a] unat_byte [of b] in \<open>simp_all add: unat_ucast8\<close>)
  then show ?thesis
    by (simp add: ld16_def or.commute)
qed

lemma unat_ld32le: "unat (ld32le a b c d) = unat (ld16 a b) + 65536 * unat (ld16 c d)"
proof -
  have lt: "unat (ld16 a b) < 2 ^ 16" "unat (ld16 c d) < 2 ^ 16"
    unfolding unat_ld16 using unat_byte [of a] unat_byte [of b] unat_byte [of c] unat_byte [of d] by simp_all
  then have "unat (push_bit 16 (ld16 c d)) = push_bit 16 (unat (ld16 c d))"
    unfolding unsigned_push_bit_eq by (intro take_bit_nat_eq_self) (simp add: push_bit_eq_mult)
  then have "unat (ld32le a b c d) = unat (ld16 a b) OR push_bit 16 (unat (ld16 c d))"
    by (simp only: ld32le_def unsigned_or_eq)
  then show ?thesis
    using or_shift_nat [OF lt(1)] by simp
qed

section \<open>The sums\<close>

lemma be_sum_less: "be_sum bs \<le> 65535 * ((length bs + 1) div 2)"
proof (induction bs rule: be_sum.induct)
  case (1 a b bs)
  then show ?case
    using unat_byte [of a] unat_byte [of b] by simp
next
  case (2 a)
  then show ?case
    using unat_byte [of a] by simp
qed simp

lemma le_sum_less: "le_sum bs \<le> 65535 * ((length bs + 1) div 2)"
proof (induction bs rule: le_sum.induct)
  case (1 a b bs)
  then show ?case
    using unat_byte [of a] unat_byte [of b] by simp
next
  case (2 a)
  then show ?case
    using unat_byte [of a] by simp
qed simp

lemma sums_zero: "le_sum bs = 0 \<longleftrightarrow> (\<forall>b \<in> set bs. b = 0)" "be_sum bs = 0 \<longleftrightarrow> (\<forall>b \<in> set bs. b = 0)"
  by (induction bs rule: le_sum.induct) (auto simp: unat_eq_0)

lemma oc_le_be: "oc (256 * be_sum bs) = oc (le_sum bs)"
proof (rule rep_cong)
  show "256 * be_sum bs mod 65535 = le_sum bs mod 65535"
  proof (induction bs rule: le_sum.induct)
    case (1 a b bs)
    have "256 * be_sum (a # b # bs) = 65535 * unat a + (unat a + 256 * unat b + 256 * be_sum bs)"
      by simp
    also have "\<dots> mod 65535 = (unat a + 256 * unat b + 256 * be_sum bs) mod 65535"
      by (rule mod_mult_self4)
    also have "\<dots> = le_sum (a # b # bs) mod 65535"
      using mod_add_cong [OF refl 1] by simp
    finally show ?case .
  next
    case (2 a)
    have "256 * be_sum [a] = 65535 * unat a + unat a"
      by simp
    then show ?case
      by (metis le_sum.simps(2) mod_mult_self4)
  qed simp
qed (simp_all add: sums_zero)

lemma unat_add_below: "unat a + unat b < 2 ^ 32 \<Longrightarrow> unat (a + b :: u32) = unat a + unat b"
  using unat_add_lem [of a b] by simp

lemma unat_ucast16: "unat (w::u32) \<le> 65535 \<Longrightarrow> unat (ucast w :: u16) = unat w"
  by (simp add: unsigned_ucast_eq take_bit_nat_eq_self)

lemma unat_ucast32: "unat (ucast (w::u16) :: u32) = unat w"
proof -
  have "unat w < 2 ^ 16"
    using unsigned_less [of w] by simp
  then show ?thesis
    by (simp add: unsigned_ucast_eq take_bit_nat_eq_self)
qed

lemma FOLD_small: "acc AND 0xffff0000 = 0 \<Longrightarrow> FOLD_U32T acc = acc"
proof -
  assume "acc AND 0xffff0000 = 0"
  then have "take_bit 16 (drop_bit 16 acc) = 0"
    using drop_bit_and [of 16 acc "0xffff0000"] by (simp add: take_bit_eq_mask mask_eq_exp_minus_1)
  then have "unat (take_bit 16 (drop_bit 16 acc)) = 0"
    by (simp only: unsigned_0)
  then have "unat acc div 2 ^ 16 mod 2 ^ 16 = 0"
    by (simp only: unat_take_bit unat_drop_bit)
  moreover have "unat acc div 65536 < 65536"
    using unat_u32_less [of acc] by (simp add: less_mult_imp_div_less)
  ultimately have "unat acc < 65536"
    by (simp add: div_eq_0_iff)
  then have "unat (FOLD_U32T acc) = unat acc"
    unfolding unat_FOLD_U32T by simp
  then show ?thesis
    by (rule unsigned_word_eqI)
qed

lemma chksum1_loop_eq: "unat acc + be_sum bs < 2 ^ 32 \<Longrightarrow> unat (chksum1_loop acc bs) = unat acc + be_sum bs"
proof (induction acc bs rule: chksum1_loop.induct)
  case (1 acc a b bs)
  have "unat (acc + ucast (push_bit 8 (ucast a) OR ucast b :: u16)) = unat acc + (256 * unat a + unat b)"
    using 1(2) unat_add_below [of acc "ucast (push_bit 8 (ucast a) OR ucast b :: u16)"] by (simp add: unat_be16)
  then show ?case
    using 1 by simp
next
  case (2 acc a)
  have "unat (ucast (push_bit 8 (ucast a) :: u16) :: u32) = 256 * unat a"
    using unat_be16 [of a 0] by simp
  then show ?case
    using 2 unat_add_below [of acc "ucast (push_bit 8 (ucast a) :: u16)"] by simp
qed simp

lemma sum_bound:
  assumes "length bs < 65536"
  shows "be_sum bs < 2 ^ 31" "le_sum bs < 2 ^ 31"
proof -
  have "(length bs + 1) div 2 \<le> 32768"
    using assms by simp
  then have "65535 * ((length bs + 1) div 2) \<le> 65535 * 32768"
    by (rule mult_le_mono2)
  then show "be_sum bs < 2 ^ 31" "le_sum bs < 2 ^ 31"
    using be_sum_less [of bs] le_sum_less [of bs] by simp_all
qed

lemma chksum1_eq: "length bs < 65536 \<Longrightarrow> unat (lwip_standard_chksum bs) = oc (le_sum bs)"
proof -
  assume len: "length bs < 65536"
  define acc where "acc = FOLD_U32T (chksum1_loop 0 bs)"
  have "(if acc AND 0xffff0000 \<noteq> 0 then FOLD_U32T acc else acc) = FOLD_U32T acc"
    using FOLD_small by simp
  then have "lwip_standard_chksum bs = htons (ucast (FOLD_U32T (FOLD_U32T (chksum1_loop 0 bs))))"
    by (simp add: lwip_standard_chksum_def acc_def FOLD_U32T_def Let_def cong: if_cong)
  moreover have "unat (FOLD_U32T (FOLD_U32T (chksum1_loop 0 bs))) = oc (be_sum bs)"
    using chksum1_loop_eq [of 0 bs] sum_bound [OF len] by (simp add: unat_FOLD2)
  ultimately have "unat (lwip_standard_chksum bs) = oc (256 * oc (be_sum bs))"
    using oc_le [of "be_sum bs"] by (simp add: unat_htons unat_ucast16)
  then show ?thesis
    by (simp only: oc_mult [of 256, simplified] oc_le_be)
qed

text \<open>Version 2.\<close>

lemma halfwords_loop_eq:
  assumes "unat acc + le_sum bs < 2 ^ 32"
  obtains acc' bs' where "halfwords_loop acc bs = (acc', bs')" "unat acc' + le_sum bs' = unat acc + le_sum bs" "length bs' \<le> 1"
proof -
  have "\<exists>acc' bs'. halfwords_loop acc bs = (acc', bs') \<and> unat acc' + le_sum bs' = unat acc + le_sum bs \<and> length bs' \<le> 1"
    using assms
  proof (induction acc bs rule: halfwords_loop.induct)
    case (1 acc a b bs)
    have "unat (acc + ld16 a b) = unat acc + (unat a + 256 * unat b)"
      using 1(2) unat_add_below [of acc "ld16 a b"] by (simp add: unat_ld16)
    then show ?case
      using 1 by (simp add: add.assoc)
  qed simp_all
  then show ?thesis
    using that by blast
qed

lemma shifted_sums: "be_sum (b # bs) = 256 * unat b + le_sum bs" "le_sum (b # bs) = unat b + be_sum bs"
proof (induction bs arbitrary: b)
  case (Cons c bs)
  case 1
  show ?case
    using Cons(2) [of c] by simp
next
  case (Cons c bs)
  case 2
  show ?case
    using Cons(1) [of c] by simp
qed simp_all

lemma unat_tail_byte:
  assumes "length bs \<le> 1"
  shows "unat (tail_byte (push_bit 8 (ucast x)) bs) = 256 * unat (x::u8) + le_sum bs"
proof -
  have join: "unat (push_bit 8 (ucast x) OR ucast b :: u32) = 256 * unat x + unat (b::u8)" for b
    by (rule unat_join) (use unat_byte [of x] unat_byte [of b] in \<open>simp_all add: unat_ucast8\<close>)
  show ?thesis
    using assms join [of 0] by (cases bs) (simp_all add: tail_byte_def join del: push_bit_numeral)
qed

lemma fold_and_swap_eq: "unat (fold_and_swap od acc) = oc (if od then 256 * unat acc else unat acc)"
  using oc_le [of "unat acc"] oc_le [of "256 * unat acc"]
  by (simp add: fold_and_swap_def Let_def unat_ucast16 unat_FOLD2 unat_SWAP oc_mult)

text \<open>
  The common end of versions 2 and 3: what is left after the head byte is summed up, in any way that agrees with the sum in ones' complement, and
  swapped when the head byte was read.
\<close>

lemma end_sum:
  assumes "head_byte od bs = (t, bs1)" "oc (unat acc) = oc (unat t + le_sum bs1)"
  shows "unat (fold_and_swap od acc) = oc (le_sum bs)"
proof (cases "od \<and> bs \<noteq> []")
  case True
  then have "oc (unat acc) = oc (be_sum bs)"
    using assms unat_tail_byte [of "[]"] by (cases bs) (auto simp: head_byte_def shifted_sums tail_byte_def)
  then have "oc (256 * unat acc) = oc (256 * be_sum bs)"
    using oc_mult [of 256 "unat acc"] oc_mult [of 256 "be_sum bs"] by simp
  then show ?thesis
    using True by (simp add: fold_and_swap_eq oc_le_be)
next
  case False
  then have "t = 0" "bs1 = bs"
    using assms(1) by (auto simp: head_byte_def split: list.splits if_splits)
  then show ?thesis
    using False assms(2) by (cases bs) (auto simp: fold_and_swap_eq)
qed

lemma chksum2_eq:
  assumes "length bs < 65536"
  shows "unat (lwip_standard_chksum2 pb bs) = oc (le_sum bs)"
proof -
  obtain t bs1 where head: "head_byte (pb AND 1 \<noteq> 0) bs = (t, bs1)"
    by (metis surj_pair)
  then obtain x where x: "t = push_bit 8 (ucast (x::u8))"
    by (auto simp: head_byte_def intro: that [of 0] split: list.splits if_splits)
  have len: "length bs1 \<le> length bs"
    using head by (auto simp: head_byte_def split: list.splits if_splits)
  then have bound: "le_sum bs1 < 2 ^ 31"
    using assms by (intro sum_bound) simp
  then obtain acc bs2 where loop: "halfwords_loop 0 bs1 = (acc, bs2)" "unat acc + le_sum bs2 = le_sum bs1" "length bs2 \<le> 1"
    using halfwords_loop_eq [of 0 bs1] by (auto simp del: One_nat_def)
  have "unat (acc + tail_byte t bs2) = unat t + le_sum bs1"
    using loop(2) bound unat_byte [of x] unat_tail_byte [OF loop(3), of x] unat_tail_byte [of "[]" x]
      unat_add_below [of acc "tail_byte t bs2"] by (simp add: x tail_byte_def)
  then show ?thesis
    using head loop(1) by (simp add: lwip_standard_chksum2_def Let_def end_sum [OF head])
qed

text \<open>Version 3: an addition with end-around carry is an addition in ones' complement, also in 32 bits.\<close>

lemma oc_add_carry: "oc (unat (add_carry acc w)) = oc (unat acc + unat w)"
proof (cases "unat acc + unat w < 2 ^ 32")
  case True
  then have "unat (acc + w) = unat acc + unat w"
    by (rule unat_add_below)
  then show ?thesis
    by (simp add: add_carry_def Let_def word_less_nat_alt)
next
  case False
  have lt: "unat acc < 2 ^ 32" "unat w < 2 ^ 32"
    using unat_u32_less by simp_all
  then have sum: "unat (acc + w) = unat acc + unat w - 2 ^ 32"
    using False by (simp add: unat_word_ariths mod_if)
  then have "unat (acc + w + 1) = unat acc + unat w - 2 ^ 32 + 1"
    using lt by (subst unat_add_below) simp_all
  moreover have "acc + w < acc"
    using sum lt False by (simp add: word_less_nat_alt)
  ultimately have eq: "unat (add_carry acc w) = unat acc + unat w - 2 ^ 32 + 1"
    by (simp add: add_carry_def)
  have "unat acc + unat w = 65535 * 65537 + unat (add_carry acc w)"
    using False eq by simp
  then have "(unat acc + unat w) mod 65535 = unat (add_carry acc w) mod 65535"
    by (metis mod_mult_self4)
  moreover have "unat acc + unat w \<noteq> 0"
    using False by auto
  ultimately show ?thesis
    using eq by (intro rep_cong) simp_all
qed

lemma oc_ld32le: "oc (unat (ld32le a b c d) + n) = oc (le_sum [a, b, c, d] + n)"
  using oc_65536 [of "unat (ld16 c d)" "unat (ld16 a b) + n"] by (simp add: unat_ld32le unat_ld16 ac_simps)

lemma words_loop_eq:
  obtains acc' bs' where "words_loop acc bs = (acc', bs')" "oc (unat acc' + le_sum bs') = oc (unat acc + le_sum bs)" "length bs' < 8"
proof -
  have "\<exists>acc' bs'. words_loop acc bs = (acc', bs') \<and> oc (unat acc' + le_sum bs') = oc (unat acc + le_sum bs) \<and> length bs' < 8"
  proof (induction acc bs rule: words_loop.induct)
    case (1 acc a b c d e f g h bs)
    let ?acc1 = "add_carry acc (ld32le a b c d)" and ?acc2 = "add_carry (add_carry acc (ld32le a b c d)) (ld32le e f g h)"
    have "oc (unat ?acc2 + le_sum bs) = oc (unat ?acc1 + unat (ld32le e f g h) + le_sum bs)"
      using oc_add [of "unat ?acc2" "le_sum bs"] oc_add [of "unat ?acc1 + unat (ld32le e f g h)" "le_sum bs"] by (simp only: oc_add_carry)
    also have "\<dots> = oc (unat ?acc1 + le_sum [e, f, g, h] + le_sum bs)"
      using oc_ld32le [of e f g h "unat ?acc1 + le_sum bs"] by (simp only: ac_simps)
    also have "\<dots> = oc (unat acc + unat (ld32le a b c d) + (le_sum [e, f, g, h] + le_sum bs))"
      using oc_add [of "unat ?acc1" "le_sum [e, f, g, h] + le_sum bs"] oc_add [of "unat acc + unat (ld32le a b c d)" "le_sum [e, f, g, h] + le_sum bs"]
      by (simp only: oc_add_carry add.assoc)
    also have "\<dots> = oc (unat acc + le_sum (a # b # c # d # e # f # g # h # bs))"
      using oc_ld32le [of a b c d "unat acc + (le_sum [e, f, g, h] + le_sum bs)"] by (simp add: ac_simps)
    finally show ?case
      using 1 by simp
  qed simp_all
  then show ?thesis
    using that by blast
qed

lemma align4_sum: "align4 ps bs = (acc, bs1) \<Longrightarrow> unat acc + le_sum bs1 = le_sum bs"
  by (auto simp: align4_def unat_ld16 split: list.splits if_splits)

lemma chksum3_eq: "unat (lwip_standard_chksum3 pb bs) = oc (le_sum bs)"
proof -
  define ps where "ps = (if pb AND 1 \<noteq> 0 \<and> bs \<noteq> [] then pb + 1 else pb)"
  obtain t bs1 where head: "head_byte (pb AND 1 \<noteq> 0) bs = (t, bs1)"
    by (metis surj_pair)
  then obtain x where x: "t = push_bit 8 (ucast (x::u8))"
    by (auto simp: head_byte_def intro: that [of 0] split: list.splits if_splits)
  obtain acc0 bs2 where align: "align4 ps bs1 = (acc0, bs2)"
    by (metis surj_pair)
  obtain acc1 bs3 where words: "words_loop acc0 bs2 = (acc1, bs3)" "oc (unat acc1 + le_sum bs3) = oc (unat acc0 + le_sum bs2)" "length bs3 < 8"
    by (rule words_loop_eq)
  have le3: "le_sum bs3 \<le> 65535 * 4"
    using le_sum_less [of bs3] words(3) mult_le_mono2 [of "(length bs3 + 1) div 2" 4 65535] by linarith
  have fold1: "unat (FOLD_U32T acc1) \<le> 65535 * 2"
    unfolding unat_FOLD_U32T using unat_u32_less [of acc1] less_mult_imp_div_less [of "unat acc1" 65536 65536] mod_less_divisor [of 65536 "unat acc1"] by simp
  obtain acc2 bs4 where halves: "halfwords_loop (FOLD_U32T acc1) bs3 = (acc2, bs4)"
      "unat acc2 + le_sum bs4 = unat (FOLD_U32T acc1) + le_sum bs3" "length bs4 \<le> 1"
    by (rule halfwords_loop_eq [of "FOLD_U32T acc1" bs3]) (use le3 fold1 in simp)
  have t: "unat t = 256 * unat x"
    using unat_tail_byte [of "[]" x] by (simp add: x tail_byte_def)
  have "unat (acc2 + tail_byte t bs4) = unat (FOLD_U32T acc1) + le_sum bs3 + unat t"
    using halves(2) le3 fold1 unat_byte [of x] unat_tail_byte [OF halves(3), of x] t unat_add_below [of acc2 "tail_byte t bs4"] by (simp add: x)
  also have "oc \<dots> = oc (unat acc1 + le_sum bs3 + unat t)"
    using oc_add [of "unat (FOLD_U32T acc1)" "le_sum bs3 + unat t"] oc_add [of "unat acc1" "le_sum bs3 + unat t"] by (simp only: oc_FOLD add.assoc)
  also have "\<dots> = oc (unat acc0 + le_sum bs2 + unat t)"
    using oc_add [of "unat acc1 + le_sum bs3" "unat t"] oc_add [of "unat acc0 + le_sum bs2" "unat t"] words(2) by simp
  finally have "oc (unat (acc2 + tail_byte t bs4)) = oc (unat t + le_sum bs1)"
    using align4_sum [OF align] by (simp add: add.commute)
  then show ?thesis
    using end_sum [OF head] head align words(1) halves(1)
    by (simp add: lwip_standard_chksum3_def Let_def ps_def [symmetric] align4_def [symmetric])
qed

section \<open>Chains\<close>

lemma le_sum_append: "le_sum (xs @ ys) = le_sum xs + (if odd (length xs) then be_sum ys else le_sum ys)"
  and be_sum_append: "be_sum (xs @ ys) = be_sum xs + (if odd (length xs) then le_sum ys else be_sum ys)"
  by (induction xs) (simp_all add: shifted_sums del: le_sum.simps(1,2) be_sum.simps(1,2))

lemma oc_be_le: "oc (256 * le_sum bs) = oc (be_sum bs)"
proof -
  have "oc (256 * le_sum bs) = oc (256 * (256 * be_sum bs))"
    using oc_mult [of 256 "le_sum bs"] oc_mult [of 256 "256 * be_sum bs"] by (simp only: oc_le_be)
  then show ?thesis
    using oc_65536 [of "be_sum bs" 0] by simp
qed

text \<open>The sum of the bytes so far, in the order of the bytes or swapped.\<close>

definition sum_rep :: "u8 list \<Rightarrow> u32 \<times> bool \<Rightarrow> bool" where
  "sum_rep bs = (\<lambda>(acc, swapped). unat acc = oc (if swapped then be_sum bs else le_sum bs))"

lemma sum_rep_swap: "sum_rep bs (acc, swapped) \<Longrightarrow> sum_rep bs (SWAP_BYTES_IN_WORD acc, \<not> swapped)"
  using oc_le [of "unat acc"] by (auto simp: sum_rep_def unat_SWAP rep_le oc_mult oc_be_le oc_le_be)

lemma sum_rep_add:
  assumes "sum_rep bs (acc, swapped)" "swapped = odd (length bs)" "length q < 65536"
  shows "sum_rep (bs @ q) (FOLD_U32T (acc + ucast (lwip_standard_chksum q)), swapped)"
proof -
  define total where "total = (if swapped then be_sum bs else le_sum bs)"
  have acc: "unat acc = oc total"
    using assms(1) by (simp add: sum_rep_def total_def)
  have q: "unat (ucast (lwip_standard_chksum q) :: u32) = oc (le_sum q)"
    using assms(3) by (simp add: unat_ucast32 chksum1_eq)
  have sum: "unat (acc + ucast (lwip_standard_chksum q)) = oc total + oc (le_sum q)"
    using acc q oc_le [of total] oc_le [of "le_sum q"] by (subst unat_add_below) simp_all
  then have "unat (acc + ucast (lwip_standard_chksum q)) \<le> 65535 + 65535"
    using oc_le [of total] oc_le [of "le_sum q"] by simp
  then have "unat (FOLD_U32T (acc + ucast (lwip_standard_chksum q))) \<le> 65535"
    unfolding unat_FOLD_U32T by (rule fold_small)
  then have "unat (FOLD_U32T (acc + ucast (lwip_standard_chksum q))) = oc (oc total + oc (le_sum q))"
    using oc_small oc_FOLD sum by metis
  also have "\<dots> = oc (total + le_sum q)"
    using oc_add [of "le_sum q" total] by (simp add: oc_add add.commute)
  finally show ?thesis
    using assms(2) by (simp add: sum_rep_def total_def le_sum_append be_sum_append)
qed

lemma chain_step_rep:
  assumes "sum_rep bs s" "snd s = odd (length bs)" "length q < 65536"
  shows "sum_rep (bs @ q) (chain_step q s) \<and> snd (chain_step q s) = odd (length (bs @ q))"
proof (cases s)
  case (Pair acc swapped)
  then show ?thesis
    using sum_rep_add [of bs acc swapped q] sum_rep_swap [of "bs @ q" "FOLD_U32T (acc + ucast (lwip_standard_chksum q))" swapped] assms
    by (auto simp: chain_step_def Let_def)
qed

lemma chain_fold_rep:
  assumes "sum_rep bs s" "snd s = odd (length bs)" "\<forall>q \<in> set p. length q < 65536"
  shows "sum_rep (bs @ concat p) (fold chain_step p s)"
  using assms
proof (induction p arbitrary: bs s)
  case (Cons q p)
  then show ?case
    using chain_step_rep [of bs s q] Cons.IH [of "bs @ q" "chain_step q s"] by simp
qed simp

definition unswap :: "u32 \<times> bool \<Rightarrow> u32" where
  "unswap = (\<lambda>(acc, swapped). if swapped then SWAP_BYTES_IN_WORD acc else acc)"

lemma unat_unswap: "sum_rep bs s \<Longrightarrow> unat (unswap s) = oc (le_sum bs)"
  using sum_rep_swap [of bs "fst s" "snd s"] by (cases s) (auto simp: unswap_def sum_rep_def)

lemma unat_chain_sum: "\<forall>q \<in> set p. length q < 65536 \<Longrightarrow> unat (chain_sum p) = oc (le_sum (concat p))"
  using chain_fold_rep [of "[]" "(0, False)" p] unat_unswap [of "concat p"]
  by (simp add: sum_rep_def [of "[]"] chain_sum_def unswap_def split_def Let_def)

lemma final_not: "ucast (NOT (acc AND 0xffff :: u32)) = NOT (ucast acc :: u16)"
  unfolding low_half by (rule bit_word_eqI) (auto simp: bit_simps)

lemma chksum_eqI:
  assumes "unat acc = oc (le_sum bs)" "length bs < 65536"
  shows "ucast (NOT (acc AND 0xffff :: u32)) = inet_chksum bs"
proof -
  have "unat (ucast acc :: u16) = unat (lwip_standard_chksum bs)"
    using assms oc_le [of "le_sum bs"] by (simp add: unat_ucast16 chksum1_eq)
  then have "ucast acc = lwip_standard_chksum bs"
    by (simp only: word_unat_eq_iff)
  then show ?thesis
    by (simp only: final_not inet_chksum_def)
qed

text \<open>The pseudo header as bytes: the two addresses as they are in memory, the protocol and the length.\<close>

definition bytes32 :: "u32 \<Rightarrow> u8 list" where
  "bytes32 w = [ucast w, ucast (drop_bit 8 w), ucast (drop_bit 16 w), ucast (drop_bit 24 w)]"

definition pseudo_bytes :: "u32 \<Rightarrow> u32 \<Rightarrow> u8 \<Rightarrow> u16 \<Rightarrow> u8 list" where
  "pseudo_bytes src dest proto n = bytes32 src @ bytes32 dest @ [0, proto, ucast (drop_bit 8 n), ucast n]"

lemma unat_ucast_byte: "unat (ucast (w::u32) :: u8) = unat w mod 256" "unat (ucast (n::u16) :: u8) = unat n mod 256"
  by (simp_all add: unsigned_ucast_eq take_bit_eq_mod)

lemma half_bytes: "m mod 256 + 256 * (m div 256 mod 256) = m mod (65536::nat)"
  using mod_mult2_eq [of m 256 256] by simp

lemma le_sum_bytes32: "le_sum (bytes32 w) = unat w mod 65536 + unat w div 65536"
proof -
  have "unat w div 65536 mod 256 + 256 * (unat w div 65536 div 256 mod 256) = unat w div 65536"
    using half_bytes [of "unat w div 65536"] unat_u32_less [of w] by (simp add: less_mult_imp_div_less)
  then show ?thesis
    using half_bytes [of "unat w"] by (simp add: bytes32_def unat_ucast_byte unat_drop_bit div_mult2_eq [symmetric])
qed

lemma le_sum_pseudo:
  "le_sum (pseudo_bytes src dest proto n) =
     unat src mod 65536 + unat src div 65536 + (unat dest mod 65536 + unat dest div 65536) + 256 * unat proto + oc (256 * unat n)"
proof -
  have "unat n < 65536"
    using unsigned_less [of n] by simp
  then have "oc (256 * unat n) = unat n div 256 mod 256 + 256 * (unat n mod 256)"
    by (simp add: oc_256 less_mult_imp_div_less)
  then have "le_sum [0, proto, ucast (drop_bit 8 n), ucast n] = 256 * unat proto + oc (256 * unat n)"
    by (simp add: unat_ucast_byte unat_drop_bit)
  then show ?thesis
    unfolding pseudo_bytes_def le_sum_append le_sum_bytes32 by (simp add: bytes32_def)
qed

lemma unat_sum7:
  assumes "unat a \<le> 65535" "unat b \<le> 65535" "unat c \<le> 65535" "unat d \<le> 65535" "unat e \<le> 65535" "unat f \<le> 65535" "unat g \<le> 65535"
  shows "unat (a + b + c + d + e + f + g :: u32) = unat a + unat b + unat c + unat d + unat e + unat f + unat g"
  using assms by (simp add: unat_add_below)

lemma unat_halves: "unat (w AND 0xffff :: u32) = unat w mod 65536" "unat (drop_bit 16 w AND 0xffff :: u32) = unat w div 65536"
proof -
  have "unat w div 65536 < 65536"
    using unat_u32_less [of w] by (simp add: less_mult_imp_div_less)
  then have "unat w div 2 ^ 16 mod 2 ^ 16 = unat w div 65536"
    by simp
  then show "unat (w AND 0xffff :: u32) = unat w mod 65536" "unat (drop_bit 16 w AND 0xffff :: u32) = unat w div 65536"
    unfolding low_half unat_take_bit unat_drop_bit by simp_all
qed

lemma unat_pseudo_header:
  assumes "unat acc = oc m"
  shows "unat (pseudo_header acc src dest proto n) = oc (le_sum (pseudo_bytes src dest proto n) + m)"
proof -
  have half: "unat w mod 65536 \<le> 65535" "unat w div 65536 \<le> 65535" for w :: u32
    using unat_u32_less [of w] less_mult_imp_div_less [of "unat w" 65536 65536] mod_less_divisor [of 65536 "unat w"] by simp_all
  have proto: "unat (ucast (htons (ucast proto)) :: u32) = 256 * unat proto"
    using unat_byte [of proto] by (simp add: unat_ucast32 unat_htons unat_ucast8 oc_small)
  have len: "unat (ucast (htons n) :: u32) = oc (256 * unat n)"
    by (simp add: unat_ucast32 unat_htons)
  note vals = assms proto len unat_halves(2) [of src] unat_halves(2) [of dest] unat_halves(1) [of src] unat_halves(1) [of dest]
  have "256 * unat proto \<le> 65535"
    using unat_byte [of proto] by simp
  then have "unat (acc + (src AND 0xffff) + (drop_bit 16 src AND 0xffff) + (dest AND 0xffff) + (drop_bit 16 dest AND 0xffff) +
      ucast (htons (ucast proto)) + ucast (htons n)) =
    unat acc + unat (src AND 0xffff) + unat (drop_bit 16 src AND 0xffff) + unat (dest AND 0xffff) + unat (drop_bit 16 dest AND 0xffff) +
      unat (ucast (htons (ucast proto)) :: u32) + unat (ucast (htons n) :: u32)"
    by (intro unat_sum7) (simp_all only: vals half oc_le)
  then have "unat (acc + (src AND 0xffff) + (drop_bit 16 src AND 0xffff) + (dest AND 0xffff) + (drop_bit 16 dest AND 0xffff) +
      ucast (htons (ucast proto)) + ucast (htons n)) = oc m + le_sum (pseudo_bytes src dest proto n)"
    by (simp only: vals le_sum_pseudo ac_simps)
  then show ?thesis
    unfolding pseudo_header_def Let_def unat_FOLD2
    by (simp only: oc_add add.commute [of "le_sum (pseudo_bytes src dest proto n)"])
qed

lemma partial_loop_rep:
  assumes "sum_rep bs s" "snd s = odd (length bs)" "unat n < 0x7fff" "\<forall>q \<in> set p. length q < 65536"
  obtains s' where "partial_loop p n s = Some s'" "sum_rep (bs @ take (unat n) (concat p)) s'"
proof -
  have "\<exists>s'. partial_loop p n s = Some s' \<and> sum_rep (bs @ take (unat n) (concat p)) s'"
    using assms
  proof (induction p arbitrary: bs n s)
    case (Cons q qs)
    show ?case
    proof (cases "n = 0")
      case False
      obtain acc swapped where s: "s = (acc, swapped)"
        by (cases s)
      define chklen where "chklen = (if of_nat (length q) > n then n else of_nat (length q))"
      have chklen: "unat chklen = min (unat n) (length q)"
        using Cons(5) unsigned_less [of n] by (simp add: chklen_def word_less_nat_alt unat_of_nat)
      have rest: "unat (n - chklen) = unat n - min (unat n) (length q)"
        using chklen by (subst unat_sub) (simp_all add: word_le_nat_alt)
      define acc' where "acc' = FOLD_U32T (acc + ucast (lwip_standard_chksum (take (unat chklen) q)))"
      define s' where "s' = (if odd (length q) then (SWAP_BYTES_IN_WORD acc', \<not> swapped) else (acc', swapped))"
      have "sum_rep (bs @ take (unat n) q) (acc', swapped)"
        using sum_rep_add [of bs acc swapped "take (unat n) q"] Cons(2,3,5) chklen s by (auto simp: acc'_def min_def)
      then have part: "sum_rep (bs @ take (unat n) q) s'"
        using sum_rep_swap by (simp add: s'_def)
      have lt: "unat (n - chklen) < 0x7fff"
        using rest Cons(4) by simp
      then have step: "partial_loop (q # qs) n s = partial_loop qs (n - chklen) s'"
        using False by (simp add: s chklen_def [symmetric] acc'_def [symmetric] s'_def [symmetric] word_le_nat_alt Let_def)
      show ?thesis
      proof (cases "length q \<le> unat n")
        case True
        then have "sum_rep (bs @ q) s'" "snd s' = odd (length (bs @ q))"
          using part Cons(3) s by (simp_all add: s'_def)
        moreover have "unat (n - chklen) = unat n - length q"
          using rest True by (simp only: min_absorb2)
        ultimately show ?thesis
          using Cons.IH [of "bs @ q" s' "n - chklen"] lt Cons(5) True step by simp
      next
        case False
        then have "n - chklen = 0"
          using rest by (simp add: min_def unat_eq_0)
        then have "partial_loop qs (n - chklen) s' = Some s'"
          by (cases qs) simp_all
        then show ?thesis
          using step part False by simp
      qed
    qed (use Cons in simp)
  qed simp
  then show ?thesis
    using that by blast
qed

lemma length_concat_member: "q \<in> set p \<Longrightarrow> length q \<le> length (concat p)"
  by (induction p) auto

text \<open>The weight of a byte in the sum, and the condition under which a receiver accepts.\<close>

lemma le_sum_update: "i < length bs \<Longrightarrow> le_sum (bs[i := b]) + (if odd i then 256 else 1) * unat (bs ! i) = le_sum bs + (if odd i then 256 else 1) * unat b"
  and be_sum_update: "i < length bs \<Longrightarrow> be_sum (bs[i := b]) + (if odd i then 1 else 256) * unat (bs ! i) = be_sum bs + (if odd i then 1 else 256) * unat b"
proof (induction bs arbitrary: i)
  case (Cons c bs)
  case 1
  then show ?case
    using Cons(2) [of "i - 1"] by (cases i) (auto simp: shifted_sums simp del: le_sum.simps(1,2) be_sum.simps(1,2) split: if_splits)
next
  case (Cons c bs)
  case 2
  then show ?case
    using Cons(1) [of "i - 1"] by (cases i) (auto simp: shifted_sums simp del: le_sum.simps(1,2) be_sum.simps(1,2) split: if_splits)
qed simp_all

lemma rep_top: "0 < m \<Longrightarrow> rep m n = m \<longleftrightarrow> 0 < n \<and> n mod m = 0"
proof
  assume m: "0 < m"
  show "0 < n \<and> n mod m = 0" if "rep m n = m"
    using that m rep_mod [of m n] rep_eq_0 [of m n] by (auto simp del: rep_eq_0)
  show "rep m n = m" if "0 < n \<and> n mod m = 0"
  proof (rule ccontr)
    assume "rep m n \<noteq> m"
    then have "rep m n < m"
      using rep_le [OF m, of n] by simp
    then show False
      using that rep_mod [of m n] rep_eq_0 [of m n] by (simp del: rep_eq_0)
  qed
qed

lemma rep_complement: "0 < m \<Longrightarrow> (n + (m - rep m n)) mod m = 0 \<and> 0 < n + (m - rep m n)"
proof -
  assume m: "0 < m"
  have "(rep m n + (m - rep m n)) mod m = 0"
    using rep_le [OF m, of n] by simp
  then show ?thesis
    using mod_add_cong [OF rep_mod [of m n] refl, of "m - rep m n"] m by (cases "n = 0") simp_all
qed

lemma unat_inet_chksum:
  assumes "length bs < 65536"
  shows "unat (inet_chksum bs) = 65535 - oc (le_sum bs)"
proof -
  have "NOT (lwip_standard_chksum bs) = - 1 - lwip_standard_chksum bs"
    by (simp add: not_eq_complement)
  then show ?thesis
    using chksum1_eq [OF assms] by (simp add: inet_chksum_def unat_sub unsigned_minus_1_eq_mask mask_eq_exp_minus_1)
qed

lemma inet_chksum_0_iff:
  assumes "length bs < 65536"
  shows "inet_chksum bs = 0 \<longleftrightarrow> 0 < le_sum bs \<and> le_sum bs mod 65535 = 0"
  using unat_inet_chksum [OF assms] oc_le [of "le_sum bs"] rep_top [of 65535 "le_sum bs"] by (simp add: word_unat_eq_iff)

lemma chksum_stored:
  assumes "length bs < 65536" "even k" "k + 1 < length bs" "bs ! k = 0" "bs ! (k + 1) = 0"
  shows "inet_chksum (bs[k := ucast (inet_chksum bs), k + 1 := ucast (drop_bit 8 (inet_chksum bs))]) = 0"
proof -
  let ?c = "inet_chksum bs"
  let ?bs1 = "bs[k := ucast ?c]"
  have "le_sum ?bs1 = le_sum bs + unat ?c mod 256"
    using le_sum_update [of k bs "ucast ?c"] assms by (simp add: unat_ucast_byte)
  then have "le_sum (?bs1[k + 1 := ucast (drop_bit 8 ?c)]) = le_sum bs + unat ?c mod 256 + 256 * (unat ?c div 256 mod 256)"
    using le_sum_update [of "k + 1" ?bs1 "ucast (drop_bit 8 ?c)"] assms by (simp add: unat_ucast_byte unat_drop_bit)
  also have "\<dots> = le_sum bs + (65535 - oc (le_sum bs))"
    using half_bytes [of "unat ?c"] unat_inet_chksum [OF assms(1)] by simp
  finally show ?thesis
    using rep_complement [of 65535 "le_sum bs"] assms(1) by (simp add: inet_chksum_0_iff)
qed

lemma chksum_damaged:
  assumes "length bs < 65536" "inet_chksum bs = 0" "i < length bs" "b \<noteq> bs ! i"
  shows "inet_chksum (bs[i := b]) \<noteq> 0"
proof
  define w :: nat where "w = (if odd i then 256 else 1)"
  assume "inet_chksum (bs[i := b]) = 0"
  then have zero: "le_sum (bs[i := b]) mod 65535 = 0" "le_sum bs mod 65535 = 0"
    using assms(1,2) inet_chksum_0_iff [of bs] inet_chksum_0_iff [of "bs[i := b]"] by simp_all
  have "(le_sum (bs[i := b]) + w * unat (bs ! i)) mod 65535 = (le_sum bs + w * unat b) mod 65535"
    using le_sum_update [OF assms(3), of b] by (simp only: w_def)
  then have "w * unat (bs ! i) mod 65535 = w * unat b mod 65535"
    using mod_add_left_eq [of "le_sum (bs[i := b])" 65535 "w * unat (bs ! i)"] mod_add_left_eq [of "le_sum bs" 65535 "w * unat b"]
    by (simp only: zero add_0)
  moreover have "w * unat c < 65535" for c :: u8
    using unat_byte [of c] by (simp add: w_def)
  ultimately have "w * unat (bs ! i) = w * unat b"
    by (simp add: mod_less)
  then show False
    using assms(4) by (simp add: w_def word_unat_eq_iff split: if_splits)
qed

section \<open>Properties\<close>

text \<open>
  C1. The three versions of \<^verbatim>\<open>lwip_standard_chksum\<close> agree on every buffer of less than 64 kbytes, at every address: each returns the
  sum of the 16-bit words in ones' complement, 0 only if all bytes are 0.
\<close>

theorem chksum_versions_agree:
  assumes "length bs < 65536"
  shows "unat (lwip_standard_chksum bs) = (if \<forall>b \<in> set bs. b = 0 then 0 else (le_sum bs - 1) mod 65535 + 1) \<and>
    lwip_standard_chksum2 pb bs = lwip_standard_chksum bs \<and> lwip_standard_chksum3 pb bs = lwip_standard_chksum bs"
  using chksum1_eq [OF assms] chksum2_eq [OF assms, of pb] chksum3_eq [of pb bs]
  by (auto simp: rep_def sums_zero word_unat_eq_iff)

theorem chksum_versions_agree_witness:
  "lwip_standard_chksum2 1 [1, 2, 3] = lwip_standard_chksum [1, 2, 3] \<and> lwip_standard_chksum3 1 [1, 2, 3] = lwip_standard_chksum [1, 2, 3]"
  using chksum_versions_agree [of "[1, 2, 3]" 1] by simp

text \<open>
  C2. The checksum of a chain of packet buffers does not depend on how the data is split into buffers, whatever their
  lengths: it is the checksum of the concatenated data, with the pseudo header in front for TCP and UDP, and of the first bytes only
  for the function that covers a part of a chain.
\<close>

theorem chain_chksum_correct:
  assumes "length (concat p) < 65524"
  shows "inet_chksum_pbuf p = inet_chksum (concat p) \<and>
    inet_chksum_pseudo p src dest proto n = inet_chksum (pseudo_bytes src dest proto n @ concat p) \<and>
    (unat k < 0x7fff \<longrightarrow>
      inet_chksum_pseudo_partial p src dest proto n k = Some (inet_chksum (pseudo_bytes src dest proto n @ take (unat k) (concat p))))"
proof (intro conjI impI)
  have len: "\<forall>q \<in> set p. length q < 65536"
    using assms length_concat_member by fastforce
  show "inet_chksum_pbuf p = inet_chksum (concat p)"
    unfolding inet_chksum_pbuf_def by (rule chksum_eqI) (use assms unat_chain_sum [OF len] in simp_all)
  have pseudo: "length (pseudo_bytes src dest proto n) = 12"
    by (simp add: pseudo_bytes_def bytes32_def)
  show "inet_chksum_pseudo p src dest proto n = inet_chksum (pseudo_bytes src dest proto n @ concat p)"
    unfolding inet_chksum_pseudo_def
    by (rule chksum_eqI) (use assms unat_pseudo_header [OF unat_chain_sum [OF len]] pseudo in \<open>simp_all add: le_sum_append\<close>)
  assume "unat k < 0x7fff"
  then obtain s where s: "partial_loop p k (0, False) = Some s" "sum_rep (take (unat k) (concat p)) s"
    using partial_loop_rep [of "[]" "(0, False)" k p] len by (auto simp: sum_rep_def [of "[]"])
  have "ucast (NOT (pseudo_header (unswap s) src dest proto n AND 0xffff)) =
      inet_chksum (pseudo_bytes src dest proto n @ take (unat k) (concat p))"
    by (rule chksum_eqI) (use assms unat_pseudo_header [OF unat_unswap [OF s(2)]] pseudo in \<open>simp_all add: le_sum_append\<close>)
  then show "inet_chksum_pseudo_partial p src dest proto n k = Some (inet_chksum (pseudo_bytes src dest proto n @ take (unat k) (concat p)))"
    using s(1) by (simp add: inet_chksum_pseudo_partial_def unswap_def split_def)
qed

theorem chain_chksum_correct_witness: "inet_chksum_pbuf [[1], [2, 3], [4]] = inet_chksum [1, 2, 3, 4]"
  using chain_chksum_correct [of "[[1], [2, 3], [4]]"] by simp

text \<open>
  C3. A receiver accepts what a sender has checksummed and notices every damaged byte: storing \<^verbatim>\<open>inet_chksum\<close> of a header whose checksum
  field is zero into that field, at an even offset, makes \<^verbatim>\<open>inet_chksum\<close> of the header 0, and changing any single byte of data
  whose \<^verbatim>\<open>inet_chksum\<close> is 0 makes it nonzero.
\<close>

theorem inet_chksum_detects:
  assumes "length bs < 65536"
  shows "(even k \<and> k + 1 < length bs \<and> bs ! k = 0 \<and> bs ! (k + 1) = 0 \<longrightarrow>
      inet_chksum (bs[k := ucast (inet_chksum bs), k + 1 := ucast (drop_bit 8 (inet_chksum bs))]) = 0) \<and>
    (inet_chksum bs = 0 \<and> i < length bs \<and> b \<noteq> bs ! i \<longrightarrow> inet_chksum (bs[i := b]) \<noteq> 0)"
  using chksum_stored [OF assms] chksum_damaged [OF assms] by blast

theorem inet_chksum_detects_witness:
  "inet_chksum ([1, 2, 0, 0][2 := ucast (inet_chksum [1, 2, 0, 0]), 3 := ucast (drop_bit 8 (inet_chksum [1, 2, 0, 0]))]) = 0"
  using inet_chksum_detects [of "[1, 2, 0, 0]" 2] by simp

end
