(* ===== verification/Spec2Isabelle.thy ===== *)
theory Spec2Isabelle
  imports Trap Fork Serv Pipe Chksum
begin

text \<open>
  Verification of the kernel and user environment of kludgeos, a multiprocessor exokernel for the
  32-bit PC.
\<close>

end
